(* ===== verification/Zephyr_Prelude.thy ===== *)
theory Zephyr_Prelude
  imports Main "HOL-Library.Word"
begin

text \<open>
  Shared vocabulary of the development: machine types, error numbers, the collections of rewrite
  rules the component theories feed, and the list and word facts they share.

  The central list notion is \<open>ins_before P x xs\<close>: walk \<open>xs\<close> from its head and insert \<open>x\<close> in front
  of the first element that satisfies \<open>P\<close>, or at the end. This is the shape of every ordered
  insertion of the kernel (ready queue, wait queues, timeout queue). The locale
  \<open>strict_weak_order\<close> states what such a walk needs of the comparison and proves once that the
  insertion keeps the queue ordered, keeps the first-come-first-served order of equal elements, and
  that the head of an ordered queue is a best element.
\<close>

section \<open>Machine types and error numbers\<close>

unbundle bit_operations_syntax

type_synonym u8 = "8 word"
type_synonym u32 = "32 word"
type_synonym u64 = "64 word"
type_synonym addr = nat

definition EPERM :: int where "EPERM = 1"
definition EAGAIN :: int where "EAGAIN = 11"
definition ENOMEM :: int where "ENOMEM = 12"
definition EBUSY :: int where "EBUSY = 16"
definition ENODEV :: int where "ENODEV = 19"
definition EINVAL :: int where "EINVAL = 22"
definition ENOMSG :: int where "ENOMSG = 35"
definition EDEADLK :: int where "EDEADLK = 45"
definition ETIMEDOUT :: int where "ETIMEDOUT = 116"
definition EALREADY :: int where "EALREADY = 120"
definition EMSGSIZE :: int where "EMSGSIZE = 122"

lemmas errno_defs =
  EPERM_def EAGAIN_def ENOMEM_def EBUSY_def ENODEV_def EINVAL_def ENOMSG_def EDEADLK_def ETIMEDOUT_def
  EALREADY_def EMSGSIZE_def

section \<open>Collections\<close>

named_theorems frame_simps \<open>what an operation leaves unchanged\<close>
named_theorems flag_simps \<open>thread state bits\<close>
named_theorems op_defs \<open>definitions of the operations, for unfolding\<close>

section \<open>Insertion before the first match\<close>

fun ins_before :: "('a \<Rightarrow> bool) \<Rightarrow> 'a \<Rightarrow> 'a list \<Rightarrow> 'a list" where
  "ins_before P x [] = [x]"
| "ins_before P x (y # ys) = (if P y then x # y # ys else y # ins_before P x ys)"

lemma set_ins_before [simp]: "set (ins_before P x xs) = insert x (set xs)"
  by (induction xs) auto

lemma length_ins_before [simp]: "length (ins_before P x xs) = Suc (length xs)"
  by (induction xs) auto

lemma ins_before_not_Nil [simp]: "ins_before P x xs \<noteq> []"
  by (cases xs) auto

lemma distinct_ins_before [simp]:
  "distinct (ins_before P x xs) \<longleftrightarrow> x \<notin> set xs \<and> distinct xs"
  by (induction xs) auto

lemma distinct_map_ins_before:
  "distinct (map f (ins_before P x xs)) \<longleftrightarrow> f x \<notin> f ` set xs \<and> distinct (map f xs)"
  by (induction xs) auto

lemma ins_before_split:
  "ins_before P x xs = takeWhile (\<lambda>y. \<not> P y) xs @ x # dropWhile (\<lambda>y. \<not> P y) xs"
  by (induction xs) auto

lemma remove1_ins_before [simp]: "x \<notin> set xs \<Longrightarrow> remove1 x (ins_before P x xs) = xs"
  by (induction xs) auto

lemma filter_ins_before_out: "\<not> Q x \<Longrightarrow> filter Q (ins_before P x xs) = filter Q xs"
  by (induction xs) auto

lemma ins_before_between:
  "(\<And>y. y \<in> set xs \<Longrightarrow> \<not> P y) \<Longrightarrow> (\<And>y. y \<in> set ys \<Longrightarrow> P y) \<Longrightarrow> ins_before P x (xs @ ys) = xs @ x # ys"
  by (induction xs) (auto, cases ys, auto)

lemma ins_before_cong:
  "(\<And>y. y \<in> set xs \<Longrightarrow> P y = Q y) \<Longrightarrow> ins_before P x xs = ins_before Q x xs"
  by (induction xs) auto

section \<open>Orders on queue elements\<close>

text \<open>
  What the kernel's comparison functions promise: \<open>before x y\<close> (\<open>x\<close> goes strictly in front of
  \<open>y\<close>) is a strict weak order. A queue is ordered when no element goes strictly in front of an
  earlier one.
\<close>

locale strict_weak_order =
  fixes before :: "'a \<Rightarrow> 'a \<Rightarrow> bool"
  assumes asym: "before x y \<Longrightarrow> \<not> before y x"
    and neg_trans: "before x z \<Longrightarrow> before x y \<or> before y z"
begin

lemma irrefl: "\<not> before x x"
  using asym by blast

lemma trans: "before x y \<Longrightarrow> before y z \<Longrightarrow> before x z"
  using asym neg_trans by blast

lemma not_before_trans: "\<not> before y x \<Longrightarrow> \<not> before z y \<Longrightarrow> \<not> before z x"
  using neg_trans by blast

lemma ordered_insert:
  "sorted_wrt (\<lambda>x y. \<not> before y x) xs \<Longrightarrow> sorted_wrt (\<lambda>x y. \<not> before y x) (ins_before (before x) x xs)"
proof (induction xs)
  case Nil
  then show ?case by simp
next
  case (Cons y ys)
  show ?case
  proof (cases "before x y")
    case True
    have "\<not> before z x" if "z \<in> set ys" for z
      using True that Cons.prems asym not_before_trans trans by (meson list.set_intros sorted_wrt.simps(2))
    with True Cons.prems show ?thesis by (auto dest: asym)
  next
    case False
    with Cons show ?thesis by auto
  qed
qed

lemma ordered_head_best:
  "sorted_wrt (\<lambda>x y. \<not> before y x) (x # xs) \<Longrightarrow> y \<in> set (x # xs) \<Longrightarrow> \<not> before y x"
  using irrefl by auto

lemma insert_after_equals:
  "sorted_wrt (\<lambda>x y. \<not> before y x) xs \<Longrightarrow>
   filter (\<lambda>y. \<not> before x y \<and> \<not> before y x) (ins_before (before x) x xs) =
   filter (\<lambda>y. \<not> before x y \<and> \<not> before y x) xs @ [x]"
proof (induction xs)
  case Nil
  then show ?case by (simp add: irrefl)
next
  case (Cons y ys)
  show ?case
  proof (cases "before x y")
    case True
    have "before x z" if "z \<in> set ys" for z
      using True that Cons.prems neg_trans by fastforce
    with True show ?thesis by (auto simp: irrefl filter_empty_conv)
  next
    case False
    with Cons show ?thesis by auto
  qed
qed

end

section \<open>List facts\<close>

lemma sorted_wrt_remove1: "sorted_wrt P xs \<Longrightarrow> sorted_wrt P (remove1 x xs)"
  by (induction xs) (auto dest: notin_set_remove1)

lemma remove1_head: "x \<noteq> y \<Longrightarrow> remove1 x (y # ys) = y # remove1 x ys"
  by simp

lemma map_fun_upd_notin: "x \<notin> set xs \<Longrightarrow> map (f(x := v)) xs = map f xs"
  by (induction xs) auto

lemma sum_list_remove1:
  "x \<in> set xs \<Longrightarrow> f x + sum_list (map f (remove1 x xs)) = (sum_list (map f xs) :: int)"
  by (induction xs) auto

section \<open>Word facts\<close>

lemma and_bit_mask_iff:
  fixes w :: "'a::len word"
  shows "(w AND push_bit n 1 = 0) = (\<not> bit w n)"
  by (simp add: push_bit_eq_mult and_exp_eq_0_iff_not_bit)

lemma unat_sub_le:
  fixes a b :: "'a::len word"
  shows "b \<le> a \<Longrightarrow> unat (a - b) = unat a - unat b"
  by (simp add: unat_sub)

end
