(* ===== verification/Dlist.thy ===== *)
theory Dlist
  imports Zephyr_Prelude
begin

text \<open>
  The intrusive doubly-linked list of \<open>include/zephyr/sys/dlist.h\<close> at pointer level. A node (and
  a list header, which is a node) is two pointers, so the store is a pair of maps from addresses
  to addresses; address 0 is the null pointer. \<open>is_dlist h l xs\<close> says that in store \<open>h\<close> the
  header \<open>l\<close> and the nodes \<open>xs\<close> form the circular list the code maintains. The lemmas show that
  every operation of the header implements the operation of the same meaning on the list \<open>xs\<close> and
  leaves other lists alone; the locale \<open>linked_list\<close> is that contract, interpreted on the
  pointer operations, and the kernel's queues are modelled as lists on the strength of it.
\<close>

section \<open>Store and operations\<close>

record dheap =
  dn_next :: "addr \<Rightarrow> addr"
  dn_prev :: "addr \<Rightarrow> addr"

abbreviation NULL :: addr where "NULL \<equiv> 0"

definition set_next :: "addr \<Rightarrow> addr \<Rightarrow> dheap \<Rightarrow> dheap" where
  "set_next a v h = h\<lparr>dn_next := (dn_next h)(a := v)\<rparr>"

definition set_prev :: "addr \<Rightarrow> addr \<Rightarrow> dheap \<Rightarrow> dheap" where
  "set_prev a v h = h\<lparr>dn_prev := (dn_prev h)(a := v)\<rparr>"

definition sys_dlist_init :: "addr \<Rightarrow> dheap \<Rightarrow> dheap" where
  "sys_dlist_init l h = set_prev l l (set_next l l h)"

definition sys_dnode_init :: "addr \<Rightarrow> dheap \<Rightarrow> dheap" where
  "sys_dnode_init n h = set_prev n NULL (set_next n NULL h)"

definition sys_dnode_is_linked :: "addr \<Rightarrow> dheap \<Rightarrow> bool" where
  "sys_dnode_is_linked n h \<longleftrightarrow> dn_next h n \<noteq> NULL"

definition sys_dlist_is_head :: "addr \<Rightarrow> addr \<Rightarrow> dheap \<Rightarrow> bool" where
  "sys_dlist_is_head l n h \<longleftrightarrow> dn_next h l = n"

definition sys_dlist_is_tail :: "addr \<Rightarrow> addr \<Rightarrow> dheap \<Rightarrow> bool" where
  "sys_dlist_is_tail l n h \<longleftrightarrow> dn_prev h l = n"

definition sys_dlist_is_empty :: "addr \<Rightarrow> dheap \<Rightarrow> bool" where
  "sys_dlist_is_empty l h \<longleftrightarrow> dn_next h l = l"

definition sys_dlist_has_multiple_nodes :: "addr \<Rightarrow> dheap \<Rightarrow> bool" where
  "sys_dlist_has_multiple_nodes l h \<longleftrightarrow> dn_next h l \<noteq> dn_prev h l"

definition sys_dlist_peek_head :: "addr \<Rightarrow> dheap \<Rightarrow> addr" where
  "sys_dlist_peek_head l h = (if sys_dlist_is_empty l h then NULL else dn_next h l)"

definition sys_dlist_peek_head_not_empty :: "addr \<Rightarrow> dheap \<Rightarrow> addr" where
  "sys_dlist_peek_head_not_empty l h = dn_next h l"

definition sys_dlist_peek_next_no_check :: "addr \<Rightarrow> addr \<Rightarrow> dheap \<Rightarrow> addr" where
  "sys_dlist_peek_next_no_check l n h = (if n = dn_prev h l then NULL else dn_next h n)"

definition sys_dlist_peek_next :: "addr \<Rightarrow> addr \<Rightarrow> dheap \<Rightarrow> addr" where
  "sys_dlist_peek_next l n h = (if n \<noteq> NULL then sys_dlist_peek_next_no_check l n h else NULL)"

definition sys_dlist_peek_prev_no_check :: "addr \<Rightarrow> addr \<Rightarrow> dheap \<Rightarrow> addr" where
  "sys_dlist_peek_prev_no_check l n h = (if n = dn_next h l then NULL else dn_prev h n)"

definition sys_dlist_peek_prev :: "addr \<Rightarrow> addr \<Rightarrow> dheap \<Rightarrow> addr" where
  "sys_dlist_peek_prev l n h = (if n \<noteq> NULL then sys_dlist_peek_prev_no_check l n h else NULL)"

definition sys_dlist_peek_tail :: "addr \<Rightarrow> dheap \<Rightarrow> addr" where
  "sys_dlist_peek_tail l h = (if sys_dlist_is_empty l h then NULL else dn_prev h l)"

definition sys_dlist_append :: "addr \<Rightarrow> addr \<Rightarrow> dheap \<Rightarrow> dheap" where
  "sys_dlist_append l n h =
     (let tail = dn_prev h l;
          h1 = set_next n l h;
          h2 = set_prev n tail h1;
          h3 = set_next tail n h2
      in set_prev l n h3)"

definition sys_dlist_prepend :: "addr \<Rightarrow> addr \<Rightarrow> dheap \<Rightarrow> dheap" where
  "sys_dlist_prepend l n h =
     (let head = dn_next h l;
          h1 = set_next n head h;
          h2 = set_prev n l h1;
          h3 = set_prev head n h2
      in set_next l n h3)"

definition sys_dlist_insert :: "addr \<Rightarrow> addr \<Rightarrow> dheap \<Rightarrow> dheap" where
  "sys_dlist_insert successor n h =
     (let prev = dn_prev h successor;
          h1 = set_prev n prev h;
          h2 = set_next n successor h1;
          h3 = set_next prev n h2
      in set_prev successor n h3)"

text \<open>The walk of \<open>sys_dlist_insert_at\<close>, \<open>SYS_DLIST_FOR_EACH_NODE\<close> and their container forms
  stops at the first node the condition selects, or at the null pointer past the tail. On a store
  that is not a list it may run forever, so it is a partial function.\<close>

partial_function (option) dlist_find :: "addr \<Rightarrow> (addr \<Rightarrow> bool) \<Rightarrow> addr \<Rightarrow> dheap \<Rightarrow> addr option" where
  "dlist_find l cond pos h =
     (if pos \<noteq> NULL \<and> \<not> cond pos then dlist_find l cond (sys_dlist_peek_next l pos h) h
      else Some pos)"

definition sys_dlist_insert_at :: "addr \<Rightarrow> addr \<Rightarrow> (addr \<Rightarrow> bool) \<Rightarrow> dheap \<Rightarrow> dheap option" where
  "sys_dlist_insert_at l n cond h =
     (if sys_dlist_is_empty l h then Some (sys_dlist_append l n h)
      else map_option (\<lambda>pos. if pos \<noteq> NULL then sys_dlist_insert pos n h else sys_dlist_append l n h)
             (dlist_find l cond (sys_dlist_peek_head l h) h))"

definition sys_dlist_dequeue :: "addr \<Rightarrow> dheap \<Rightarrow> dheap" where
  "sys_dlist_dequeue n h =
     (let prev = dn_prev h n; next = dn_next h n
      in set_prev next prev (set_next prev next h))"

definition sys_dlist_remove :: "addr \<Rightarrow> dheap \<Rightarrow> dheap" where
  "sys_dlist_remove n h =
     (let prev = dn_prev h n; next = dn_next h n;
          h1 = set_next prev next h;
          h2 = set_prev next prev h1
      in sys_dnode_init n h2)"

definition sys_dlist_get :: "addr \<Rightarrow> dheap \<Rightarrow> addr \<times> dheap" where
  "sys_dlist_get l h =
     (if \<not> sys_dlist_is_empty l h
      then (let node = dn_next h l in (node, sys_dlist_remove node h))
      else (NULL, h))"

partial_function (option) dlist_count :: "addr \<Rightarrow> addr \<Rightarrow> nat \<Rightarrow> dheap \<Rightarrow> nat option" where
  "dlist_count l node len h =
     (if node \<noteq> NULL then dlist_count l (sys_dlist_peek_next l node h) (Suc len) h else Some len)"

definition sys_dlist_len :: "addr \<Rightarrow> dheap \<Rightarrow> nat option" where
  "sys_dlist_len l h = dlist_count l (sys_dlist_peek_head l h) 0 h"

section \<open>Lists in the store\<close>

text \<open>\<open>dlseg h a xs b\<close>: starting from \<open>a\<close>, the nodes \<open>xs\<close> follow one another and \<open>b\<close> follows the
  last; the \<open>prev\<close> pointers agree.\<close>

fun dlseg :: "dheap \<Rightarrow> addr \<Rightarrow> addr list \<Rightarrow> addr \<Rightarrow> bool" where
  "dlseg h a [] b \<longleftrightarrow> dn_next h a = b \<and> dn_prev h b = a"
| "dlseg h a (x # xs) b \<longleftrightarrow> dn_next h a = x \<and> dn_prev h x = a \<and> dlseg h x xs b"

definition is_dlist :: "dheap \<Rightarrow> addr \<Rightarrow> addr list \<Rightarrow> bool" where
  "is_dlist h l xs \<longleftrightarrow> dlseg h l xs l \<and> distinct (l # xs) \<and> NULL \<notin> set (l # xs)"

lemmas dheap_update_defs = set_next_def set_prev_def

lemma dlseg_append:
  "dlseg h a (xs @ y # ys) b \<longleftrightarrow> dlseg h a xs y \<and> dlseg h y ys b"
  by (induction xs arbitrary: a) auto

lemma dlseg_snoc_simps:
  "dlseg h a (xs @ [y]) b \<longleftrightarrow> dlseg h a xs y \<and> dn_next h y = b \<and> dn_prev h b = y"
  by (simp add: dlseg_append)

lemma dlseg_next_frame:
  "c \<notin> set (a # xs) \<Longrightarrow> dlseg (set_next c v h) a xs b = dlseg h a xs b"
  by (induction xs arbitrary: a) (auto simp: set_next_def)

lemma dlseg_prev_frame:
  "c \<notin> set (b # xs) \<Longrightarrow> dlseg (set_prev c v h) a xs b = dlseg h a xs b"
  by (induction xs arbitrary: a) (auto simp: set_prev_def)

lemma dlseg_first: "dlseg h a xs b \<Longrightarrow> dn_next h a = hd (xs @ [b])"
  by (cases xs) auto

lemma dlseg_last: "dlseg h a xs b \<Longrightarrow> dn_prev h b = last (a # xs)"
  by (induction xs arbitrary: a) auto

text \<open>Relinking one edge of a segment: after \<open>a\<close> is made to point to \<open>c\<close>.\<close>

lemma dlseg_relink_end:
  assumes "dlseg h a xs b" "c \<notin> set xs" "distinct (a # xs)"
  shows "dlseg (set_prev c (last (a # xs)) (set_next (last (a # xs)) c h)) a xs c"
  using assms
proof (induction xs arbitrary: a)
  case Nil
  then show ?case by (simp add: dheap_update_defs)
next
  case (Cons x xs)
  have "dlseg (set_prev c (last (x # xs)) (set_next (last (x # xs)) c h)) x xs c"
    using Cons by auto
  moreover have "last (x # xs) \<noteq> a" "c \<noteq> x" "a \<notin> set (x # xs)"
    using Cons.prems last_in_set [of "x # xs"] by auto
  ultimately show ?case
    using Cons.prems by (auto simp: dheap_update_defs)
qed

text \<open>The two primitive relinkings: a node linked between two neighbours, and the edge that
  bypasses a node.\<close>

definition link_between :: "addr \<Rightarrow> addr \<Rightarrow> addr \<Rightarrow> dheap \<Rightarrow> dheap" where
  "link_between p n s h = set_prev s n (set_next p n (set_prev n p (set_next n s h)))"

definition bypass :: "addr \<Rightarrow> addr \<Rightarrow> dheap \<Rightarrow> dheap" where
  "bypass p s h = set_prev s p (set_next p s h)"

lemma append_link: "sys_dlist_append l n h = link_between (dn_prev h l) n l h"
  by (simp add: sys_dlist_append_def link_between_def Let_def)

lemma prepend_link: "sys_dlist_prepend l n h = link_between l n (dn_next h l) h"
  by (simp add: sys_dlist_prepend_def link_between_def Let_def dheap_update_defs)

lemma insert_link: "sys_dlist_insert s n h = link_between (dn_prev h s) n s h"
  by (simp add: sys_dlist_insert_def link_between_def Let_def dheap_update_defs)

lemma dequeue_bypass: "sys_dlist_dequeue n h = bypass (dn_prev h n) (dn_next h n) h"
  by (simp add: sys_dlist_dequeue_def bypass_def Let_def)

lemma remove_bypass:
  "sys_dlist_remove n h = sys_dnode_init n (bypass (dn_prev h n) (dn_next h n) h)"
  by (simp add: sys_dlist_remove_def bypass_def Let_def)

lemma dlseg_split:
  "dlseg h a (xs @ ys) b \<Longrightarrow> dlseg h a xs (hd (ys @ [b]))"
  by (cases ys) (auto simp: dlseg_append)

lemma is_dlist_link:
  assumes "is_dlist h l (xs @ ys)" and "n \<notin> set (l # xs @ ys)" and "n \<noteq> NULL"
    and p: "p = last (l # xs)" and s: "s = hd (ys @ [l])"
  shows "is_dlist (link_between p n s h) l (xs @ n # ys)"
proof -
  have seg: "dlseg h l (xs @ ys) l" and dist: "distinct (l # xs @ ys)"
    using assms(1) by (auto simp: is_dlist_def)
  have p_in: "p \<in> set (l # xs)" unfolding p by (rule last_in_set) simp
  have s_notin: "s \<notin> set (n # xs)"
    using assms(2) dist s by (cases ys) auto
  have comm: "set_next p n (set_prev n p k) = set_prev n p (set_next p n k)" for k
    by (simp add: dheap_update_defs)
  have "dlseg (set_next n s h) l xs s"
    using dlseg_split [OF seg] assms(2) s by (simp add: dlseg_next_frame)
  then have "dlseg (set_prev n p (set_next p n (set_next n s h))) l xs n"
    using dlseg_relink_end [of _ l xs s n] assms(2) dist p by simp
  then have left: "dlseg (link_between p n s h) l xs n"
    using s_notin by (simp add: link_between_def comm dlseg_prev_frame)
  have right: "dlseg (link_between p n s h) n ys l"
  proof (cases ys)
    case Nil
    then show ?thesis using s p_in assms(2) by (auto simp: link_between_def dheap_update_defs)
  next
    case (Cons y ys')
    have "dlseg h y ys' l" using seg Cons by (simp add: dlseg_append)
    then have "dlseg (link_between p n s h) y ys' l"
      unfolding link_between_def
      using Cons s p_in assms(2) dist
      by (subst dlseg_prev_frame, force, subst dlseg_next_frame, force,
          subst dlseg_prev_frame, force, subst dlseg_next_frame, force) simp
    then show ?thesis using Cons s p_in assms(2) by (auto simp: link_between_def dheap_update_defs)
  qed
  show ?thesis using left right assms(1-3) by (auto simp: is_dlist_def dlseg_append)
qed

lemma is_dlist_bypass:
  assumes "is_dlist h l (xs @ n # ys)"
    and p: "p = last (l # xs)" and s: "s = hd (ys @ [l])"
  shows "is_dlist (bypass p s h) l (xs @ ys)"
proof -
  have left: "dlseg h l xs n" and right: "dlseg h n ys l" and dist: "distinct (l # xs @ n # ys)"
    using assms(1) by (auto simp: is_dlist_def dlseg_append)
  have p_in: "p \<in> set (l # xs)" unfolding p by (rule last_in_set) simp
  have s_notin: "s \<notin> set xs"
    using dist s by (cases ys) auto
  have left': "dlseg (bypass p s h) l xs s"
    using dlseg_relink_end [OF left s_notin] dist by (simp add: bypass_def p)
  show ?thesis
  proof (cases ys)
    case Nil
    with left' s dist assms(1) show ?thesis by (auto simp: is_dlist_def)
  next
    case (Cons y ys')
    have "dlseg (bypass p s h) y ys' l"
      unfolding bypass_def using Cons s p_in dist right
      by (subst dlseg_prev_frame, force, subst dlseg_next_frame, force) simp
    with left' Cons s dist assms(1) show ?thesis by (auto simp: is_dlist_def dlseg_append)
  qed
qed

lemma dlseg_neighbours:
  "dlseg h l (xs @ n # ys) l \<Longrightarrow> dn_prev h n = last (l # xs) \<and> dn_next h n = hd (ys @ [l])"
  by (auto simp: dlseg_append dest: dlseg_last dlseg_first)

section \<open>The operations on lists\<close>

lemma is_dlist_init: "l \<noteq> NULL \<Longrightarrow> is_dlist (sys_dlist_init l h) l []"
  by (simp add: is_dlist_def sys_dlist_init_def dheap_update_defs)

lemma is_dlist_is_empty: "is_dlist h l xs \<Longrightarrow> sys_dlist_is_empty l h = (xs = [])"
  by (cases xs) (auto simp: is_dlist_def sys_dlist_is_empty_def)

lemma is_dlist_peek_head:
  "is_dlist h l xs \<Longrightarrow> sys_dlist_peek_head l h = (case xs of [] \<Rightarrow> NULL | x # _ \<Rightarrow> x)"
  by (cases xs) (auto simp: is_dlist_def sys_dlist_peek_head_def sys_dlist_is_empty_def)

lemma is_dlist_peek_tail:
  "is_dlist h l xs \<Longrightarrow> sys_dlist_peek_tail l h = (if xs = [] then NULL else last xs)"
  using is_dlist_is_empty [of h l xs] dlseg_last [of h l xs l]
  by (simp add: sys_dlist_peek_tail_def is_dlist_def)

lemma is_dlist_peek_next:
  assumes "is_dlist h l (xs @ n # ys)"
  shows "sys_dlist_peek_next l n h = (case ys of [] \<Rightarrow> NULL | y # _ \<Rightarrow> y)"
proof -
  have "dn_prev h l = last (n # ys)" "dn_next h n = hd (ys @ [l])"
    using assms by (auto simp: is_dlist_def dlseg_append dest: dlseg_last dlseg_first)
  moreover have "n \<noteq> last ys" if "ys \<noteq> []"
    using assms that last_in_set [OF that] by (auto simp: is_dlist_def)
  ultimately show ?thesis using assms
    by (cases ys) (auto simp: sys_dlist_peek_next_def sys_dlist_peek_next_no_check_def is_dlist_def)
qed

lemma is_dlist_append:
  "is_dlist h l xs \<Longrightarrow> n \<notin> set (l # xs) \<Longrightarrow> n \<noteq> NULL \<Longrightarrow>
   is_dlist (sys_dlist_append l n h) l (xs @ [n])"
  using is_dlist_link [of h l xs "[]" n] dlseg_last [of h l xs l]
  by (simp add: append_link is_dlist_def)

lemma is_dlist_prepend:
  "is_dlist h l xs \<Longrightarrow> n \<notin> set (l # xs) \<Longrightarrow> n \<noteq> NULL \<Longrightarrow>
   is_dlist (sys_dlist_prepend l n h) l (n # xs)"
  using is_dlist_link [of h l "[]" xs n] dlseg_first [of h l xs l]
  by (simp add: prepend_link is_dlist_def)

lemma is_dlist_insert:
  assumes "is_dlist h l (xs @ s # ys)" "n \<notin> set (l # xs @ s # ys)" "n \<noteq> NULL"
  shows "is_dlist (sys_dlist_insert s n h) l (xs @ n # s # ys)"
  using is_dlist_link [of h l xs "s # ys" n] dlseg_neighbours [of h l xs s ys] assms
  by (simp add: insert_link is_dlist_def)

lemma is_dlist_dequeue:
  assumes "is_dlist h l (xs @ n # ys)"
  shows "is_dlist (sys_dlist_dequeue n h) l (xs @ ys)"
  using is_dlist_bypass [OF assms] dlseg_neighbours [of h l xs n ys] assms
  by (simp add: dequeue_bypass is_dlist_def)

lemma is_dlist_node_frame:
  "is_dlist h l xs \<Longrightarrow> n \<notin> set (l # xs) \<Longrightarrow> is_dlist (sys_dnode_init n h) l xs"
  unfolding is_dlist_def sys_dnode_init_def
  by (auto simp: dlseg_prev_frame dlseg_next_frame)

lemma is_dlist_remove:
  assumes "is_dlist h l (xs @ n # ys)"
  shows "is_dlist (sys_dlist_remove n h) l (xs @ ys)"
proof -
  have "is_dlist (sys_dlist_dequeue n h) l (xs @ ys)" by (rule is_dlist_dequeue [OF assms])
  moreover have "n \<notin> set (l # xs @ ys)" using assms by (auto simp: is_dlist_def)
  ultimately show ?thesis
    using is_dlist_node_frame by (simp add: remove_bypass dequeue_bypass)
qed

lemma remove_unlinks: "\<not> sys_dnode_is_linked n (sys_dlist_remove n h)"
  by (simp add: sys_dnode_is_linked_def sys_dlist_remove_def sys_dnode_init_def dheap_update_defs Let_def)

lemma is_dlist_is_linked: "is_dlist h l xs \<Longrightarrow> n \<in> set xs \<Longrightarrow> sys_dnode_is_linked n h"
proof -
  assume h: "is_dlist h l xs" and "n \<in> set xs"
  then obtain ys zs where xs: "xs = ys @ n # zs" by (meson split_list)
  with h have "dn_next h n = hd (zs @ [l])" by (auto simp: is_dlist_def dest: dlseg_neighbours)
  moreover have "hd (zs @ [l]) \<in> set (l # xs)" using xs by (cases zs) auto
  moreover have "NULL \<notin> set (l # xs)" using h by (simp add: is_dlist_def)
  ultimately show ?thesis by (metis sys_dnode_is_linked_def)
qed

lemma is_dlist_has_multiple:
  "is_dlist h l xs \<Longrightarrow> sys_dlist_has_multiple_nodes l h \<longleftrightarrow> 1 < length xs"
proof -
  assume h: "is_dlist h l xs"
  then have "dn_next h l = hd (xs @ [l])" "dn_prev h l = last (l # xs)"
    by (auto simp: is_dlist_def dest: dlseg_first dlseg_last)
  moreover have "hd xs = last xs \<longleftrightarrow> length xs = 1" if "xs \<noteq> []"
    using h that by (cases xs) (auto simp: is_dlist_def)
  ultimately show ?thesis
    by (cases xs) (auto simp: sys_dlist_has_multiple_nodes_def)
qed

text \<open>An operation on one list leaves a list with no node in common alone.\<close>

lemma is_dlist_link_frame:
  assumes "is_dlist h l xs" and "set (l # xs) \<inter> {p, n, s} = {}"
  shows "is_dlist (link_between p n s h) l xs"
  using assms unfolding is_dlist_def link_between_def
  by (auto simp: dlseg_prev_frame dlseg_next_frame)

lemma is_dlist_bypass_frame:
  assumes "is_dlist h l xs" and "set (l # xs) \<inter> {p, s} = {}"
  shows "is_dlist (bypass p s h) l xs"
  using assms unfolding is_dlist_def bypass_def
  by (auto simp: dlseg_prev_frame dlseg_next_frame)

section \<open>Walks\<close>

lemma dlist_find_spec:
  assumes "is_dlist h l (xs @ ys)"
  shows "dlist_find l cond (case ys of [] \<Rightarrow> NULL | y # _ \<Rightarrow> y) h =
         Some (case dropWhile (\<lambda>y. \<not> cond y) ys of [] \<Rightarrow> NULL | y # _ \<Rightarrow> y)"
  using assms
proof (induction ys arbitrary: xs)
  case Nil
  then show ?case by (simp add: dlist_find.simps)
next
  case (Cons y ys)
  have nn: "y \<noteq> NULL" using Cons.prems by (auto simp: is_dlist_def)
  show ?case
  proof (cases "cond y")
    case True
    then show ?thesis by (simp add: dlist_find.simps)
  next
    case False
    have "dlist_find l cond (case ys of [] \<Rightarrow> NULL | y # _ \<Rightarrow> y) h =
          Some (case dropWhile (\<lambda>y. \<not> cond y) ys of [] \<Rightarrow> NULL | y # _ \<Rightarrow> y)"
      using Cons.IH [of "xs @ [y]"] Cons.prems by simp
    then show ?thesis
      using False nn is_dlist_peek_next [OF Cons.prems] by (simp add: dlist_find.simps [of l cond y])
  qed
qed

lemma is_dlist_insert_at:
  assumes h: "is_dlist h l xs" and n: "n \<notin> set (l # xs)" "n \<noteq> NULL"
  shows "\<exists>h'. sys_dlist_insert_at l n cond h = Some h' \<and> is_dlist h' l (ins_before cond n xs)"
proof -
  let ?pre = "takeWhile (\<lambda>y. \<not> cond y) xs"
  let ?suf = "dropWhile (\<lambda>y. \<not> cond y) xs"
  have find: "dlist_find l cond (sys_dlist_peek_head l h) h = Some (case ?suf of [] \<Rightarrow> NULL | y # _ \<Rightarrow> y)"
    using dlist_find_spec [of h l "[]" xs cond] h by (simp add: is_dlist_peek_head)
  show ?thesis
  proof (cases ?suf)
    case Nil
    then have "ins_before cond n xs = xs @ [n]"
      by (simp add: ins_before_split)
    then show ?thesis
      using is_dlist_append [OF h n] find Nil by (auto simp: sys_dlist_insert_at_def)
  next
    case (Cons y ys)
    then have xs: "xs = ?pre @ y # ys" by (metis takeWhile_dropWhile_id)
    have "xs \<noteq> []" using xs by auto
    have "y \<noteq> NULL" using h xs by (metis is_dlist_def in_set_conv_decomp list.set_intros(2))
    have "is_dlist (sys_dlist_insert y n h) l (?pre @ n # y # ys)"
      using is_dlist_insert [of h l ?pre y ys n] h n xs by metis
    then show ?thesis
      using \<open>xs \<noteq> []\<close> \<open>y \<noteq> NULL\<close> find Cons is_dlist_is_empty [OF h] by (auto simp: sys_dlist_insert_at_def ins_before_split)
  qed
qed

lemma dlist_count_spec:
  assumes "is_dlist h l (xs @ ys)"
  shows "dlist_count l (case ys of [] \<Rightarrow> NULL | y # _ \<Rightarrow> y) k h = Some (k + length ys)"
  using assms
proof (induction ys arbitrary: xs k)
  case Nil
  then show ?case by (simp add: dlist_count.simps)
next
  case (Cons y ys)
  have "y \<noteq> NULL" using Cons.prems by (auto simp: is_dlist_def)
  moreover have "dlist_count l (case ys of [] \<Rightarrow> NULL | y # _ \<Rightarrow> y) (Suc k) h = Some (Suc k + length ys)"
    using Cons.IH [of "xs @ [y]"] Cons.prems by simp
  ultimately show ?case
    using is_dlist_peek_next [OF Cons.prems] by (simp add: dlist_count.simps [of l y])
qed

lemma is_dlist_len: "is_dlist h l xs \<Longrightarrow> sys_dlist_len l h = Some (length xs)"
  using dlist_count_spec [of h l "[]" xs 0] by (simp add: sys_dlist_len_def is_dlist_peek_head)

lemma is_dlist_get:
  "is_dlist h l xs \<Longrightarrow>
   (case xs of [] \<Rightarrow> sys_dlist_get l h = (NULL, h)
    | x # xs' \<Rightarrow> fst (sys_dlist_get l h) = x \<and> is_dlist (snd (sys_dlist_get l h)) l xs')"
  using is_dlist_remove [of h l "[]"] is_dlist_is_empty [of h l xs]
  by (cases xs) (auto simp: sys_dlist_get_def Let_def is_dlist_def)

section \<open>The contract\<close>

text \<open>What a user of the header relies on: a representation relation and one law per operation.
  The clients' lemmas (moving a node, draining a list) follow from the laws alone.\<close>

locale linked_list =
  fixes repr :: "'h \<Rightarrow> addr \<Rightarrow> addr list \<Rightarrow> bool"
    and head :: "addr \<Rightarrow> 'h \<Rightarrow> addr"
    and append :: "addr \<Rightarrow> addr \<Rightarrow> 'h \<Rightarrow> 'h"
    and remove :: "addr \<Rightarrow> 'h \<Rightarrow> 'h"
  assumes repr_distinct: "repr h l xs \<Longrightarrow> distinct xs \<and> l \<notin> set xs \<and> 0 \<notin> set xs"
    and repr_head: "repr h l xs \<Longrightarrow> head l h = (case xs of [] \<Rightarrow> 0 | x # _ \<Rightarrow> x)"
    and repr_append: "repr h l xs \<Longrightarrow> n \<notin> set (l # xs) \<Longrightarrow> n \<noteq> 0 \<Longrightarrow> repr (append l n h) l (xs @ [n])"
    and repr_remove: "repr h l (xs @ n # ys) \<Longrightarrow> repr (remove n h) l (xs @ ys)"
begin

lemma remove_member: "repr h l xs \<Longrightarrow> n \<in> set xs \<Longrightarrow> repr (remove n h) l (remove1 n xs)"
proof -
  assume h: "repr h l xs" and "n \<in> set xs"
  then obtain ys zs where xs: "xs = ys @ n # zs" by (meson split_list)
  with h repr_distinct have "n \<notin> set ys" by fastforce
  with xs have "remove1 n xs = ys @ zs" by (simp add: remove1_append)
  with h xs repr_remove show ?thesis by simp
qed

lemma move_to_end:
  "repr h l xs \<Longrightarrow> n \<in> set xs \<Longrightarrow> repr (append l n (remove n h)) l (remove1 n xs @ [n])"
  using repr_distinct [of h l xs] repr_append [OF remove_member, of h l xs n n]
  by (auto dest: notin_set_remove1)

lemma drain_head:
  "repr h l xs \<Longrightarrow> xs \<noteq> [] \<Longrightarrow> head l h = hd xs \<and> repr (remove (head l h) h) l (tl xs)"
  using repr_head [of h l xs] repr_remove [of h l "[]" "hd xs" "tl xs"] by (cases xs) auto

end

interpretation sys_dlist: linked_list is_dlist sys_dlist_peek_head sys_dlist_append sys_dlist_remove
proof unfold_locales
  show "distinct xs \<and> l \<notin> set xs \<and> 0 \<notin> set xs" if "is_dlist h l xs" for h l xs
    using that by (auto simp: is_dlist_def)
qed (simp_all add: is_dlist_peek_head is_dlist_append is_dlist_remove)

section \<open>Property\<close>

text \<open>C10: On a well-linked list holding the nodes \<open>xs\<close>, the pointer operations of \<open>dlist.h\<close> are the list
  operations: \<open>append\<close> and \<open>prepend\<close> add the node at an end, \<open>insert_at\<close> terminates and puts it in
  front of the first node that satisfies the condition, \<open>remove\<close> takes exactly the given node out
  and leaves it unlinked, \<open>peek_head\<close> returns the first node or NULL, and \<open>len\<close> counts the nodes.\<close>

theorem sys_dlist_refines_list:
  assumes "is_dlist h l xs" and "n \<notin> set (l # xs)" and "n \<noteq> NULL"
  shows "is_dlist (sys_dlist_append l n h) l (xs @ [n]) \<and>
     is_dlist (sys_dlist_prepend l n h) l (n # xs) \<and>
     (\<exists>h'. sys_dlist_insert_at l n cond h = Some h' \<and> is_dlist h' l (ins_before cond n xs)) \<and>
     (\<forall>x \<in> set xs. is_dlist (sys_dlist_remove x h) l (remove1 x xs) \<and> \<not> sys_dnode_is_linked x (sys_dlist_remove x h)) \<and>
     sys_dlist_peek_head l h = (case xs of [] \<Rightarrow> NULL | x # _ \<Rightarrow> x) \<and>
     sys_dlist_len l h = Some (length xs)"
  using assms sys_dlist.remove_member [OF assms(1)]
  by (simp add: is_dlist_append is_dlist_prepend is_dlist_insert_at remove_unlinks is_dlist_peek_head is_dlist_len)

theorem sys_dlist_refines_list_witness:
  "is_dlist (sys_dlist_append 1 3 (sys_dlist_append 1 2 (sys_dlist_init 1 \<lparr>dn_next = \<lambda>_. 0, dn_prev = \<lambda>_. 0\<rparr>))) 1 [2, 3]"
proof -
  let ?h = "sys_dlist_append 1 2 (sys_dlist_init 1 \<lparr>dn_next = \<lambda>_. 0, dn_prev = \<lambda>_. 0\<rparr>)"
  have "is_dlist ?h 1 [2]"
    by (simp add: is_dlist_def sys_dlist_append_def sys_dlist_init_def set_next_def set_prev_def Let_def)
  with sys_dlist_refines_list [of ?h 1 "[2]" 3 "\<lambda>_. False"] show ?thesis by simp
qed

end
