(* ===== verification/Ring_Buffer.thy ===== *)
theory Ring_Buffer
  imports Zephyr_Prelude
begin

text \<open>
  The byte ring buffer of \<open>lib/utils/ring_buffer.c\<close> and \<open>include/zephyr/sys/ring_buffer.h\<close>.
  Each side (\<open>put\<close>, \<open>get\<close>) keeps three free-running 32-bit counters: \<open>tail\<close> (committed),
  \<open>head\<close> (claimed, at or ahead of \<open>tail\<close>) and \<open>base\<close> (the counter value of buffer index 0 for the
  current lap). The counters wrap at \<open>2^32\<close>, which is not a multiple of the buffer size, so the
  buffer index of a counter is only meaningful relative to \<open>base\<close>; the counters are modelled as
  32-bit words. \<open>rb_state\<close> describes a consistent buffer by natural numbers, \<open>contents\<close> is the
  byte sequence it holds, and the theorems say that \<open>ring_buf_put\<close>, \<open>ring_buf_get\<close> and
  \<open>ring_buf_peek\<close> append to, take from and look at that sequence, across every wrap-around.
\<close>

section \<open>Data and operations\<close>

record ring_buf_index =
  ri_head :: u32
  ri_tail :: u32
  ri_base :: u32

record ring_buf =
  rb_buffer :: "u8 list"
  rb_put :: ring_buf_index
  rb_get :: ring_buf_index
  rb_size :: u32

definition ring_buf_internal_reset :: "ring_buf \<Rightarrow> u32 \<Rightarrow> ring_buf" where
  "ring_buf_internal_reset buf v =
     buf\<lparr>rb_put := \<lparr>ri_head = v, ri_tail = v, ri_base = v\<rparr>,
         rb_get := \<lparr>ri_head = v, ri_tail = v, ri_base = v\<rparr>\<rparr>"

definition ring_buf_init :: "ring_buf \<Rightarrow> u32 \<Rightarrow> u8 list \<Rightarrow> ring_buf" where
  "ring_buf_init buf sz data =
     ring_buf_internal_reset (buf\<lparr>rb_size := sz, rb_buffer := data\<rparr>) 0"

definition ring_buf_reset :: "ring_buf \<Rightarrow> ring_buf" where
  "ring_buf_reset buf = ring_buf_internal_reset buf 0"

definition ring_buf_is_empty :: "ring_buf \<Rightarrow> bool" where
  "ring_buf_is_empty buf \<longleftrightarrow> ri_head (rb_get buf) = ri_tail (rb_put buf)"

definition ring_buf_space_get :: "ring_buf \<Rightarrow> u32" where
  "ring_buf_space_get buf = rb_size buf - (ri_head (rb_put buf) - ri_tail (rb_get buf))"

definition ring_buf_item_space_get :: "ring_buf \<Rightarrow> u32" where
  "ring_buf_item_space_get buf = ring_buf_space_get buf div 4"

definition ring_buf_capacity_get :: "ring_buf \<Rightarrow> u32" where
  "ring_buf_capacity_get buf = rb_size buf"

definition ring_buf_size_get :: "ring_buf \<Rightarrow> u32" where
  "ring_buf_size_get buf = ri_tail (rb_put buf) - ri_head (rb_get buf)"

text \<open>\<open>ring_buf_area_claim\<close> returns the offset of the claimed area in the buffer, its size, and
  the updated index.\<close>

definition ring_buf_area_claim ::
  "ring_buf \<Rightarrow> ring_buf_index \<Rightarrow> u32 \<Rightarrow> u32 \<times> u32 \<times> ring_buf_index" where
  "ring_buf_area_claim buf ring sz =
     (let base = ri_base ring;
          wrap_size = ri_head ring - base;
          (wrap_size, base) = (if rb_size buf \<le> wrap_size
                               then (wrap_size - rb_size buf, base + rb_size buf)
                               else (wrap_size, base));
          wrap_size = rb_size buf - wrap_size;
          sz = min sz wrap_size
      in (ri_head ring - base, sz, ring\<lparr>ri_head := ri_head ring + sz\<rparr>))"

definition ring_buf_area_finish ::
  "ring_buf \<Rightarrow> ring_buf_index \<Rightarrow> u32 \<Rightarrow> int \<times> ring_buf_index" where
  "ring_buf_area_finish buf ring sz =
     (let claimed_size = ri_head ring - ri_tail ring
      in if claimed_size < sz then (- EINVAL, ring)
         else let tail = ri_tail ring + sz;
                  wrap_size = tail - ri_base ring
              in (0, ring\<lparr>ri_tail := tail, ri_head := tail,
                          ri_base := (if rb_size buf \<le> wrap_size then ri_base ring + rb_size buf
                                      else ri_base ring)\<rparr>))"

definition ring_buf_put_claim :: "ring_buf \<Rightarrow> u32 \<Rightarrow> u32 \<times> u32 \<times> ring_buf" where
  "ring_buf_put_claim buf sz =
     (let (off, sz', ring) = ring_buf_area_claim buf (rb_put buf) (min sz (ring_buf_space_get buf))
      in (off, sz', buf\<lparr>rb_put := ring\<rparr>))"

definition ring_buf_put_finish :: "ring_buf \<Rightarrow> u32 \<Rightarrow> int \<times> ring_buf" where
  "ring_buf_put_finish buf sz =
     (let (err, ring) = ring_buf_area_finish buf (rb_put buf) sz in (err, buf\<lparr>rb_put := ring\<rparr>))"

definition ring_buf_get_claim :: "ring_buf \<Rightarrow> u32 \<Rightarrow> u32 \<times> u32 \<times> ring_buf" where
  "ring_buf_get_claim buf sz =
     (let (off, sz', ring) = ring_buf_area_claim buf (rb_get buf) (min sz (ring_buf_size_get buf))
      in (off, sz', buf\<lparr>rb_get := ring\<rparr>))"

definition ring_buf_get_finish :: "ring_buf \<Rightarrow> u32 \<Rightarrow> int \<times> ring_buf" where
  "ring_buf_get_finish buf sz =
     (let (err, ring) = ring_buf_area_finish buf (rb_get buf) sz in (err, buf\<lparr>rb_get := ring\<rparr>))"

text \<open>\<open>memcpy\<close> into and out of the buffer.\<close>

definition write_bytes :: "nat \<Rightarrow> 'a list \<Rightarrow> 'a list \<Rightarrow> 'a list" where
  "write_bytes off data buf = take off buf @ data @ drop (off + length data) buf"

definition read_bytes :: "nat \<Rightarrow> nat \<Rightarrow> 'a list \<Rightarrow> 'a list" where
  "read_bytes off n buf = take n (drop off buf)"

lemma put_claim_le: "fst (snd (ring_buf_put_claim buf sz)) \<le> sz"
  by (simp add: ring_buf_put_claim_def ring_buf_area_claim_def Let_def min.coboundedI1)

lemma get_claim_le: "fst (snd (ring_buf_get_claim buf sz)) \<le> sz"
  by (simp add: ring_buf_get_claim_def ring_buf_area_claim_def Let_def min.coboundedI1)

lemma sub_decreases: "part \<le> sz \<Longrightarrow> part \<noteq> 0 \<Longrightarrow> unat (sz - part) < unat (sz :: u32)"
  by (simp add: unat_sub_le) (metis unat_eq_0 word_le_nat_alt diff_less neq0_conv not_less_zero le_zero_eq)

text \<open>The copy loops. \<open>put_loop\<close> is the loop \<open>ring_buf_put\<close> and \<open>ring_buf_item_put\<close> share,
  \<open>get_loop\<close> the one \<open>ring_buf_get\<close>, \<open>ring_buf_peek\<close> and \<open>ring_buf_item_get\<close> share (it returns the
  bytes copied).\<close>

function put_loop :: "ring_buf \<Rightarrow> u8 list \<Rightarrow> u32 \<Rightarrow> u32 \<Rightarrow> ring_buf \<times> u32" where
  "put_loop buf data sz tot =
     (let (off, part, buf1) = ring_buf_put_claim buf sz
      in if part = 0 then (buf1, tot)
         else let buf2 = buf1\<lparr>rb_buffer := write_bytes (unat off) (take (unat part) data) (rb_buffer buf1)\<rparr>;
                  sz' = sz - part
              in if sz' = 0 then (buf2, tot + part)
                 else put_loop buf2 (drop (unat part) data) sz' (tot + part))"
  by pat_completeness auto
termination
proof (relation "measure (\<lambda>(buf, data, sz, tot). unat sz)", goal_cases)
  case 1
  then show ?case by simp
next
  case (2 buf data sz tot x off y part buf1 buf2 sz')
  then have "part \<le> sz" using put_claim_le [of buf sz] by (metis fst_conv snd_conv)
  with 2 show ?case using sub_decreases by auto
qed

function get_loop :: "ring_buf \<Rightarrow> u32 \<Rightarrow> u32 \<Rightarrow> u8 list \<Rightarrow> ring_buf \<times> u32 \<times> u8 list" where
  "get_loop buf sz tot acc =
     (let (off, part, buf1) = ring_buf_get_claim buf sz
      in if part = 0 then (buf1, tot, acc)
         else let acc' = acc @ read_bytes (unat off) (unat part) (rb_buffer buf1);
                  sz' = sz - part
              in if sz' = 0 then (buf1, tot + part, acc')
                 else get_loop buf1 sz' (tot + part) acc')"
  by pat_completeness auto
termination
proof (relation "measure (\<lambda>(buf, sz, tot, acc). unat sz)", goal_cases)
  case 1
  then show ?case by simp
next
  case (2 buf sz tot acc x off y part buf1 acc' sz')
  then have "part \<le> sz" using get_claim_le [of buf sz] by (metis fst_conv snd_conv)
  with 2 show ?case using sub_decreases by auto
qed

declare put_loop.simps [simp del] get_loop.simps [simp del]

definition ring_buf_put :: "ring_buf \<Rightarrow> u8 list \<Rightarrow> u32 \<Rightarrow> u32 \<times> ring_buf" where
  "ring_buf_put buf data sz =
     (let (buf1, tot) = put_loop buf data sz 0
      in (tot, snd (ring_buf_put_finish buf1 tot)))"

definition ring_buf_get :: "ring_buf \<Rightarrow> u32 \<Rightarrow> u32 \<times> u8 list \<times> ring_buf" where
  "ring_buf_get buf sz =
     (let (buf1, tot, out) = get_loop buf sz 0 []
      in (tot, out, snd (ring_buf_get_finish buf1 tot)))"

definition ring_buf_peek :: "ring_buf \<Rightarrow> u32 \<Rightarrow> u32 \<times> u8 list \<times> ring_buf" where
  "ring_buf_peek buf sz =
     (let (buf1, tot, out) = get_loop buf sz 0 []
      in (tot, out, snd (ring_buf_get_finish buf1 0)))"

text \<open>Items: a 4-byte header (the bit-fields of \<open>struct ring_element\<close> as a little-endian target
  lays them out) followed by \<open>4 * length\<close> data bytes. Run-time assertions are disabled.\<close>

record ring_element =
  re_type :: "16 word"
  re_length :: u8
  re_value :: u8

definition header_bytes :: "ring_element \<Rightarrow> u8 list" where
  "header_bytes h = [ucast (re_type h), ucast (drop_bit 8 (re_type h)), re_length h, re_value h]"

definition bytes_header :: "u8 list \<Rightarrow> ring_element" where
  "bytes_header bs = \<lparr>re_type = ucast (bs ! 0) OR push_bit 8 (ucast (bs ! 1)),
                      re_length = bs ! 2, re_value = bs ! 3\<rparr>"

definition ring_buf_item_put ::
  "ring_buf \<Rightarrow> 16 word \<Rightarrow> u8 \<Rightarrow> u8 list \<Rightarrow> u8 \<Rightarrow> int \<times> ring_buf" where
  "ring_buf_item_put buf type val data size32 =
     (let space = ring_buf_space_get buf;
          sz = ucast size32 * 4 :: u32
      in if space < sz + 4 then (- EMSGSIZE, buf)
         else let (off, part, buf1) = ring_buf_put_claim buf 4;
                  header = \<lparr>re_type = type, re_length = size32, re_value = val\<rparr>;
                  buf2 = buf1\<lparr>rb_buffer := write_bytes (unat off) (header_bytes header) (rb_buffer buf1)\<rparr>;
                  (buf3, tot) = put_loop buf2 data sz 4
              in (0, snd (ring_buf_put_finish buf3 tot)))"

text \<open>The outputs of \<open>ring_buf_item_get\<close>: the error, \<open>*type\<close>, \<open>*value\<close> and the data (when written),
  and \<open>*size32\<close>. \<open>want\<close> says that \<open>data\<close> is not NULL; the loop runs the same claims either way.\<close>

datatype item_result =
  ItemNone
| ItemTooBig u8
| Item ring_element "u8 list"

fun item_errno :: "item_result \<Rightarrow> int" where
  "item_errno ItemNone = - EAGAIN"
| "item_errno (ItemTooBig n) = - EMSGSIZE"
| "item_errno (Item h d) = 0"

definition ring_buf_item_get :: "ring_buf \<Rightarrow> bool \<Rightarrow> u8 \<Rightarrow> item_result \<times> ring_buf" where
  "ring_buf_item_get buf want size32 =
     (if ring_buf_is_empty buf then (ItemNone, buf)
      else let (off, part, buf1) = ring_buf_get_claim buf 4;
               header = bytes_header (read_bytes (unat off) 4 (rb_buffer buf1))
           in if want \<and> size32 < re_length header
              then (ItemTooBig (re_length header), snd (ring_buf_get_finish buf1 0))
              else let (buf2, tot, out) = get_loop buf1 (ucast (re_length header) * 4) 4 []
                   in (Item header (if want then out else []), snd (ring_buf_get_finish buf2 tot)))"

section \<open>Counters as naturals\<close>

text \<open>\<open>w32 n\<close> is the 32-bit counter value \<open>n\<close>; kept opaque so that sums of counters are
  normalised as naturals.\<close>

definition w32 :: "nat \<Rightarrow> u32" where
  "w32 n = of_nat n"

named_theorems w32_simps

lemma w32_add [w32_simps]: "w32 a + w32 b = w32 (a + b)"
  by (simp add: w32_def)

lemma w32_assoc [w32_simps]: "b + w32 a + w32 c = b + w32 (a + c)"
  by (simp add: w32_def add.assoc)

lemma w32_diff: "c \<le> a \<Longrightarrow> w32 a - w32 c = w32 (a - c)"
  by (simp add: w32_def)

lemma w32_base_diff [w32_simps]: "b + w32 a - b = w32 a"
  by simp

lemma w32_offset_diff: "c \<le> a \<Longrightarrow> b + w32 a - (b + w32 c) = w32 (a - c)"
  by (simp add: w32_def)

lemma w32_le: "a < 2 ^ 32 \<Longrightarrow> b < 2 ^ 32 \<Longrightarrow> (w32 a \<le> w32 b) = (a \<le> b)"
  by (simp add: w32_def word_le_nat_alt unat_of_nat)

lemma w32_less: "a < 2 ^ 32 \<Longrightarrow> b < 2 ^ 32 \<Longrightarrow> (w32 a < w32 b) = (a < b)"
  by (simp add: w32_def word_less_nat_alt unat_of_nat)

lemma w32_min: "a < 2 ^ 32 \<Longrightarrow> b < 2 ^ 32 \<Longrightarrow> min (w32 a) (w32 b) = w32 (min a b)"
  by (simp add: min_def w32_le)

lemma w32_0: "w32 0 = 0"
  by (simp add: w32_def)

lemma unat_w32: "a < 2 ^ 32 \<Longrightarrow> unat (w32 a) = a"
  by (simp add: w32_def unat_of_nat)

lemma unat_w32_mod: "0 < s \<Longrightarrow> s \<le> 2 ^ 31 \<Longrightarrow> unat (w32 (m mod s)) = m mod s"
  by (intro unat_w32 less_le_trans [OF mod_less_divisor]) auto

lemma w32_eq_0: "a < 2 ^ 32 \<Longrightarrow> (w32 a = 0) = (a = 0)"
  by (metis unat_w32 unat_eq_0)

lemma unat_u32_less: "unat x < 2 ^ 32" for x :: u32
  using unsigned_less [of x] by simp

lemma w32_unat [simp]: "w32 (unat x) = x"
  by (simp add: w32_def)

lemma mod_two_laps: "0 < s \<Longrightarrow> k < 2 * s \<Longrightarrow> k mod s = (if s \<le> k then k - s else k)" for k s :: nat
  by (simp add: le_mod_geq)

section \<open>Consistent buffers\<close>

text \<open>\<open>rb_state buf s g u cg cp\<close>: the buffer has \<open>s\<close> bytes, the oldest byte is at index \<open>g\<close>, \<open>u\<close>
  bytes are committed, \<open>cg\<close> of them are claimed by the reader and \<open>cp\<close> further bytes are claimed
  by the writer.\<close>

definition rb_state :: "ring_buf \<Rightarrow> nat \<Rightarrow> nat \<Rightarrow> nat \<Rightarrow> nat \<Rightarrow> nat \<Rightarrow> bool" where
  "rb_state buf s g u cg cp \<longleftrightarrow>
     rb_size buf = w32 s \<and> 0 < s \<and> s \<le> 2 ^ 31 \<and> length (rb_buffer buf) = s \<and>
     g < s \<and> cg \<le> u \<and> u + cp \<le> s \<and>
     ri_tail (rb_get buf) = ri_base (rb_get buf) + w32 g \<and>
     ri_head (rb_get buf) = ri_base (rb_get buf) + w32 (g + cg) \<and>
     ri_tail (rb_put buf) = ri_base (rb_get buf) + w32 (g + u) \<and>
     ri_head (rb_put buf) = ri_base (rb_get buf) + w32 (g + u + cp) \<and>
     ri_base (rb_put buf) = ri_base (rb_get buf) + w32 (if s \<le> g + u then s else 0)"

definition ring_bytes :: "u8 list \<Rightarrow> nat \<Rightarrow> nat \<Rightarrow> nat \<Rightarrow> u8 list" where
  "ring_bytes b s g u = map (\<lambda>i. b ! ((g + i) mod s)) [0..<u]"

text \<open>The index arithmetic of \<open>ring_buf_area_claim\<close>: from a lap base, a claim of \<open>k\<close> bytes at
  distance \<open>d\<close> starts at index \<open>d mod s\<close> and ends at the end of the buffer at the latest.\<close>

lemma area_claim_spec:
  assumes "rb_size buf = w32 s" "0 < s" "s \<le> 2 ^ 31" "ri_head ring = ri_base ring + w32 d" "d < 2 * s" "k < 2 ^ 32"
  shows "ring_buf_area_claim buf ring (w32 k) =
         (w32 (d mod s), w32 (min k (s - d mod s)),
          ring\<lparr>ri_head := ri_head ring + w32 (min k (s - d mod s))\<rparr>)"
proof (cases "s \<le> d")
  case True
  then have "d mod s = d - s" "w32 s \<le> w32 d"
    using assms by (auto simp: mod_two_laps w32_le)
  with True assms show ?thesis
    by (simp add: ring_buf_area_claim_def Let_def w32_diff w32_min w32_offset_diff w32_base_diff)
next
  case False
  then have "d mod s = d" "\<not> w32 s \<le> w32 d"
    using assms by (auto simp: mod_two_laps w32_le)
  with False assms show ?thesis
    by (simp add: ring_buf_area_claim_def Let_def w32_diff w32_min w32_base_diff)
qed

lemma area_finish_spec:
  assumes "rb_size buf = w32 s" "s \<le> 2 ^ 31" "ri_head ring = ri_base ring + w32 (d + c)" "k \<le> c"
    "ri_tail ring = ri_base ring + w32 d" "d + c < 2 ^ 32"
  shows "ring_buf_area_finish buf ring (w32 k) =
     (0, ring\<lparr>ri_tail := ri_base ring + w32 (d + k), ri_head := ri_base ring + w32 (d + k),
              ri_base := (if s \<le> d + k then ri_base ring + w32 s else ri_base ring)\<rparr>)"
  using assms
  by (simp add: ring_buf_area_finish_def Let_def w32_offset_diff w32_diff w32_less w32_add w32_assoc w32_base_diff w32_le)

lemma area_finish_error:
  assumes "ri_head ring = ri_base ring + w32 (d + c)" "ri_tail ring = ri_base ring + w32 d" "c < k" "k < 2 ^ 32"
  shows "ring_buf_area_finish buf ring (w32 k) = (- EINVAL, ring)"
  using assms by (simp add: ring_buf_area_finish_def w32_offset_diff w32_diff w32_less)

lemma rb_state_space:
  "rb_state buf s g u cg cp \<Longrightarrow> ring_buf_space_get buf = w32 (s - u - cp)"
  by (simp add: rb_state_def ring_buf_space_get_def w32_offset_diff w32_diff)

lemma rb_state_size:
  "rb_state buf s g u cg cp \<Longrightarrow> ring_buf_size_get buf = w32 (u - cg)"
  by (simp add: rb_state_def ring_buf_size_get_def w32_offset_diff w32_diff)

lemma put_claim_spec:
  assumes st: "rb_state buf s g u cg cp" and k: "k < 2 ^ 32"
    and p: "p = min k (min (s - u - cp) (s - (g + u + cp) mod s))"
  shows "\<exists>buf'. ring_buf_put_claim buf (w32 k) = (w32 ((g + u + cp) mod s), w32 p, buf') \<and>
     rb_state buf' s g u cg (cp + p) \<and> rb_buffer buf' = rb_buffer buf \<and> rb_get buf' = rb_get buf"
proof -
  let ?o = "if s \<le> g + u then s else 0"
  have "ri_head (rb_put buf) = ri_base (rb_put buf) + w32 (g + u + cp - ?o)"
    using st by (simp add: rb_state_def w32_assoc)
  moreover have "(g + u + cp - ?o) mod s = (g + u + cp) mod s"
    by (simp add: le_mod_geq)
  moreover have "g + u + cp - ?o < 2 * s" using st by (auto simp: rb_state_def)
  moreover have "min (w32 k) (w32 (s - u - cp)) = w32 (min k (s - u - cp))"
    using st k by (intro w32_min) (auto simp: rb_state_def)
  moreover have "min (min k (s - u - cp)) (s - (g + u + cp) mod s) = p" unfolding p by (rule min.assoc)
  ultimately have claim: "ring_buf_area_claim buf (rb_put buf) (min (w32 k) (ring_buf_space_get buf)) =
     (w32 ((g + u + cp) mod s), w32 p, (rb_put buf)\<lparr>ri_head := ri_head (rb_put buf) + w32 p\<rparr>)"
    using area_claim_spec [of buf s "rb_put buf" "g + u + cp - ?o" "min k (s - u - cp)"] st k
    by (simp add: rb_state_space [OF st] rb_state_def min.strict_coboundedI1)
  have "rb_state (buf\<lparr>rb_put := (rb_put buf)\<lparr>ri_head := ri_head (rb_put buf) + w32 p\<rparr>\<rparr>) s g u cg (cp + p)"
    using st p by (auto simp: rb_state_def w32_assoc w32_add add.assoc)
  then show ?thesis using claim by (simp add: ring_buf_put_claim_def)
qed

lemma get_claim_spec:
  assumes st: "rb_state buf s g u cg cp" and k: "k < 2 ^ 32"
    and p: "p = min k (min (u - cg) (s - (g + cg) mod s))"
  shows "\<exists>buf'. ring_buf_get_claim buf (w32 k) = (w32 ((g + cg) mod s), w32 p, buf') \<and>
     rb_state buf' s g u (cg + p) cp \<and> rb_buffer buf' = rb_buffer buf \<and> rb_put buf' = rb_put buf"
proof -
  have "ri_head (rb_get buf) = ri_base (rb_get buf) + w32 (g + cg)"
    using st by (simp add: rb_state_def)
  moreover have "g + cg < 2 * s" using st by (auto simp: rb_state_def)
  moreover have "min (w32 k) (w32 (u - cg)) = w32 (min k (u - cg))"
    using st k by (intro w32_min) (auto simp: rb_state_def)
  moreover have "min (min k (u - cg)) (s - (g + cg) mod s) = p" unfolding p by (rule min.assoc)
  ultimately have claim: "ring_buf_area_claim buf (rb_get buf) (min (w32 k) (ring_buf_size_get buf)) =
     (w32 ((g + cg) mod s), w32 p, (rb_get buf)\<lparr>ri_head := ri_head (rb_get buf) + w32 p\<rparr>)"
    using area_claim_spec [of buf s "rb_get buf" "g + cg" "min k (u - cg)"] st k
    by (simp add: rb_state_size [OF st] rb_state_def min.strict_coboundedI1)
  have "rb_state (buf\<lparr>rb_get := (rb_get buf)\<lparr>ri_head := ri_head (rb_get buf) + w32 p\<rparr>\<rparr>) s g u (cg + p) cp"
    using st p by (auto simp: rb_state_def w32_assoc w32_add add.assoc)
  then show ?thesis using claim by (simp add: ring_buf_get_claim_def)
qed

section \<open>Copying\<close>

lemma length_ring_bytes [simp]: "length (ring_bytes b s g u) = u"
  by (simp add: ring_bytes_def)

lemma nth_ring_bytes: "i < u \<Longrightarrow> ring_bytes b s g u ! i = b ! ((g + i) mod s)"
  by (simp add: ring_bytes_def)

lemma take_ring_bytes: "v \<le> u \<Longrightarrow> take v (ring_bytes b s g u) = ring_bytes b s g v"
  by (simp add: ring_bytes_def take_map)

lemma mod_chunk: "j < s - a mod s \<Longrightarrow> (a + j) mod s = a mod s + j" for a s j :: nat
  by (metis less_diff_conv add.commute mod_add_left_eq mod_less)

lemma length_write_bytes [simp]:
  "off + length d \<le> length b \<Longrightarrow> length (write_bytes off d b) = length b"
  by (simp add: write_bytes_def)

lemma nth_write_bytes:
  "off + length d \<le> length b \<Longrightarrow> i < length b \<Longrightarrow>
   write_bytes off d b ! i = (if off \<le> i \<and> i < off + length d then d ! (i - off) else b ! i)"
  by (auto simp: write_bytes_def nth_append)

text \<open>Writing a claimed chunk behind \<open>m\<close> bytes of the ring extends them by the chunk.\<close>

lemma ring_bytes_write:
  assumes "length b = s" "0 < s" "length d \<le> s - (g + m) mod s" "m + length d \<le> s"
  shows "ring_bytes (write_bytes ((g + m) mod s) d b) s g (m + length d) = ring_bytes b s g m @ d"
proof (rule nth_equalityI)
  show "length (ring_bytes (write_bytes ((g + m) mod s) d b) s g (m + length d)) =
        length (ring_bytes b s g m @ d)" by simp
next
  fix i assume "i < length (ring_bytes (write_bytes ((g + m) mod s) d b) s g (m + length d))"
  then have i: "i < m + length d" by simp
  let ?off = "(g + m) mod s"
  have off: "?off + length d \<le> length b" using assms by (simp add: mod_less_divisor le_diff_conv2 less_imp_le add.commute)
  show "ring_bytes (write_bytes ?off d b) s g (m + length d) ! i = (ring_bytes b s g m @ d) ! i"
  proof (cases "i < m")
    case True
    have "\<not> (?off \<le> (g + i) mod s \<and> (g + i) mod s < ?off + length d)"
    proof
      assume "?off \<le> (g + i) mod s \<and> (g + i) mod s < ?off + length d"
      then obtain j where j: "(g + i) mod s = ?off + j" "j < length d"
        by (metis le_add_diff_inverse nat_add_left_cancel_less)
      then have "(g + i) mod s = (g + m + j) mod s" using assms mod_chunk [of j s "g + m"] by simp
      then have "s dvd (g + m + j) - (g + i)" by (metis mod_eq_dvd_iff_nat True add_le_mono less_imp_le le_add1 order_trans add_left_mono)
      moreover have "0 < (g + m + j) - (g + i)" "(g + m + j) - (g + i) < s" using True j assms by auto
      ultimately show False by (meson nat_dvd_not_less)
    qed
    then show ?thesis using True i assms off by (auto simp: nth_ring_bytes nth_append nth_write_bytes)
  next
    case False
    then obtain j where j: "i = m + j" by (metis le_add_diff_inverse not_less)
    then have "(g + (m + j)) mod s = ?off + j" using mod_chunk [of j s "g + m"] i assms by (simp add: add.assoc)
    then show ?thesis using j i assms off by (simp add: nth_ring_bytes nth_append nth_write_bytes)
  qed
qed

lemma ring_bytes_read:
  assumes "length b = s" "p \<le> s - (g + m) mod s" "m + p \<le> u" "0 < s"
  shows "read_bytes ((g + m) mod s) p b = take p (drop m (ring_bytes b s g u))"
proof (rule nth_equalityI)
  show "length (read_bytes ((g + m) mod s) p b) = length (take p (drop m (ring_bytes b s g u)))"
    using assms by (simp add: read_bytes_def)
next
  fix i assume "i < length (read_bytes ((g + m) mod s) p b)"
  then have "i < p" "i < s - (g + m) mod s" using assms by (auto simp: read_bytes_def)
  then show "read_bytes ((g + m) mod s) p b ! i = take p (drop m (ring_bytes b s g u)) ! i"
    using assms mod_chunk [of i s "g + m"] by (simp add: read_bytes_def nth_ring_bytes add.assoc)
qed

lemma rb_state_write:
  "rb_state buf s g u cg cp \<Longrightarrow> off + length d \<le> s \<Longrightarrow>
   rb_state (buf\<lparr>rb_buffer := write_bytes off d (rb_buffer buf)\<rparr>) s g u cg cp"
  by (simp add: rb_state_def)

lemma rb_state_bounds:
  assumes "rb_state buf s g u cg cp"
  shows "0 < s" "s \<le> 2 ^ 31" "length (rb_buffer buf) = s" "g < s" "cg \<le> u" "u + cp \<le> s"
  using assms by (auto simp: rb_state_def)

text \<open>The copy loops move as many bytes as there are, or as fit, and return the number moved.\<close>

lemma put_loop_spec:
  assumes "rb_state buf s g u cg cp" "k \<le> length data" "k < 2 ^ 32" "n = min k (s - u - cp)"
  shows "\<exists>buf'. put_loop buf data (w32 k) (w32 t) = (buf', w32 (t + n)) \<and>
     rb_state buf' s g u cg (cp + n) \<and> rb_get buf' = rb_get buf \<and>
     ring_bytes (rb_buffer buf') s g (u + cp + n) = ring_bytes (rb_buffer buf) s g (u + cp) @ take n data"
  using assms
proof (induction k arbitrary: buf data cp t n rule: less_induct)
  case (less k)
  note b = rb_state_bounds [OF less.prems(1)]
  define p where "p = min k (min (s - u - cp) (s - (g + u + cp) mod s))"
  obtain buf1 where c: "ring_buf_put_claim buf (w32 k) = (w32 ((g + u + cp) mod s), w32 p, buf1)"
    "rb_state buf1 s g u cg (cp + p)" "rb_buffer buf1 = rb_buffer buf" "rb_get buf1 = rb_get buf"
    using put_claim_spec [OF less.prems(1,3) p_def] by auto
  have room: "(g + u + cp) mod s < s" using b by simp
  have p: "p \<le> k" "p \<le> s - u - cp" "p \<le> s - (g + u + cp) mod s" "p < 2 ^ 32"
    using less.prems(3) by (auto simp: p_def)
  let ?off = "(g + u + cp) mod s"
  let ?buf2 = "buf1\<lparr>rb_buffer := write_bytes ?off (take p data) (rb_buffer buf1)\<rparr>"
  have unats: "unat (w32 p) = p" "unat (w32 ?off) = ?off"
    using p room b(2) by (auto intro!: unat_w32)
  show ?case
  proof (cases "p = 0")
    case True
    then have "n = 0" using room less.prems(4) unfolding p_def by linarith
    with True c show ?thesis by (subst put_loop.simps) (auto simp: w32_0)
  next
    case False
    have st2: "rb_state ?buf2 s g u cg (cp + p)"
      using c(2) p room less.prems(2) by (intro rb_state_write) auto
    have bytes: "ring_bytes (rb_buffer ?buf2) s g (u + cp + p) = ring_bytes (rb_buffer buf) s g (u + cp) @ take p data"
      using ring_bytes_write [of "rb_buffer buf" s "take p data" g "u + cp"] b p c(3) less.prems(2)
      by (simp add: add.assoc)
    have step: "put_loop buf data (w32 k) (w32 t) =
       (if k - p = 0 then (?buf2, w32 (t + p)) else put_loop ?buf2 (drop p data) (w32 (k - p)) (w32 (t + p)))"
      using c(1) False p less.prems(3)
      by (subst put_loop.simps) (simp add: unats w32_eq_0 w32_diff w32_add Let_def)
    show ?thesis
    proof (cases "k - p = 0")
      case True
      then have "n = p" using p less.prems(4) by auto
      then show ?thesis using step True st2 bytes c(4) by auto
    next
      case more: False
      obtain buf' where r: "put_loop ?buf2 (drop p data) (w32 (k - p)) (w32 (t + p)) = (buf', w32 (t + p + min (k - p) (s - u - (cp + p))))"
        "rb_state buf' s g u cg (cp + p + min (k - p) (s - u - (cp + p)))" "rb_get buf' = rb_get buf"
        "ring_bytes (rb_buffer buf') s g (u + (cp + p) + min (k - p) (s - u - (cp + p))) =
         ring_bytes (rb_buffer ?buf2) s g (u + (cp + p)) @ take (min (k - p) (s - u - (cp + p))) (drop p data)"
        using less.IH [OF _ st2 _ _ refl, of "k - p" "drop p data" "t + p"] False p less.prems(2,3) c(4)
        by (force simp: less_imp_diff_less)
      have n: "n = p + min (k - p) (s - u - (cp + p))" using p less.prems(4) by auto
      show ?thesis using step more r bytes n by (auto simp: take_add add.assoc)
    qed
  qed
qed

lemma get_loop_spec:
  assumes "rb_state buf s g u cg cp" "k < 2 ^ 32" "n = min k (u - cg)"
  shows "\<exists>buf'. get_loop buf (w32 k) (w32 t) acc =
       (buf', w32 (t + n), acc @ take n (drop cg (ring_bytes (rb_buffer buf) s g u))) \<and>
     rb_state buf' s g u (cg + n) cp \<and> rb_put buf' = rb_put buf \<and> rb_buffer buf' = rb_buffer buf"
  using assms
proof (induction k arbitrary: buf cg t n acc rule: less_induct)
  case (less k)
  note b = rb_state_bounds [OF less.prems(1)]
  define p where "p = min k (min (u - cg) (s - (g + cg) mod s))"
  obtain buf1 where c: "ring_buf_get_claim buf (w32 k) = (w32 ((g + cg) mod s), w32 p, buf1)"
    "rb_state buf1 s g u (cg + p) cp" "rb_buffer buf1 = rb_buffer buf" "rb_put buf1 = rb_put buf"
    using get_claim_spec [OF less.prems(1,2) p_def] by auto
  have room: "(g + cg) mod s < s" using b by simp
  have p: "p \<le> k" "p \<le> u - cg" "p \<le> s - (g + cg) mod s" "p < 2 ^ 32"
    using less.prems(2) by (auto simp: p_def)
  let ?all = "ring_bytes (rb_buffer buf) s g u"
  have unats: "unat (w32 p) = p" "unat (w32 ((g + cg) mod s)) = (g + cg) mod s"
    using p room b(2) by (auto intro!: unat_w32)
  show ?case
  proof (cases "p = 0")
    case True
    then have "n = 0" using room less.prems(3) unfolding p_def by linarith
    with True c show ?thesis by (subst get_loop.simps) (auto simp: w32_0)
  next
    case False
    have chunk: "read_bytes ((g + cg) mod s) p (rb_buffer buf) = take p (drop cg ?all)"
      using b p by (intro ring_bytes_read) auto
    have step: "get_loop buf (w32 k) (w32 t) acc =
       (if k - p = 0 then (buf1, w32 (t + p), acc @ take p (drop cg ?all))
        else get_loop buf1 (w32 (k - p)) (w32 (t + p)) (acc @ take p (drop cg ?all)))"
      using c(1,3) False p less.prems(2)
      by (subst get_loop.simps) (simp add: unats w32_eq_0 w32_diff w32_add Let_def chunk)
    show ?thesis
    proof (cases "k - p = 0")
      case True
      then have "n = p" using p less.prems(3) by auto
      then show ?thesis using step True c by auto
    next
      case more: False
      let ?m = "min (k - p) (u - (cg + p))"
      obtain buf' where r: "get_loop buf1 (w32 (k - p)) (w32 (t + p)) (acc @ take p (drop cg ?all)) =
          (buf', w32 (t + p + ?m), (acc @ take p (drop cg ?all)) @ take ?m (drop (cg + p) ?all))"
        "rb_state buf' s g u (cg + p + ?m) cp" "rb_put buf' = rb_put buf" "rb_buffer buf' = rb_buffer buf"
        using less.IH [OF _ c(2) _ refl, of "k - p" "t + p" "acc @ take p (drop cg ?all)"] False p less.prems(2) c(3,4)
        by (force simp: less_imp_diff_less)
      have n: "n = p + ?m" using p less.prems(3) by auto
      show ?thesis using step more r n by (auto simp: take_add drop_drop add.assoc add.commute add.left_commute)
    qed
  qed
qed

section \<open>The buffer as a byte sequence\<close>

text \<open>\<open>ring_buf_ok\<close>: the buffer is consistent and no claim is outstanding; \<open>ring_buf_contents\<close>: the
  bytes it holds, oldest first. Both compute.\<close>

definition rb_get_index :: "ring_buf \<Rightarrow> nat" where
  "rb_get_index buf = unat (ri_tail (rb_get buf) - ri_base (rb_get buf))"

definition rb_used :: "ring_buf \<Rightarrow> nat" where
  "rb_used buf = unat (ri_tail (rb_put buf) - ri_tail (rb_get buf))"

definition ring_buf_ok :: "ring_buf \<Rightarrow> bool" where
  "ring_buf_ok buf \<longleftrightarrow> rb_state buf (length (rb_buffer buf)) (rb_get_index buf) (rb_used buf) 0 0"

definition ring_buf_contents :: "ring_buf \<Rightarrow> u8 list" where
  "ring_buf_contents buf = ring_bytes (rb_buffer buf) (length (rb_buffer buf)) (rb_get_index buf) (rb_used buf)"

lemma rb_state_index:
  assumes "rb_state buf s g u cg cp"
  shows "rb_get_index buf = g" "rb_used buf = u" "length (rb_buffer buf) = s"
  using assms rb_state_bounds [OF assms]
  by (auto simp: rb_state_def rb_get_index_def rb_used_def w32_diff unat_w32)

lemma rb_state_ok:
  assumes "rb_state buf s g u 0 0"
  shows "ring_buf_ok buf" "ring_buf_contents buf = ring_bytes (rb_buffer buf) s g u"
  using assms by (simp_all add: ring_buf_ok_def ring_buf_contents_def rb_state_index [OF assms])

lemma ring_buf_okE:
  assumes "ring_buf_ok buf"
  obtains s g u where "rb_state buf s g u 0 0" "ring_buf_contents buf = ring_bytes (rb_buffer buf) s g u"
    "length (ring_buf_contents buf) = u" "s = length (rb_buffer buf)"
  using assms by (simp add: ring_buf_ok_def ring_buf_contents_def)

lemma init_ok:
  assumes "0 < length data" "length data \<le> 2 ^ 31"
  shows "ring_buf_ok (ring_buf_init buf (of_nat (length data)) data)"
    "ring_buf_contents (ring_buf_init buf (of_nat (length data)) data) = []"
proof -
  have "rb_state (ring_buf_init buf (of_nat (length data)) data) (length data) 0 0 0 0"
    using assms by (simp add: rb_state_def ring_buf_init_def ring_buf_internal_reset_def w32_def)
  from rb_state_ok [OF this] show "ring_buf_ok (ring_buf_init buf (of_nat (length data)) data)"
    "ring_buf_contents (ring_buf_init buf (of_nat (length data)) data) = []"
    by (simp_all add: ring_bytes_def)
qed

lemma reset_ok:
  "ring_buf_ok buf \<Longrightarrow> ring_buf_ok (ring_buf_reset buf) \<and> ring_buf_contents (ring_buf_reset buf) = []"
proof -
  assume "ring_buf_ok buf"
  then have "rb_state (ring_buf_reset buf) (length (rb_buffer buf)) 0 0 0 0"
    by (simp add: ring_buf_ok_def rb_state_def ring_buf_reset_def ring_buf_internal_reset_def w32_0)
  from rb_state_ok [OF this] show ?thesis by (simp add: ring_bytes_def)
qed

text \<open>Committing \<open>k\<close> of the bytes a side has claimed.\<close>

lemma put_finish_spec:
  assumes st: "rb_state buf s g u cg cp" and k: "k \<le> cp"
  shows "\<exists>buf'. ring_buf_put_finish buf (w32 k) = (0, buf') \<and> rb_state buf' s g (u + k) cg 0 \<and>
     rb_buffer buf' = rb_buffer buf"
proof -
  note b = rb_state_bounds [OF st]
  let ?o = "if s \<le> g + u then s else 0"
  have h: "ri_head (rb_put buf) = ri_base (rb_put buf) + w32 (g + u - ?o + cp)"
    "ri_tail (rb_put buf) = ri_base (rb_put buf) + w32 (g + u - ?o)"
    using st by (auto simp: rb_state_def w32_assoc)
  have "g + u - ?o + cp < 2 ^ 32" using b by auto
  with h st b k have "ring_buf_area_finish buf (rb_put buf) (w32 k) =
     (0, (rb_put buf)\<lparr>ri_tail := ri_base (rb_put buf) + w32 (g + u - ?o + k),
         ri_head := ri_base (rb_put buf) + w32 (g + u - ?o + k),
         ri_base := (if s \<le> g + u - ?o + k then ri_base (rb_put buf) + w32 s else ri_base (rb_put buf))\<rparr>)"
    by (intro area_finish_spec) (auto simp: rb_state_def)
  then show ?thesis using st b k
    by (auto simp: ring_buf_put_finish_def rb_state_def w32_assoc w32_add w32_0 add.assoc)
qed

lemma get_finish_spec:
  assumes st: "rb_state buf s g u cg cp" and k: "k \<le> cg"
  shows "\<exists>buf'. ring_buf_get_finish buf (w32 k) = (0, buf') \<and>
     rb_state buf' s (if s \<le> g + k then g + k - s else g + k) (u - k) 0 cp \<and> rb_buffer buf' = rb_buffer buf"
proof -
  note b = rb_state_bounds [OF st]
  have eqs: "w32 x = w32 s + w32 (x - s)" if "s \<le> x" for x using that by (simp add: w32_add)
  have "ring_buf_area_finish buf (rb_get buf) (w32 k) =
     (0, (rb_get buf)\<lparr>ri_tail := ri_base (rb_get buf) + w32 (g + k),
         ri_head := ri_base (rb_get buf) + w32 (g + k),
         ri_base := (if s \<le> g + k then ri_base (rb_get buf) + w32 s else ri_base (rb_get buf))\<rparr>)"
    using st b k by (intro area_finish_spec) (auto simp: rb_state_def)
  then show ?thesis using st b k
    by (auto simp: ring_buf_get_finish_def rb_state_def w32_assoc w32_add w32_0 add.assoc)
qed

lemma ring_bytes_shift:
  "k \<le> u \<Longrightarrow> g < s \<Longrightarrow> k \<le> s \<Longrightarrow>
   ring_bytes b s (if s \<le> g + k then g + k - s else g + k) (u - k) = drop k (ring_bytes b s g u)"
  by (intro nth_equalityI) (auto simp: nth_ring_bytes add.assoc le_mod_geq mod_if [of "g + (k + _)"])

text \<open>The whole operations on a consistent buffer.\<close>

lemma put_spec:
  assumes ok: "ring_buf_ok buf" and data: "unat sz \<le> length data"
    and n: "n = min (unat sz) (length (rb_buffer buf) - length (ring_buf_contents buf))"
  shows "\<exists>buf'. ring_buf_put buf data sz = (of_nat n, buf') \<and> ring_buf_ok buf' \<and>
     ring_buf_contents buf' = ring_buf_contents buf @ take n data \<and>
     length (rb_buffer buf') = length (rb_buffer buf)"
proof -
  from ok obtain s g u where st: "rb_state buf s g u 0 0"
    "ring_buf_contents buf = ring_bytes (rb_buffer buf) s g u" "s = length (rb_buffer buf)"
    by (rule ring_buf_okE) auto
  obtain buf1 where l: "put_loop buf data (w32 (unat sz)) (w32 0) = (buf1, w32 n)"
    "rb_state buf1 s g u 0 n" "ring_bytes (rb_buffer buf1) s g (u + n) = ring_bytes (rb_buffer buf) s g u @ take n data"
    using put_loop_spec [OF st(1) data, of n 0] n st unat_u32_less [of sz] by auto
  obtain buf2 where f: "ring_buf_put_finish buf1 (w32 n) = (0, buf2)" "rb_state buf2 s g (u + n) 0 0"
    "rb_buffer buf2 = rb_buffer buf1" using put_finish_spec [OF l(2) order.refl] by auto
  have "ring_buf_put buf data sz = (of_nat n, buf2)"
    using l(1) f(1) by (simp add: ring_buf_put_def w32_0) (simp add: w32_def)
  then show ?thesis using rb_state_ok [OF f(2)] l(3) f(3) st rb_state_index(3) [OF f(2)] by simp
qed

lemma get_spec:
  assumes ok: "ring_buf_ok buf" and n: "n = min (unat sz) (length (ring_buf_contents buf))"
  shows "\<exists>buf'. ring_buf_get buf sz = (of_nat n, take n (ring_buf_contents buf), buf') \<and> ring_buf_ok buf' \<and>
     ring_buf_contents buf' = drop n (ring_buf_contents buf) \<and>
     length (rb_buffer buf') = length (rb_buffer buf)"
proof -
  from ok obtain s g u where st: "rb_state buf s g u 0 0"
    "ring_buf_contents buf = ring_bytes (rb_buffer buf) s g u" "s = length (rb_buffer buf)"
    by (rule ring_buf_okE) auto
  note b = rb_state_bounds [OF st(1)]
  obtain buf1 where l: "get_loop buf (w32 (unat sz)) (w32 0) [] = (buf1, w32 n, take n (ring_buf_contents buf))"
    "rb_state buf1 s g u n 0" "rb_buffer buf1 = rb_buffer buf"
    using get_loop_spec [OF st(1), of "unat sz" n 0 "[]"] n st unat_u32_less [of sz] by auto
  obtain buf2 where f: "ring_buf_get_finish buf1 (w32 n) = (0, buf2)"
    "rb_state buf2 s (if s \<le> g + n then g + n - s else g + n) (u - n) 0 0"
    "rb_buffer buf2 = rb_buffer buf1" using get_finish_spec [OF l(2) order.refl] by auto
  have "ring_buf_get buf sz = (of_nat n, take n (ring_buf_contents buf), buf2)"
    using l(1) f(1) by (simp add: ring_buf_get_def w32_0) (simp add: w32_def)
  moreover have "ring_buf_contents buf2 = drop n (ring_buf_contents buf)"
    using rb_state_ok(2) [OF f(2)] f(3) l(3) st(2) ring_bytes_shift [of n u g s "rb_buffer buf"] n b(4,6) by simp
  ultimately show ?thesis using rb_state_ok(1) [OF f(2)] rb_state_index(3) [OF f(2)] st by simp
qed

lemma peek_spec:
  assumes ok: "ring_buf_ok buf" and n: "n = min (unat sz) (length (ring_buf_contents buf))"
  shows "\<exists>buf'. ring_buf_peek buf sz = (of_nat n, take n (ring_buf_contents buf), buf') \<and> ring_buf_ok buf' \<and>
     ring_buf_contents buf' = ring_buf_contents buf \<and> length (rb_buffer buf') = length (rb_buffer buf)"
proof -
  from ok obtain s g u where st: "rb_state buf s g u 0 0"
    "ring_buf_contents buf = ring_bytes (rb_buffer buf) s g u" "s = length (rb_buffer buf)"
    by (rule ring_buf_okE) auto
  note b = rb_state_bounds [OF st(1)]
  obtain buf1 where l: "get_loop buf (w32 (unat sz)) (w32 0) [] = (buf1, w32 n, take n (ring_buf_contents buf))"
    "rb_state buf1 s g u n 0" "rb_buffer buf1 = rb_buffer buf"
    using get_loop_spec [OF st(1), of "unat sz" n 0 "[]"] n st unat_u32_less [of sz] by auto
  obtain buf2 where f: "ring_buf_get_finish buf1 (w32 0) = (0, buf2)"
    "rb_state buf2 s g u 0 0" "rb_buffer buf2 = rb_buffer buf1"
    using get_finish_spec [OF l(2), of 0] b by auto
  have "ring_buf_peek buf sz = (of_nat n, take n (ring_buf_contents buf), buf2)"
    using l(1) f(1) by (simp add: ring_buf_peek_def w32_0) (simp add: w32_def)
  then show ?thesis using rb_state_ok [OF f(2)] f(3) l(3) rb_state_index(3) [OF f(2)] st by simp
qed

lemma size_get_spec: "ring_buf_ok buf \<Longrightarrow> unat (ring_buf_size_get buf) = length (ring_buf_contents buf)"
  by (erule ring_buf_okE) (frule rb_state_bounds(1), frule rb_state_bounds(2), frule rb_state_bounds(6),
      simp add: rb_state_size unat_w32)

lemma space_get_spec:
  "ring_buf_ok buf \<Longrightarrow> unat (ring_buf_space_get buf) = length (rb_buffer buf) - length (ring_buf_contents buf)"
  by (erule ring_buf_okE) (frule rb_state_bounds(1), frule rb_state_bounds(2), frule rb_state_bounds(6),
      simp add: rb_state_space unat_w32)

lemma is_empty_spec: "ring_buf_ok buf \<Longrightarrow> ring_buf_is_empty buf \<longleftrightarrow> ring_buf_contents buf = []"
  using size_get_spec [of buf] by (auto simp: ring_buf_size_get_def ring_buf_is_empty_def unat_eq_0)

section \<open>Byte channels\<close>

text \<open>The contract a user of a bounded byte channel relies on: \<open>cput\<close> appends the longest prefix
  that fits, \<open>cget\<close> takes the longest prefix that is there. Its client theorem speaks of a whole
  run: what was received, followed by what is left, is what was there followed by what was sent.\<close>

datatype 'b chan_op = ChanPut "'b list" | ChanGet nat

fun chan_run :: "('s \<Rightarrow> 'b list \<Rightarrow> nat \<times> 's) \<Rightarrow> ('s \<Rightarrow> nat \<Rightarrow> 'b list \<times> 's) \<Rightarrow> 's \<Rightarrow> 'b chan_op list \<Rightarrow>
    'b list \<times> 'b list \<times> 's" where
  "chan_run cput cget s [] = ([], [], s)"
| "chan_run cput cget s (ChanPut d # ops) =
     (let (n, s') = cput s d; (snt, rcv, s'') = chan_run cput cget s' ops in (take n d @ snt, rcv, s''))"
| "chan_run cput cget s (ChanGet k # ops) =
     (let (out, s') = cget s k; (snt, rcv, s'') = chan_run cput cget s' ops in (snt, out @ rcv, s''))"

fun op_fits :: "nat \<Rightarrow> 'b chan_op \<Rightarrow> bool" where
  "op_fits m (ChanPut d) = (length d < m)"
| "op_fits m (ChanGet k) = (k < m)"

locale byte_channel =
  fixes ok :: "'s \<Rightarrow> bool" and contents :: "'s \<Rightarrow> 'b list" and capacity :: "'s \<Rightarrow> nat" and limit :: nat
    and cput :: "'s \<Rightarrow> 'b list \<Rightarrow> nat \<times> 's" and cget :: "'s \<Rightarrow> nat \<Rightarrow> 'b list \<times> 's"
  assumes put_law: "ok s \<Longrightarrow> length d < limit \<Longrightarrow> n = min (length d) (capacity s - length (contents s)) \<Longrightarrow>
      \<exists>s'. cput s d = (n, s') \<and> ok s' \<and> contents s' = contents s @ take n d \<and> capacity s' = capacity s"
    and get_law: "ok s \<Longrightarrow> k < limit \<Longrightarrow> n = min k (length (contents s)) \<Longrightarrow>
      \<exists>s'. cget s k = (take n (contents s), s') \<and> ok s' \<and> contents s' = drop n (contents s) \<and> capacity s' = capacity s"
begin

lemma run_history:
  "ok s \<Longrightarrow> list_all (op_fits limit) ops \<Longrightarrow> chan_run cput cget s ops = (snt, rcv, s') \<Longrightarrow>
   ok s' \<and> capacity s' = capacity s \<and> contents s @ snt = rcv @ contents s'"
proof (induction ops arbitrary: s snt rcv)
  case Nil
  then show ?case by simp
next
  case (Cons op ops)
  show ?case
  proof (cases op)
    case (ChanPut d)
    obtain n s1 where p: "cput s d = (n, s1)" "ok s1" "contents s1 = contents s @ take n d" "capacity s1 = capacity s"
      using put_law [OF Cons.prems(1) _ refl, of d] Cons.prems(2) ChanPut by auto
    with Cons ChanPut show ?thesis by (fastforce split: prod.splits)
  next
    case (ChanGet k)
    obtain n s1 where p: "cget s k = (take n (contents s), s1)" "ok s1" "contents s1 = drop n (contents s)"
        "capacity s1 = capacity s"
      using get_law [OF Cons.prems(1) _ refl, of k] Cons.prems(2) ChanGet by auto
    obtain snt1 rcv1 where r: "chan_run cput cget s1 ops = (snt, rcv1, s')" "rcv = take n (contents s) @ rcv1"
      using Cons.prems(3) ChanGet p(1) by (auto split: prod.splits)
    have "contents s1 @ snt = rcv1 @ contents s'" "ok s'" "capacity s' = capacity s"
      using Cons.IH [OF p(2) _ r(1)] Cons.prems(2) p(4) by auto
    then show ?thesis using p(3) r(2) by (metis append.assoc append_take_drop_id)
  qed
qed

end

definition rb_write :: "ring_buf \<Rightarrow> u8 list \<Rightarrow> nat \<times> ring_buf" where
  "rb_write buf data = (let (n, buf') = ring_buf_put buf data (of_nat (length data)) in (unat n, buf'))"

definition rb_read :: "ring_buf \<Rightarrow> nat \<Rightarrow> u8 list \<times> ring_buf" where
  "rb_read buf k = (let (n, out, buf') = ring_buf_get buf (of_nat k) in (out, buf'))"

interpretation ring_channel: byte_channel ring_buf_ok ring_buf_contents "length \<circ> rb_buffer" "2 ^ 32" rb_write rb_read
proof (unfold_locales, goal_cases)
  case (1 s d n)
  have u: "unat (of_nat (length d) :: u32) = length d" using 1(2) by (simp add: unat_of_nat)
  have "n < 2 ^ 32" using 1 by simp
  with 1 u put_spec [of s "of_nat (length d)" d n] show ?case
    by (auto simp: rb_write_def unat_of_nat)
next
  case (2 s k n)
  have u: "unat (of_nat k :: u32) = k" using 2(2) by (simp add: unat_of_nat)
  with 2 get_spec [of s n "of_nat k"] show ?case by (auto simp: rb_read_def)
qed

end
