(* ===== verification/Ring_Buffer_Items.thy ===== *)
theory Ring_Buffer_Items
  imports Ring_Buffer
begin

text \<open>
  The item mode of the ring buffer (\<open>ring_buf_item_put\<close>, \<open>ring_buf_item_get\<close>) as a queue of
  typed items, and the properties of the ring buffer as a whole.
\<close>

section \<open>Items\<close>

type_synonym item = "ring_element \<times> u8 list"

fun enc_item :: "item \<Rightarrow> u8 list" where
  "enc_item (h, d) = header_bytes h @ d"

fun item_valid :: "item \<Rightarrow> bool" where
  "item_valid (h, d) = (length d = 4 * unat (re_length h))"

definition items_ok :: "ring_buf \<Rightarrow> item list \<Rightarrow> bool" where
  "items_ok buf items \<longleftrightarrow> ring_buf_ok buf \<and> 4 dvd length (rb_buffer buf) \<and> 4 dvd rb_get_index buf \<and>
     ring_buf_contents buf = concat (map enc_item items) \<and> list_all item_valid items"

lemma length_header_bytes [simp]: "length (header_bytes h) = 4"
  by (simp add: header_bytes_def)

lemma header_round_trip: "bytes_header (header_bytes h @ xs) = h"
proof -
  have "ucast (ucast t :: u8) OR push_bit 8 (ucast (ucast (drop_bit 8 t) :: u8)) = t" for t :: "16 word"
    by (rule bit_word_eqI) (auto simp: bit_simps)
  then show ?thesis by (simp add: bytes_header_def header_bytes_def)
qed

lemma enc_items_length: "list_all item_valid items \<Longrightarrow> 4 dvd length (concat (map enc_item items))"
  by (induction items) auto

lemma items_okE:
  assumes "items_ok buf items"
  obtains s g u where "rb_state buf s g u 0 0" "concat (map enc_item items) = ring_bytes (rb_buffer buf) s g u"
    "length (concat (map enc_item items)) = u" "s = length (rb_buffer buf)"
    "4 dvd s" "4 dvd g" "4 dvd u" "list_all item_valid items"
proof -
  from assms have ok: "ring_buf_ok buf" "list_all item_valid items" "4 dvd length (rb_buffer buf)"
    "4 dvd rb_get_index buf" "ring_buf_contents buf = concat (map enc_item items)" by (auto simp: items_ok_def)
  with enc_items_length [OF ok(2)] ok(1) show thesis
    by (elim ring_buf_okE) (metis that rb_state_index(1))
qed

lemma items_okI:
  assumes "rb_state buf s g u 0 0" "4 dvd s" "4 dvd g" "list_all item_valid items"
    "ring_bytes (rb_buffer buf) s g u = concat (map enc_item items)"
  shows "items_ok buf items"
  using assms(2-) rb_state_ok [OF assms(1)] rb_state_index [OF assms(1)] by (simp add: items_ok_def)

lemma aligned_room: "4 dvd s \<Longrightarrow> 4 dvd m \<Longrightarrow> 0 < s \<Longrightarrow> 4 \<le> s - m mod s" for s m :: nat
  by (metis dvd_diff_nat dvd_mod dvd_imp_le mod_less_divisor zero_less_diff)

lemma unat_u8_less: "unat x < 256" for x :: u8
  using unsigned_less [of x] by simp

lemma unat_item_size: "unat (ucast size32 * 4 :: u32) = 4 * unat size32" for size32 :: u8
proof -
  have "unat size32 < 256" by (rule unat_u8_less)
  then show ?thesis by (simp add: unat_word_ariths unsigned_ucast_eq take_bit_eq_mod)
qed

lemma item_size_w32: "ucast size32 * 4 = w32 (4 * unat size32)" for size32 :: u8
  by (metis unat_item_size w32_unat)

text \<open>In aligned buffers the header claim always yields four contiguous bytes.\<close>

lemma item_put_spec:
  assumes it: "items_ok buf items" and data: "4 * unat size32 \<le> length data"
    and fit: "length (ring_buf_contents buf) + 4 + 4 * unat size32 \<le> length (rb_buffer buf)"
  shows "\<exists>buf'. ring_buf_item_put buf type val data size32 = (0, buf') \<and>
     items_ok buf' (items @ [(\<lparr>re_type = type, re_length = size32, re_value = val\<rparr>, take (4 * unat size32) data)]) \<and>
     length (rb_buffer buf') = length (rb_buffer buf)"
proof -
  let ?h = "\<lparr>re_type = type, re_length = size32, re_value = val\<rparr>" and ?k = "4 * unat size32"
  obtain s g u where st: "rb_state buf s g u 0 0" and
    c: "concat (map enc_item items) = ring_bytes (rb_buffer buf) s g u" "length (concat (map enc_item items)) = u"
    and al: "4 dvd s" "4 dvd g" "4 dvd u" "list_all item_valid items" and s: "s = length (rb_buffer buf)"
    using it by (rule items_okE)
  note b = rb_state_bounds [OF st]
  have room: "u + 4 + ?k \<le> s" using fit it s c(2) by (simp add: items_ok_def)
  have off: "4 \<le> s - (g + u) mod s" using al b by (intro aligned_room) auto
  obtain buf1 where cl: "ring_buf_put_claim buf 4 = (w32 ((g + u) mod s), w32 4, buf1)"
    "rb_state buf1 s g u 0 4" "rb_buffer buf1 = rb_buffer buf"
    using put_claim_spec [OF st _ refl, of 4] off room by (auto simp: w32_def)
  have uo: "unat (w32 ((g + u) mod s)) = (g + u) mod s"
    using b(1,2) by (rule unat_w32_mod)
  let ?buf2 = "buf1\<lparr>rb_buffer := write_bytes ((g + u) mod s) (header_bytes ?h) (rb_buffer buf1)\<rparr>"
  have st2: "rb_state ?buf2 s g u 0 4" using off b(1) by (intro rb_state_write [OF cl(2)]) simp
  have by2: "ring_bytes (rb_buffer ?buf2) s g (u + 4) = ring_bytes (rb_buffer buf) s g u @ header_bytes ?h"
    using ring_bytes_write [of "rb_buffer buf" s "header_bytes ?h" g u] b(1,3) off room cl(3) by simp
  obtain buf3 where lp: "put_loop ?buf2 data (w32 ?k) (w32 4) = (buf3, w32 (4 + ?k))" "rb_state buf3 s g u 0 (4 + ?k)"
    "ring_bytes (rb_buffer buf3) s g (u + 4 + ?k) = ring_bytes (rb_buffer ?buf2) s g (u + 4) @ take ?k data"
    using put_loop_spec [OF st2 data _ refl, of 4] room b(2) by auto
  obtain buf4 where fn: "ring_buf_put_finish buf3 (w32 (4 + ?k)) = (0, buf4)" "rb_state buf4 s g (u + (4 + ?k)) 0 0"
    "rb_buffer buf4 = rb_buffer buf3" using put_finish_spec [OF lp(2) order.refl] by auto
  have sz: "(4 :: u32) = w32 4" by (simp add: w32_def)
  have "\<not> ring_buf_space_get buf < w32 ?k + w32 4"
    using rb_state_space [OF st] room b(2) by (simp add: w32_add w32_less)
  then have "ring_buf_item_put buf type val data size32 = (0, buf4)"
    using cl(1) lp(1) fn(1) uo
    by (simp add: ring_buf_item_put_def item_size_w32 Let_def sz [symmetric])
  moreover have "items_ok buf4 (items @ [(?h, take ?k data)])"
    using fn(2) al lp(3) fn(3) by2 c(1) data by (intro items_okI [OF fn(2)]) (auto simp: add.assoc)
  ultimately show ?thesis using rb_state_index(3) [OF fn(2)] s by blast
qed

lemma item_put_full:
  assumes it: "items_ok buf items"
    and fit: "\<not> length (ring_buf_contents buf) + 4 + 4 * unat size32 \<le> length (rb_buffer buf)"
  shows "ring_buf_item_put buf type val data size32 = (- EMSGSIZE, buf)"
proof -
  have sp: "unat (ring_buf_space_get buf) < 4 * unat size32 + 4"
    using it fit space_get_spec [of buf] by (auto simp: items_ok_def)
  have "4 * unat size32 + 4 < 2 ^ 32" using unat_u8_less [of size32] by simp
  then have "unat (ucast size32 * 4 + 4 :: u32) = 4 * unat size32 + 4"
    by (simp add: unat_word_ariths(1) unat_item_size)
  with sp have "ring_buf_space_get buf < ucast size32 * 4 + 4"
    by (simp add: word_less_nat_alt)
  then show ?thesis by (simp add: ring_buf_item_put_def)
qed

lemma item_get_spec:
  assumes it: "items_ok buf ((h, d) # items)"
  shows "\<exists>buf'. ring_buf_item_get buf want size32 =
       (if want \<and> size32 < re_length h then ItemTooBig (re_length h) else Item h (if want then d else []), buf') \<and>
     items_ok buf' (if want \<and> size32 < re_length h then (h, d) # items else items) \<and>
     length (rb_buffer buf') = length (rb_buffer buf)"
proof -
  let ?k = "4 * unat (re_length h)"
  obtain s g u where st: "rb_state buf s g u 0 0" and
    c: "concat (map enc_item ((h, d) # items)) = ring_bytes (rb_buffer buf) s g u"
      "length (concat (map enc_item ((h, d) # items))) = u"
    and al: "4 dvd s" "4 dvd g" "4 dvd u" "list_all item_valid ((h, d) # items)" and s: "s = length (rb_buffer buf)"
    using it by (rule items_okE)
  note b = rb_state_bounds [OF st]
  have u: "4 + ?k \<le> u" "length d = ?k" using c(2) al(4) by auto
  have off: "4 \<le> s - g mod s" using al b by (intro aligned_room) auto
  obtain buf1 where cl: "ring_buf_get_claim buf 4 = (w32 (g mod s), w32 4, buf1)"
    "rb_state buf1 s g u 4 0" "rb_buffer buf1 = rb_buffer buf"
    using get_claim_spec [OF st _ refl, of 4] off u by (auto simp: w32_def)
  have hd: "bytes_header (read_bytes (unat (w32 (g mod s))) 4 (rb_buffer buf1)) = h"
    using ring_bytes_read [of "rb_buffer buf" s 4 g 0 u] b(1,2,3) off u cl(3) header_round_trip [of h "[]"]
    by (simp add: unat_w32_mod c(1) [symmetric])
  have ne: "\<not> ring_buf_is_empty buf"
    using is_empty_spec [of buf] it by (auto simp: items_ok_def header_bytes_def)
  show ?thesis
  proof (cases "want \<and> size32 < re_length h")
    case True
    obtain buf2 where fn: "ring_buf_get_finish buf1 (w32 0) = (0, buf2)" "rb_state buf2 s g u 0 0"
      "rb_buffer buf2 = rb_buffer buf1" using get_finish_spec [OF cl(2), of 0] b by auto
    have "ring_buf_item_get buf want size32 = (ItemTooBig (re_length h), buf2)"
      using True ne cl(1) hd fn(1) by (simp add: ring_buf_item_get_def w32_0)
    moreover have "items_ok buf2 ((h, d) # items)"
      using fn(3) cl(3) c(1) al by (intro items_okI [OF fn(2)]) auto
    ultimately show ?thesis using True rb_state_index(3) [OF fn(2)] s by auto
  next
    case False
    let ?g = "if s \<le> g + (4 + ?k) then g + (4 + ?k) - s else g + (4 + ?k)"
    have dd: "take ?k (drop 4 (ring_bytes (rb_buffer buf) s g u)) = d"
      using u by (simp add: c(1) [symmetric])
    obtain buf2 where lp: "get_loop buf1 (w32 ?k) (w32 4) [] = (buf2, w32 (4 + ?k), d)"
      "rb_state buf2 s g u (4 + ?k) 0" "rb_buffer buf2 = rb_buffer buf"
      using get_loop_spec [OF cl(2) _ refl, of ?k 4 "[]"] u cl(3) dd unat_u8_less [of "re_length h"] by auto
    obtain buf3 where fn: "ring_buf_get_finish buf2 (w32 (4 + ?k)) = (0, buf3)"
      "rb_state buf3 s ?g (u - (4 + ?k)) 0 0" "rb_buffer buf3 = rb_buffer buf2"
      using get_finish_spec [OF lp(2) order.refl] by auto
    have "ring_buf_item_get buf want size32 = (Item h (if want then d else []), buf3)"
      using False ne cl(1) hd fn(1) lp(1)
      by (auto simp: ring_buf_item_get_def Let_def item_size_w32) (auto simp: w32_def)
    moreover have "items_ok buf3 items"
    proof (rule items_okI [OF fn(2) al(1)])
      show "4 dvd ?g" using al(1,2) by (simp add: dvd_diff_nat)
      show "list_all item_valid items" using al(4) by simp
      have "ring_bytes (rb_buffer buf3) s ?g (u - (4 + ?k)) = drop (4 + ?k) (ring_bytes (rb_buffer buf) s g u)"
        using ring_bytes_shift [of "4 + ?k" u g s "rb_buffer buf"] u b(4,6) fn(3) lp(3) by simp
      then show "ring_bytes (rb_buffer buf3) s ?g (u - (4 + ?k)) = concat (map enc_item items)"
        using u(2) by (simp add: c(1) [symmetric])
    qed
    ultimately show ?thesis using False rb_state_index(3) [OF fn(2)] s by auto
  qed
qed

lemma item_put_total:
  assumes "items_ok buf items" and "4 * unat size32 \<le> length data"
  shows "\<exists>buf'. ring_buf_item_put buf type val data size32 =
        (if length (ring_buf_contents buf) + 4 + 4 * unat size32 \<le> length (rb_buffer buf) then 0 else - EMSGSIZE, buf') \<and>
     items_ok buf' (if length (ring_buf_contents buf) + 4 + 4 * unat size32 \<le> length (rb_buffer buf)
        then items @ [(\<lparr>re_type = type, re_length = size32, re_value = val\<rparr>, take (4 * unat size32) data)] else items)"
proof (cases "length (ring_buf_contents buf) + 4 + 4 * unat size32 \<le> length (rb_buffer buf)")
  case True
  from item_put_spec [OF assms True, of type val] True show ?thesis by auto
next
  case False
  with item_put_full [OF assms(1) False] assms(1) show ?thesis by simp
qed

lemma item_get_total:
  assumes "items_ok buf items"
  shows "\<exists>buf'. ring_buf_item_get buf want size32 =
        (case items of [] \<Rightarrow> ItemNone
         | (h, d) # _ \<Rightarrow> if want \<and> size32 < re_length h then ItemTooBig (re_length h)
                         else Item h (if want then d else []), buf') \<and>
     items_ok buf' (case items of [] \<Rightarrow> []
         | (h, d) # rest \<Rightarrow> if want \<and> size32 < re_length h then items else rest)"
proof (cases items)
  case Nil
  then show ?thesis using assms is_empty_spec [of buf] by (simp add: items_ok_def ring_buf_item_get_def)
next
  case (Cons i rest)
  then obtain h d where "items = (h, d) # rest" by (cases i) auto
  then show ?thesis using item_get_spec [of buf h d rest want size32] assms by auto
qed

section \<open>Properties\<close>

text \<open>\<open>ring_buf_put\<close> on a consistent buffer stores the longest prefix of the data that fits, returns
  its length, and leaves a consistent buffer that holds the old bytes followed by that prefix.\<close>

theorem ring_buf_put_appends:
  assumes "ring_buf_ok buf" and "unat sz \<le> length data"
  shows "case ring_buf_put buf data sz of (n, buf') \<Rightarrow>
     unat n = min (unat sz) (length (rb_buffer buf) - length (ring_buf_contents buf)) \<and> ring_buf_ok buf' \<and>
     ring_buf_contents buf' = ring_buf_contents buf @ take (unat n) data"
proof -
  have "unat (of_nat (min (unat sz) m) :: u32) = min (unat sz) m" for m
    using unat_u32_less [of sz] by (simp add: unat_of_nat min.strict_coboundedI1)
  then show ?thesis using put_spec [OF assms refl] by auto
qed

text \<open>The witness starts from counters just below \<open>2^32\<close>, so the write wraps both the counters and
  the buffer.\<close>

theorem ring_buf_put_appends_witness:
  "\<exists>buf'. snd (ring_buf_put \<lparr>rb_buffer = [0, 0, 0, 9], rb_put = \<lparr>ri_head = 0xFFFFFFFF, ri_tail = 0xFFFFFFFF, ri_base = 0xFFFFFFFF\<rparr>,
     rb_get = \<lparr>ri_head = 0xFFFFFFFE, ri_tail = 0xFFFFFFFE, ri_base = 0xFFFFFFFB\<rparr>, rb_size = 4\<rparr> [1, 2, 3, 4] 4) = buf' \<and>
     ring_buf_contents buf' = [9, 1, 2, 3]"
proof -
  let ?b = "\<lparr>rb_buffer = [0, 0, 0, 9], rb_put = \<lparr>ri_head = 0xFFFFFFFF, ri_tail = 0xFFFFFFFF, ri_base = 0xFFFFFFFF\<rparr>,
     rb_get = \<lparr>ri_head = 0xFFFFFFFE, ri_tail = 0xFFFFFFFE, ri_base = 0xFFFFFFFB\<rparr>, rb_size = 4\<rparr> :: ring_buf"
  have "ring_buf_ok ?b" "ring_buf_contents ?b = [9]"
    by (simp_all add: ring_buf_ok_def ring_buf_contents_def rb_state_def ring_bytes_def rb_get_index_def rb_used_def w32_def)
  with ring_buf_put_appends [of ?b 4 "[1, 2, 3, 4]"] show ?thesis
    by (simp add: split_beta)
qed

text \<open>\<open>ring_buf_get\<close> returns and removes the longest prefix of the contents that was asked for;
  \<open>ring_buf_peek\<close> returns the same bytes and keeps the contents.\<close>

theorem ring_buf_get_and_peek:
  assumes "ring_buf_ok buf"
  shows "\<exists>n buf1 buf2. n = min (unat sz) (length (ring_buf_contents buf)) \<and>
     ring_buf_get buf sz = (of_nat n, take n (ring_buf_contents buf), buf1) \<and>
     ring_buf_ok buf1 \<and> ring_buf_contents buf1 = drop n (ring_buf_contents buf) \<and>
     ring_buf_peek buf sz = (of_nat n, take n (ring_buf_contents buf), buf2) \<and>
     ring_buf_ok buf2 \<and> ring_buf_contents buf2 = ring_buf_contents buf"
  using get_spec [OF assms refl, of sz] peek_spec [OF assms refl, of sz] by auto

theorem ring_buf_get_and_peek_witness:
  "\<exists>buf1. ring_buf_get \<lparr>rb_buffer = [7, 8, 0, 9], rb_put = \<lparr>ri_head = 1, ri_tail = 1, ri_base = 0xFFFFFFFF\<rparr>,
     rb_get = \<lparr>ri_head = 0xFFFFFFFE, ri_tail = 0xFFFFFFFE, ri_base = 0xFFFFFFFB\<rparr>, rb_size = 4\<rparr> 2 = (2, [9, 7], buf1) \<and>
     ring_buf_contents buf1 = [8]"
proof -
  let ?b = "\<lparr>rb_buffer = [7, 8, 0, 9], rb_put = \<lparr>ri_head = 1, ri_tail = 1, ri_base = 0xFFFFFFFF\<rparr>,
     rb_get = \<lparr>ri_head = 0xFFFFFFFE, ri_tail = 0xFFFFFFFE, ri_base = 0xFFFFFFFB\<rparr>, rb_size = 4\<rparr> :: ring_buf"
  have "ring_buf_ok ?b" "ring_buf_contents ?b = [9, 7, 8]"
    by (simp_all add: ring_buf_ok_def ring_buf_contents_def rb_state_def ring_bytes_def rb_get_index_def rb_used_def w32_def upt_rec)
  with ring_buf_get_and_peek [of ?b 2] show ?thesis by auto
qed

text \<open>C7: Over any sequence of writes and reads on a consistent buffer the bytes received, followed by
  the bytes still stored, are the bytes stored initially followed by the bytes accepted: nothing is
  lost, duplicated or reordered, however often the indices wrap.\<close>

theorem ring_buf_history:
  assumes "ring_buf_ok buf" and "list_all (op_fits (2 ^ 32)) ops"
    and "chan_run rb_write rb_read buf ops = (snt, rcv, buf')"
  shows "ring_buf_ok buf' \<and> ring_buf_contents buf @ snt = rcv @ ring_buf_contents buf'"
  using ring_channel.run_history [OF assms] by simp

theorem ring_buf_history_witness:
  "case chan_run rb_write rb_read (ring_buf_init undefined 4 [0, 0, 0, 0]) [ChanPut [1, 2, 3], ChanGet 2, ChanPut [4, 5, 6, 7]] of
     (snt, rcv, buf') \<Rightarrow> ring_buf_ok buf' \<and> snt = rcv @ ring_buf_contents buf'"
proof -
  let ?b = "ring_buf_init undefined 4 [0, 0, 0, 0]"
  have "ring_buf_ok ?b" "ring_buf_contents ?b = []" using init_ok [of "[0, 0, 0, 0]" undefined] by simp_all
  then show ?thesis
    using ring_buf_history [of ?b "[ChanPut [1, 2, 3], ChanGet 2, ChanPut [4, 5, 6, 7]]"] by (auto split: prod.splits)
qed

text \<open>C9: Items come out as they went in. On a buffer of aligned items, \<open>ring_buf_item_put\<close> appends the
  item exactly when it fits and otherwise returns \<open>-EMSGSIZE\<close> and changes nothing;
  \<open>ring_buf_item_get\<close> returns type, value and data of the oldest item and removes it, or keeps it
  and reports its size when the caller's array is too small; on an empty buffer it returns
  \<open>-EAGAIN\<close>.\<close>

theorem ring_buf_items_fifo:
  assumes "items_ok buf items" and "4 * unat size32 \<le> length data"
  shows "(\<exists>buf'. ring_buf_item_put buf type val data size32 =
        (if length (ring_buf_contents buf) + 4 + 4 * unat size32 \<le> length (rb_buffer buf) then 0 else - EMSGSIZE, buf') \<and>
     items_ok buf' (if length (ring_buf_contents buf) + 4 + 4 * unat size32 \<le> length (rb_buffer buf)
        then items @ [(\<lparr>re_type = type, re_length = size32, re_value = val\<rparr>, take (4 * unat size32) data)] else items))
   \<and> (\<exists>buf'. ring_buf_item_get buf want size32 =
        (case items of [] \<Rightarrow> ItemNone
         | (h, d) # _ \<Rightarrow> if want \<and> size32 < re_length h then ItemTooBig (re_length h)
                         else Item h (if want then d else []), buf') \<and>
     items_ok buf' (case items of [] \<Rightarrow> []
         | (h, d) # rest \<Rightarrow> if want \<and> size32 < re_length h then items else rest))"
  using item_put_total [OF assms] item_get_total [OF assms(1)] by blast

theorem ring_buf_items_fifo_witness:
  "\<exists>buf'. ring_buf_item_put (ring_buf_init undefined 8 [0, 0, 0, 0, 0, 0, 0, 0]) 5 6 [1, 2, 3, 4] 1 = (0, buf') \<and>
     items_ok buf' [(\<lparr>re_type = 5, re_length = 1, re_value = 6\<rparr>, [1, 2, 3, 4])]"
proof -
  let ?b = "ring_buf_init undefined 8 [0, 0, 0, 0, 0, 0, 0, 0]"
  have "ring_buf_ok ?b" "ring_buf_contents ?b = []" "rb_get_index ?b = 0" "length (rb_buffer ?b) = 8"
    using init_ok [of "[0, 0, 0, 0, 0, 0, 0, 0]" undefined]
    by (simp_all add: ring_buf_init_def ring_buf_internal_reset_def rb_get_index_def)
  then have "items_ok ?b []" "ring_buf_contents ?b = []" "length (rb_buffer ?b) = 8" by (simp_all add: items_ok_def)
  with ring_buf_items_fifo [of ?b "[]" 1 "[1, 2, 3, 4]" 5 6] show ?thesis by simp
qed

end
