(* ===== verification/Timeout_Queue.thy ===== *)
theory Timeout_Queue
  imports Zephyr_Prelude "HOL-Library.Monad_Syntax"
begin

text \<open>
  The kernel's timeout queue (\<open>kernel/timeout.c\<close>): a list of pending timeouts in which each entry
  stores the number of ticks after its predecessor. The list links are the doubly linked list of
  theory \<open>Dlist\<close>, here seen as the list of its nodes. \<open>rems\<close> turns the deltas into remaining ticks;
  the lemmas show that adding, aborting and announcing ticks act on that sequence as a queue ordered
  by deadline, first come first served among equal deadlines.

  The system clock driver is outside: \<open>hw_elapsed\<close> is what \<open>sys_clock_elapsed\<close> returns and
  \<open>hw_timeout\<close> records the last argument of \<open>sys_clock_set_timeout\<close>. Tick counts are \<open>int64_t\<close> in
  the code; \<open>i64\<close> is the conversion to that type, and the invariant bounds the sum of the deltas
  so that no other step of the code can leave the range.
\<close>

section \<open>State\<close>

datatype timeout_id =
  ThreadTimeout nat
| SliceTimeout
| TimerTimeout nat
| WorkTimeout nat

datatype timeout_fn = Z_thread_timeout | Slice_timeout | Z_timer_expiration_handler | Work_timeout

type_synonym k_timeout = int

record timeout_q =
  curr_tick :: u64
  timeout_list :: "timeout_id list"
  dticks :: "timeout_id \<Rightarrow> int"
  to_fn :: "timeout_id \<Rightarrow> timeout_fn"
  announce_remaining :: int
  hw_elapsed :: int
  hw_timeout :: int

definition K_FOREVER :: k_timeout where "K_FOREVER = - 1"
definition K_NO_WAIT :: k_timeout where "K_NO_WAIT = 0"

definition i64 :: "int \<Rightarrow> int" where
  "i64 x = sint (word_of_int x :: u64)"

definition Z_TICK_ABS :: "int \<Rightarrow> int" where
  "Z_TICK_ABS t = - 1 - 1 - t"

definition INT_MAX :: int where "INT_MAX = 2 ^ 31 - 1"

section \<open>Operations\<close>

definition first_timeout :: "'a timeout_q_scheme \<Rightarrow> timeout_id option" where
  "first_timeout q = (case timeout_list q of [] \<Rightarrow> None | t # _ \<Rightarrow> Some t)"

fun next_in :: "'a list \<Rightarrow> 'a \<Rightarrow> 'a option" where
  "next_in [] t = None"
| "next_in (x # xs) t = (if x = t then (case xs of [] \<Rightarrow> None | y # _ \<Rightarrow> Some y) else next_in xs t)"

definition next_of :: "'a timeout_q_scheme \<Rightarrow> timeout_id \<Rightarrow> timeout_id option" where
  "next_of q t = next_in (timeout_list q) t"

definition z_is_inactive_timeout :: "'a timeout_q_scheme \<Rightarrow> timeout_id \<Rightarrow> bool" where
  "z_is_inactive_timeout q t \<longleftrightarrow> t \<notin> set (timeout_list q)"

definition remove_timeout :: "timeout_id \<Rightarrow> 'a timeout_q_scheme \<Rightarrow> 'a timeout_q_scheme" where
  "remove_timeout t q =
     (let q1 = (case next_of q t of
                  Some n \<Rightarrow> q\<lparr>dticks := (dticks q)(n := dticks q n + dticks q t)\<rparr>
                | None \<Rightarrow> q)
      in q1\<lparr>timeout_list := remove1 t (timeout_list q1)\<rparr>)"

definition elapsed :: "'a timeout_q_scheme \<Rightarrow> int" where
  "elapsed q = (if announce_remaining q = 0 then hw_elapsed q else 0)"

definition next_timeout :: "'a timeout_q_scheme \<Rightarrow> int" where
  "next_timeout q =
     (case first_timeout q of
        None \<Rightarrow> INT_MAX
      | Some t \<Rightarrow> if dticks q t - elapsed q > INT_MAX then INT_MAX else max 0 (dticks q t - elapsed q))"

definition sys_clock_set_timeout :: "int \<Rightarrow> 'a timeout_q_scheme \<Rightarrow> 'a timeout_q_scheme" where
  "sys_clock_set_timeout n q = q\<lparr>hw_timeout := n\<rparr>"

text \<open>The insertion loop of \<open>z_add_timeout\<close>.\<close>

fun insert_timeout :: "(timeout_id \<Rightarrow> int) \<Rightarrow> timeout_id \<Rightarrow> timeout_id list \<Rightarrow>
    (timeout_id \<Rightarrow> int) \<times> timeout_id list" where
  "insert_timeout dt to [] = (dt, [to])"
| "insert_timeout dt to (t # ts) =
     (if dt t > dt to then (dt(t := dt t - dt to), to # t # ts)
      else let (dt', ts') = insert_timeout (dt(to := dt to - dt t)) to ts in (dt', t # ts'))"

definition timeout_dticks :: "'a timeout_q_scheme \<Rightarrow> k_timeout \<Rightarrow> int" where
  "timeout_dticks q timeout =
     (if Z_TICK_ABS timeout \<ge> 0
      then max 1 (sint (word_of_int (Z_TICK_ABS timeout) - curr_tick q))
      else i64 (timeout + 1 + elapsed q))"

definition z_add_timeout ::
  "timeout_id \<Rightarrow> timeout_fn \<Rightarrow> k_timeout \<Rightarrow> 'a timeout_q_scheme \<Rightarrow> 'a timeout_q_scheme" where
  "z_add_timeout to fn timeout q =
     (if timeout = K_FOREVER then q
      else let q1 = q\<lparr>to_fn := (to_fn q)(to := fn)\<rparr>;
               q2 = q1\<lparr>dticks := (dticks q1)(to := timeout_dticks q1 timeout)\<rparr>;
               (dt, ts) = insert_timeout (dticks q2) to (timeout_list q2);
               q3 = q2\<lparr>dticks := dt, timeout_list := ts\<rparr>
           in if first_timeout q3 = Some to \<and> announce_remaining q3 = 0
              then sys_clock_set_timeout (next_timeout q3) q3 else q3)"

definition z_abort_timeout :: "timeout_id \<Rightarrow> 'a timeout_q_scheme \<Rightarrow> int \<times> 'a timeout_q_scheme" where
  "z_abort_timeout to q =
     (if to \<in> set (timeout_list q)
      then let is_first = (first_timeout q = Some to);
               q1 = remove_timeout to q
           in (0, if is_first then sys_clock_set_timeout (next_timeout q1) q1 else q1)
      else (- EINVAL, q))"

fun rem_loop :: "(timeout_id \<Rightarrow> int) \<Rightarrow> timeout_id \<Rightarrow> int \<Rightarrow> timeout_id list \<Rightarrow> int" where
  "rem_loop dt to ticks [] = ticks"
| "rem_loop dt to ticks (t # ts) =
     (if to = t then ticks + dt t else rem_loop dt to (ticks + dt t) ts)"

definition timeout_rem :: "'a timeout_q_scheme \<Rightarrow> timeout_id \<Rightarrow> int" where
  "timeout_rem q to = rem_loop (dticks q) to 0 (timeout_list q)"

definition z_timeout_remaining :: "'a timeout_q_scheme \<Rightarrow> timeout_id \<Rightarrow> int" where
  "z_timeout_remaining q to =
     (if z_is_inactive_timeout q to then 0 else timeout_rem q to - elapsed q)"

definition z_timeout_expires :: "'a timeout_q_scheme \<Rightarrow> timeout_id \<Rightarrow> int" where
  "z_timeout_expires q to =
     (if z_is_inactive_timeout q to then sint (curr_tick q)
      else sint (curr_tick q + word_of_int (timeout_rem q to)))"

definition z_get_next_timeout_expiry :: "'a timeout_q_scheme \<Rightarrow> int" where
  "z_get_next_timeout_expiry q = next_timeout q"

text \<open>One turn of the loop of \<open>sys_clock_announce\<close>; \<open>cb t\<close> is the call \<open>t->fn(t)\<close>. The loop may run
  callbacks that add timeouts, so it is a partial function: \<open>None\<close> is a loop that does not end.\<close>

definition announce_turn :: "(timeout_id \<Rightarrow> 'a timeout_q_scheme \<Rightarrow> 'a timeout_q_scheme) \<Rightarrow>
    timeout_id \<Rightarrow> 'a timeout_q_scheme \<Rightarrow> 'a timeout_q_scheme" where
  "announce_turn cb t q =
     (let dt = dticks q t;
          q1 = q\<lparr>curr_tick := curr_tick q + word_of_int dt, dticks := (dticks q)(t := 0)\<rparr>;
          q2 = cb t (remove_timeout t q1)
      in q2\<lparr>announce_remaining := announce_remaining q2 - dt\<rparr>)"

partial_function (option) announce_loop :: "(timeout_id \<Rightarrow> 'a timeout_q_scheme \<Rightarrow> 'a timeout_q_scheme) \<Rightarrow>
    'a timeout_q_scheme \<Rightarrow> 'a timeout_q_scheme option" where
  "announce_loop cb q =
     (case first_timeout q of
        Some t \<Rightarrow> if dticks q t \<le> announce_remaining q then announce_loop cb (announce_turn cb t q) else Some q
      | None \<Rightarrow> Some q)"

definition announce_end :: "'a timeout_q_scheme \<Rightarrow> 'a timeout_q_scheme" where
  "announce_end q =
     (let q1 = (case first_timeout q of
                  Some t \<Rightarrow> q\<lparr>dticks := (dticks q)(t := dticks q t - announce_remaining q)\<rparr>
                | None \<Rightarrow> q);
          q2 = q1\<lparr>curr_tick := curr_tick q1 + word_of_int (announce_remaining q1), announce_remaining := 0\<rparr>
      in sys_clock_set_timeout (next_timeout q2) q2)"

text \<open>\<open>tslice\<close> is the call of \<open>z_time_slice\<close>.\<close>

definition sys_clock_announce :: "(timeout_id \<Rightarrow> 'a timeout_q_scheme \<Rightarrow> 'a timeout_q_scheme) \<Rightarrow>
    ('a timeout_q_scheme \<Rightarrow> 'a timeout_q_scheme) \<Rightarrow> int \<Rightarrow> 'a timeout_q_scheme \<Rightarrow> 'a timeout_q_scheme option" where
  "sys_clock_announce cb tslice ticks q =
     do { q1 \<leftarrow> announce_loop cb (q\<lparr>announce_remaining := ticks\<rparr>);
          Some (tslice (announce_end q1)) }"

definition sys_clock_tick_get :: "'a timeout_q_scheme \<Rightarrow> int" where
  "sys_clock_tick_get q = sint (curr_tick q + word_of_int (elapsed q))"

definition sys_clock_tick_get_32 :: "'a timeout_q_scheme \<Rightarrow> u32" where
  "sys_clock_tick_get_32 q = word_of_int (sys_clock_tick_get q)"

definition k_uptime_ticks :: "'a timeout_q_scheme \<Rightarrow> int" where
  "k_uptime_ticks q = sys_clock_tick_get q"

definition sys_timepoint_calc :: "'a timeout_q_scheme \<Rightarrow> k_timeout \<Rightarrow> u64" where
  "sys_timepoint_calc q timeout =
     (if timeout = K_FOREVER then - 1
      else if timeout = K_NO_WAIT then 0
      else if Z_TICK_ABS timeout \<ge> 0 then word_of_int (Z_TICK_ABS timeout)
      else word_of_int (sys_clock_tick_get q) + word_of_int (max 1 timeout))"

definition sys_timepoint_timeout :: "'a timeout_q_scheme \<Rightarrow> u64 \<Rightarrow> k_timeout" where
  "sys_timepoint_timeout q tp =
     (if tp = - 1 then K_FOREVER
      else if tp = 0 then K_NO_WAIT
      else let now = word_of_int (sys_clock_tick_get q);
               remaining = (if tp > now then tp - now else 0)
           in sint remaining)"

section \<open>Deltas and remaining ticks\<close>

fun rems :: "int \<Rightarrow> ('i \<Rightarrow> int) \<Rightarrow> 'i list \<Rightarrow> ('i \<times> int) list" where
  "rems a d [] = []"
| "rems a d (t # ts) = (t, a + d t) # rems (a + d t) d ts"

definition rem_q :: "'a timeout_q_scheme \<Rightarrow> (timeout_id \<times> int) list" where
  "rem_q q = rems 0 (dticks q) (timeout_list q)"

definition timeout_q_ok :: "'a timeout_q_scheme \<Rightarrow> bool" where
  "timeout_q_ok q \<longleftrightarrow> distinct (timeout_list q) \<and> sorted (0 # map snd (rem_q q)) \<and>
     list_all (\<lambda>p. snd p < 2 ^ 63) (rem_q q)"

lemma map_fst_rems [simp]: "map fst (rems a d ts) = ts"
  by (induction ts arbitrary: a) auto

lemma fst_set_rems [simp]: "fst ` set (rems a d ts) = set ts"
  by (metis list.set_map map_fst_rems)

lemma set_rem_q: "fst ` set (rem_q q) = set (timeout_list q)"
  by (simp add: rem_q_def)

lemma rems_cong: "(\<And>t. t \<in> set ts \<Longrightarrow> d t = e t) \<Longrightarrow> rems a d ts = rems a e ts"
  by (induction ts arbitrary: a) auto

lemma rems_upd_notin [simp]: "x \<notin> set ts \<Longrightarrow> rems a (d(x := v)) ts = rems a d ts"
  by (rule rems_cong) auto

lemma rems_if_notin [simp]: "x \<notin> set ts \<Longrightarrow> rems a (\<lambda>t. if t = x then v else d t) ts = rems a d ts"
  by (rule rems_cong) auto

lemma rems_shift: "rems (a + b) d ts = map (\<lambda>(t, r). (t, r + b)) (rems a d ts)"
proof (induction ts arbitrary: a)
  case (Cons t ts)
  have "rems (a + b + d t) d ts = rems (a + d t + b) d ts" by (simp add: ac_simps)
  then show ?case using Cons.IH [of "a + d t"] by simp
qed simp

lemma rems_empty [simp]: "rems a d ts = [] \<longleftrightarrow> ts = []"
  by (cases ts) auto

interpretation timeout_order: strict_weak_order "\<lambda>(x :: timeout_id \<times> int) y. snd x < snd y"
  by unfold_locales auto

lemma ordered_map_snd: "sorted_wrt (\<lambda>x y. \<not> snd y < snd x) xs \<longleftrightarrow> sorted (map snd xs)" for xs :: "('b \<times> int) list"
  by (simp add: sorted_wrt_map not_less)

text \<open>The two list walks of the code, on remaining ticks.\<close>

lemma insert_timeout_rems:
  assumes "insert_timeout d to ts = (d', ts')" "to \<notin> set ts" "distinct ts"
  shows "rems a d' ts' = ins_before (\<lambda>p. a + d to < snd p) (to, a + d to) (rems a d ts)"
    and "\<And>u. u \<notin> insert to (set ts) \<Longrightarrow> d' u = d u"
    and "ts' = map fst (ins_before (\<lambda>p. a + d to < snd p) (to, a + d to) (rems a d ts))"
proof -
  have "rems a d' ts' = ins_before (\<lambda>p. a + d to < snd p) (to, a + d to) (rems a d ts) \<and>
        (\<forall>u. u \<notin> insert to (set ts) \<longrightarrow> d' u = d u)"
    using assms
  proof (induction ts arbitrary: a d d' ts')
    case Nil
    then show ?case by auto
  next
    case (Cons t ts)
    show ?case
    proof (cases "d to < d t")
      case True
      with Cons.prems have "d' = d(t := d t - d to)" "ts' = to # t # ts" by auto
      then show ?thesis using True Cons.prems by (auto intro: rems_cong)
    next
      case False
      then obtain ts1 where i: "insert_timeout (d(to := d to - d t)) to ts = (d', ts1)" "ts' = t # ts1"
        using Cons.prems(1) by (auto split: prod.splits)
      have pre: "to \<notin> set ts" "distinct ts" "t \<noteq> to" "t \<notin> set ts" using Cons.prems by auto
      note raw = Cons.IH [OF i(1) pre(1,2), of "a + d t"]
      have IH: "rems (a + d t) d' ts1 = ins_before (\<lambda>p. a + d to < snd p) (to, a + d to) (rems (a + d t) d ts)"
        using conjunct1 [OF raw] pre(1) by simp
      have out: "d' u = d u" if "u \<notin> insert to (set ts)" for u
        using conjunct2 [OF raw] that by simp
      then have "d' t = d t" using pre by simp
      then show ?thesis using False IH i(2) out by simp
    qed
  qed
  then show "rems a d' ts' = ins_before (\<lambda>p. a + d to < snd p) (to, a + d to) (rems a d ts)"
    "\<And>u. u \<notin> insert to (set ts) \<Longrightarrow> d' u = d u" by auto
  then show "ts' = map fst (ins_before (\<lambda>p. a + d to < snd p) (to, a + d to) (rems a d ts))"
    by (metis map_fst_rems)
qed

lemma remove_rems:
  "distinct ts \<Longrightarrow> rems a (case next_in ts t of Some n \<Rightarrow> d(n := d n + d t) | None \<Rightarrow> d) (remove1 t ts) =
     filter (\<lambda>p. fst p \<noteq> t) (rems a d ts)"
proof (induction ts arbitrary: a)
  case Nil
  then show ?case by simp
next
  case (Cons x xs)
  show ?case
  proof (cases "x = t")
    case True
    have keep: "filter (\<lambda>p. fst p \<noteq> t) (rems b e ys) = rems b e ys" if "t \<notin> set ys" for b and e :: "'a \<Rightarrow> int" and ys
      using that by (induction ys arbitrary: b) auto
    from True Cons.prems show ?thesis by (cases xs) (auto simp: keep ac_simps)
  next
    case False
    have nx: "next_in xs t = Some n \<Longrightarrow> n \<in> set xs" for n
      by (induction xs) (auto split: if_splits list.splits)
    have "(case next_in xs t of Some n \<Rightarrow> d(n := d n + d t) | None \<Rightarrow> d) x = d x"
      using nx Cons.prems by (auto split: option.splits)
    with False Cons show ?thesis by simp
  qed
qed

section \<open>Queue operations on remaining ticks\<close>

lemma timeout_list_rem_q: "timeout_list q = map fst (rem_q q)"
  by (simp add: rem_q_def)

lemma timeout_q_okI:
  "distinct (map fst (rem_q q)) \<Longrightarrow> sorted (map snd (rem_q q)) \<Longrightarrow>
   (\<And>t r. (t, r) \<in> set (rem_q q) \<Longrightarrow> 0 \<le> r \<and> r < 2 ^ 63) \<Longrightarrow> timeout_q_ok q"
  by (force simp: timeout_q_ok_def timeout_list_rem_q [symmetric] list_all_iff)

lemma timeout_q_okD:
  assumes "timeout_q_ok q"
  shows "distinct (timeout_list q)" "sorted (map snd (rem_q q))"
    "\<And>t r. (t, r) \<in> set (rem_q q) \<Longrightarrow> 0 \<le> r" "\<And>t r. (t, r) \<in> set (rem_q q) \<Longrightarrow> r < 2 ^ 63"
  using assms by (auto simp: timeout_q_ok_def list_all_iff)

lemma ok_cong: "rem_q q = rem_q q' \<Longrightarrow> timeout_q_ok q = timeout_q_ok q'"
  by (simp add: timeout_q_ok_def timeout_list_rem_q)

lemma rem_q_frame [frame_simps]:
  "rem_q (curr_tick_update f q) = rem_q q" "rem_q (to_fn_update g q) = rem_q q"
  "rem_q (announce_remaining_update h q) = rem_q q" "rem_q (hw_elapsed_update h q) = rem_q q"
  "rem_q (hw_timeout_update h q) = rem_q q"
  by (simp_all add: rem_q_def)

lemma elapsed_frame [frame_simps]:
  "elapsed (to_fn_update g q) = elapsed q" "elapsed (dticks_update e q) = elapsed q"
  "elapsed (timeout_list_update k q) = elapsed q"
  by (simp_all add: elapsed_def)

lemma timeout_dticks_frame [frame_simps]: "timeout_dticks (to_fn_update g q) n = timeout_dticks q n"
  by (simp add: timeout_dticks_def elapsed_def)

text \<open>The ticks a request stands for.\<close>

definition valid_timeout :: "'a timeout_q_scheme \<Rightarrow> k_timeout \<Rightarrow> bool" where
  "valid_timeout q n \<longleftrightarrow> n = K_FOREVER \<or> n < - 1 \<or> n + 1 + elapsed q < 2 ^ 63 \<and> 0 \<le> elapsed q"

lemma i64_id: "- (2 ^ 63) \<le> x \<Longrightarrow> x < 2 ^ 63 \<Longrightarrow> i64 x = x"
  by (simp add: i64_def signed_of_int signed_take_bit_int_eq_self)

lemma sint_u64_less: "sint (w :: u64) < 9223372036854775808"
  using sint_less [of w] by simp

lemma timeout_dticks_bounds:
  "valid_timeout q n \<Longrightarrow> n \<noteq> K_FOREVER \<Longrightarrow> 1 \<le> timeout_dticks q n \<and> timeout_dticks q n < 2 ^ 63"
  by (auto simp: valid_timeout_def timeout_dticks_def Z_TICK_ABS_def K_FOREVER_def i64_id sint_u64_less)

lemma add_timeout_rem_q:
  assumes "timeout_q_ok q" "to \<notin> set (timeout_list q)" "n \<noteq> K_FOREVER"
  shows "rem_q (z_add_timeout to fn n q) =
     ins_before (\<lambda>p. timeout_dticks q n < snd p) (to, timeout_dticks q n) (rem_q q)"
proof -
  obtain dt ts where i: "insert_timeout ((dticks q)(to := timeout_dticks q n)) to (timeout_list q) = (dt, ts)"
    by (cases "insert_timeout ((dticks q)(to := timeout_dticks q n)) to (timeout_list q)")
  note r = insert_timeout_rems(1) [OF i assms(2) timeout_q_okD(1) [OF assms(1)], of 0]
  then show ?thesis using assms(2,3) i
    by (simp add: z_add_timeout_def Let_def sys_clock_set_timeout_def frame_simps rem_q_def)
qed

lemma add_timeout_forever [simp]: "z_add_timeout to fn K_FOREVER q = q"
  by (simp add: z_add_timeout_def)

lemma add_timeout_ok:
  assumes "timeout_q_ok q" "to \<notin> set (timeout_list q)" "valid_timeout q n"
  shows "timeout_q_ok (z_add_timeout to fn n q)"
proof (cases "n = K_FOREVER")
  case True
  then show ?thesis using assms(1) by simp
next
  case False
  note r = add_timeout_rem_q [OF assms(1,2) False, of fn]
  note b = timeout_dticks_bounds [OF assms(3) False]
  show ?thesis
  proof (rule timeout_q_okI)
    show "distinct (map fst (rem_q (z_add_timeout to fn n q)))"
      using assms(2) timeout_q_okD(1) [OF assms(1)] unfolding r
      by (simp add: distinct_map_ins_before set_rem_q timeout_list_rem_q [symmetric])
    show "sorted (map snd (rem_q (z_add_timeout to fn n q)))"
      unfolding r using timeout_order.ordered_insert [of "rem_q q" "(to, timeout_dticks q n)"] timeout_q_okD(2) [OF assms(1)]
      by (simp add: ordered_map_snd)
    show "0 \<le> x \<and> x < 2 ^ 63" if "(t, x) \<in> set (rem_q (z_add_timeout to fn n q))" for t x
      using that b timeout_q_okD(3,4) [OF assms(1)] unfolding r by auto
  qed
qed

lemma abort_timeout_rem_q:
  assumes "timeout_q_ok q"
  shows "rem_q (snd (z_abort_timeout to q)) = filter (\<lambda>p. fst p \<noteq> to) (rem_q q)"
    and "fst (z_abort_timeout to q) = (if to \<in> set (timeout_list q) then 0 else - EINVAL)"
proof -
  have "filter (\<lambda>p. fst p \<noteq> to) (rem_q q) = rem_q q" if "to \<notin> set (timeout_list q)"
    using that by (auto simp: filter_id_conv set_rem_q [symmetric])
  then show "rem_q (snd (z_abort_timeout to q)) = filter (\<lambda>p. fst p \<noteq> to) (rem_q q)"
    using remove_rems [OF timeout_q_okD(1) [OF assms], of 0 "dticks q" to]
    by (auto simp: z_abort_timeout_def Let_def sys_clock_set_timeout_def frame_simps rem_q_def remove_timeout_def
        next_of_def split: option.splits)
  show "fst (z_abort_timeout to q) = (if to \<in> set (timeout_list q) then 0 else - EINVAL)"
    by (simp add: z_abort_timeout_def Let_def)
qed

lemma abort_timeout_ok:
  assumes "timeout_q_ok q"
  shows "timeout_q_ok (snd (z_abort_timeout to q))"
proof (rule timeout_q_okI)
  note r = abort_timeout_rem_q(1) [OF assms, of to]
  show "distinct (map fst (rem_q (snd (z_abort_timeout to q))))"
    using timeout_q_okD(1) [OF assms] unfolding r timeout_list_rem_q by (simp add: distinct_map_filter)
  show "sorted (map snd (rem_q (snd (z_abort_timeout to q))))"
    using timeout_q_okD(2) [OF assms] unfolding r by (simp add: sorted_filter)
  show "0 \<le> x \<and> x < 2 ^ 63" if "(t, x) \<in> set (rem_q (snd (z_abort_timeout to q)))" for t x
    using that timeout_q_okD(3,4) [OF assms] unfolding r by auto
qed

lemma timeout_rem_map_of: "distinct (timeout_list q) \<Longrightarrow> map_of (rem_q q) t = Some r \<Longrightarrow> timeout_rem q t = r"
proof -
  have "map_of (rems a d ts) t = Some r \<Longrightarrow> rem_loop d t a ts = r" for a d ts
    by (induction ts arbitrary: a) (auto split: if_splits)
  then show "map_of (rem_q q) t = Some r \<Longrightarrow> timeout_rem q t = r"
    by (simp add: rem_q_def timeout_rem_def)
qed

section \<open>Announcing ticks\<close>

text \<open>\<open>fire t q\<close> is the state in which the callback of the first timeout \<open>t\<close> runs.\<close>

definition fire :: "timeout_id \<Rightarrow> 'a timeout_q_scheme \<Rightarrow> 'a timeout_q_scheme" where
  "fire t q = remove_timeout t
     (q\<lparr>curr_tick := curr_tick q + word_of_int (dticks q t), dticks := (dticks q)(t := 0)\<rparr>)"

lemma announce_turn_fire:
  "announce_turn cb t q = (let q2 = cb t (fire t q) in q2\<lparr>announce_remaining := announce_remaining q2 - dticks q t\<rparr>)"
  by (simp add: announce_turn_def fire_def Let_def)

lemma fire_fields [frame_simps]:
  "announce_remaining (fire t q) = announce_remaining q"
  "curr_tick (fire t q) = curr_tick q + word_of_int (dticks q t)"
  "timeout_q.more (fire t q) = timeout_q.more q"
  by (simp_all add: fire_def remove_timeout_def Let_def next_of_def split: option.splits)

lemma fire_list: "timeout_list (fire t q) = remove1 t (timeout_list q)" "hw_elapsed (fire t q) = hw_elapsed q"
  by (simp_all add: fire_def remove_timeout_def Let_def next_of_def split: option.splits)

lemma fire_rem_q:
  assumes "timeout_q_ok q" "timeout_list q = t # ts"
  shows "rem_q (fire t q) = map (\<lambda>(u, r). (u, r - dticks q t)) (tl (rem_q q))"
proof -
  have d: "t \<notin> set ts" "distinct ts" using timeout_q_okD(1) [OF assms(1)] assms(2) by auto
  have "rem_q (fire t q) = rems 0 (dticks q) ts"
    using d assms(2) by (cases ts) (auto simp: fire_def remove_timeout_def rem_q_def next_of_def Let_def)
  moreover have "map (\<lambda>(u, r). (u, r - dticks q t)) (rems (0 + dticks q t) (dticks q) ts) = rems 0 (dticks q) ts"
    unfolding rems_shift by (simp add: comp_def case_prod_unfold)
  ultimately show ?thesis using assms(2) by (simp add: rem_q_def)
qed

lemma first_rem:
  assumes "timeout_q_ok q" "first_timeout q = Some t"
  obtains ts rest where "timeout_list q = t # ts" "rem_q q = (t, dticks q t) # rest" "0 \<le> dticks q t"
    "\<forall>p \<in> set rest. dticks q t \<le> snd p"
proof -
  from assms(2) obtain ts where l: "timeout_list q = t # ts" by (auto simp: first_timeout_def split: list.splits)
  then have r: "rem_q q = (t, dticks q t) # rems (dticks q t) (dticks q) ts" by (simp add: rem_q_def)
  show thesis
    using that [OF l r] timeout_q_okD(2,3) [OF assms(1)] unfolding r by force
qed

lemma fire_ok:
  assumes "timeout_q_ok q" "first_timeout q = Some t"
  shows "timeout_q_ok (fire t q)" "t \<notin> set (timeout_list (fire t q))"
proof -
  from assms obtain ts rest where l: "timeout_list q = t # ts" and r: "rem_q q = (t, dticks q t) # rest"
    and b: "0 \<le> dticks q t" "\<forall>p \<in> set rest. dticks q t \<le> snd p" by (rule first_rem)
  have f: "rem_q (fire t q) = map (\<lambda>(u, r). (u, r - dticks q t)) rest" using fire_rem_q [OF assms(1) l] r by simp
  have fst: "map fst (rem_q (fire t q)) = map fst rest" by (simp add: f comp_def case_prod_unfold)
  have snd: "map snd (rem_q (fire t q)) = map (\<lambda>p. snd p - dticks q t) rest" by (simp add: f comp_def case_prod_unfold)
  have d: "distinct (map fst rest)" "t \<notin> fst ` set rest"
    using timeout_q_okD(1) [OF assms(1)] r by (auto simp: timeout_list_rem_q)
  then show "t \<notin> set (timeout_list (fire t q))" by (simp add: timeout_list_rem_q fst)
  show "timeout_q_ok (fire t q)"
  proof (rule timeout_q_okI)
    show "distinct (map fst (rem_q (fire t q)))" using d fst by simp
    show "sorted (map snd (rem_q (fire t q)))"
      using timeout_q_okD(2) [OF assms(1)] unfolding snd r by (simp add: sorted_wrt_map)
    show "0 \<le> x \<and> x < 2 ^ 63" if "(u, x) \<in> set (rem_q (fire t q))" for u x
      using that b timeout_q_okD(4) [OF assms(1)] unfolding f r by force
  qed
qed

lemma announce_end_fields [frame_simps]:
  "announce_remaining (announce_end q) = 0"
  "curr_tick (announce_end q) = curr_tick q + word_of_int (announce_remaining q)"
  "timeout_q.more (announce_end q) = timeout_q.more q" "hw_elapsed (announce_end q) = hw_elapsed q"
  "timeout_list (announce_end q) = timeout_list q"
  by (simp_all add: announce_end_def Let_def sys_clock_set_timeout_def split: option.splits)

lemma announce_end_rem_q:
  assumes "timeout_q_ok q"
  shows "rem_q (announce_end q) = map (\<lambda>(u, r). (u, r - announce_remaining q)) (rem_q q)"
proof (cases "timeout_list q")
  case Nil
  then show ?thesis by (simp add: announce_end_def Let_def first_timeout_def sys_clock_set_timeout_def rem_q_def)
next
  case (Cons t ts)
  let ?a = "announce_remaining q"
  have "t \<notin> set ts" using timeout_q_okD(1) [OF assms] Cons by simp
  then have "rem_q (announce_end q) = (t, dticks q t - ?a) # rems (dticks q t - ?a) (dticks q) ts"
    using Cons by (simp add: announce_end_def Let_def first_timeout_def sys_clock_set_timeout_def rem_q_def)
  moreover have "rems (dticks q t - ?a) (dticks q) ts = map (\<lambda>(u, r). (u, r - ?a)) (rems (dticks q t) (dticks q) ts)"
    using rems_shift [of "dticks q t" "- ?a" "dticks q" ts] by simp
  ultimately show ?thesis using Cons by (simp add: rem_q_def)
qed

lemma announce_end_ok:
  assumes "timeout_q_ok q" "\<forall>p \<in> set (rem_q q). announce_remaining q < snd p" "0 \<le> announce_remaining q"
  shows "timeout_q_ok (announce_end q)" "\<forall>p \<in> set (rem_q (announce_end q)). 0 < snd p"
proof -
  note r = announce_end_rem_q [OF assms(1)]
  have "distinct (timeout_list (announce_end q))" using timeout_q_okD(1) [OF assms(1)] by (simp add: frame_simps)
  then show "timeout_q_ok (announce_end q)"
    using timeout_q_okD(2,4) [OF assms(1)] assms(2,3)
    by (intro timeout_q_okI) (force simp: r timeout_list_rem_q sorted_wrt_map case_prod_unfold)+
  show "\<forall>p \<in> set (rem_q (announce_end q)). 0 < snd p" using assms(2) by (auto simp: r)
qed

definition zero_count :: "'a timeout_q_scheme \<Rightarrow> nat" where
  "zero_count q = card {p \<in> set (rem_q q). snd p = 0}"

text \<open>What \<open>sys_clock_announce\<close> needs of the callbacks when they run for the first timeout: they keep the queue well formed, the tick
  count and the remaining ticks, and the timeouts they add lie in the future. \<open>inv\<close> is an invariant
  of the rest of the state; it survives the removal of timeouts.\<close>

locale timeout_callbacks =
  fixes cb :: "timeout_id \<Rightarrow> 'a timeout_q_scheme \<Rightarrow> 'a timeout_q_scheme" and inv :: "'a timeout_q_scheme \<Rightarrow> bool"
  assumes cb_ok: "timeout_q_ok q \<Longrightarrow> inv q \<Longrightarrow> first_timeout q = Some t \<Longrightarrow> timeout_q_ok (cb t (fire t q))"
    and cb_inv: "timeout_q_ok q \<Longrightarrow> inv q \<Longrightarrow> first_timeout q = Some t \<Longrightarrow> inv (cb t (fire t q))"
    and cb_remaining: "announce_remaining (cb t q) = announce_remaining q"
    and cb_tick: "curr_tick (cb t q) = curr_tick q"
    and cb_new: "timeout_q_ok q \<Longrightarrow> inv q \<Longrightarrow> first_timeout q = Some t \<Longrightarrow>
       p \<in> set (rem_q (cb t (fire t q))) \<Longrightarrow> p \<in> set (rem_q (fire t q)) \<or> 0 < snd p"
    and inv_frame: "inv q \<Longrightarrow> timeout_q.more q' = timeout_q.more q \<Longrightarrow> hw_elapsed q' = hw_elapsed q \<Longrightarrow>
       set (timeout_list q') \<subseteq> set (timeout_list q) \<Longrightarrow> timeout_q_ok q' \<Longrightarrow> inv q'"
begin

lemma turn_step:
  assumes "timeout_q_ok q" "inv q" "first_timeout q = Some t" "dticks q t \<le> announce_remaining q"
  shows "timeout_q_ok (announce_turn cb t q)" "inv (announce_turn cb t q)"
    "announce_remaining (announce_turn cb t q) = announce_remaining q - dticks q t" "0 \<le> dticks q t"
    "curr_tick (announce_turn cb t q) = curr_tick q + word_of_int (dticks q t)"
    "dticks q t = 0 \<Longrightarrow> zero_count (announce_turn cb t q) < zero_count q"
proof -
  from assms(1,3) obtain ts rest where l: "timeout_list q = t # ts" and r: "rem_q q = (t, dticks q t) # rest"
    and b: "0 \<le> dticks q t" by (rule first_rem)
  show ok: "timeout_q_ok (announce_turn cb t q)"
    using cb_ok [OF assms(1-3)] by (simp add: announce_turn_fire Let_def ok_cong [of "_\<lparr>announce_remaining := _\<rparr>"] frame_simps)
  show "inv (announce_turn cb t q)"
    using cb_inv [OF assms(1-3)] ok by (auto simp: announce_turn_fire Let_def intro: inv_frame)
  show "announce_remaining (announce_turn cb t q) = announce_remaining q - dticks q t" "0 \<le> dticks q t"
    "curr_tick (announce_turn cb t q) = curr_tick q + word_of_int (dticks q t)"
    using b by (simp_all add: announce_turn_fire Let_def cb_remaining cb_tick frame_simps)
  assume z: "dticks q t = 0"
  have new: "(t, 0) \<notin> set rest" using timeout_q_okD(1) [OF assms(1)] r by (force simp: timeout_list_rem_q)
  have "rem_q (fire t q) = rest" using fire_rem_q [OF assms(1) l] r z by simp
  then have "{p \<in> set (rem_q (announce_turn cb t q)). snd p = 0} \<subseteq> {p \<in> set rest. snd p = 0}"
    using cb_new [OF assms(1-3)] by (fastforce simp: announce_turn_fire Let_def frame_simps)
  moreover have "{p \<in> set (rem_q q). snd p = 0} = insert (t, 0) {p \<in> set rest. snd p = 0}" using r z by auto
  moreover have "(t, 0) \<notin> {p \<in> set rest. snd p = 0}" using new by simp
  ultimately show "zero_count (announce_turn cb t q) < zero_count q"
    unfolding zero_count_def by (simp add: card_insert_if less_Suc_eq_le card_mono)
qed

lemma announce_loop_returns:
  "timeout_q_ok q \<Longrightarrow> inv q \<Longrightarrow> 0 \<le> announce_remaining q \<Longrightarrow>
   \<exists>q'. announce_loop cb q = Some q' \<and> timeout_q_ok q' \<and> inv q' \<and> 0 \<le> announce_remaining q' \<and>
     curr_tick q' + word_of_int (announce_remaining q') = curr_tick q + word_of_int (announce_remaining q) \<and>
     (\<forall>p \<in> set (rem_q q'). announce_remaining q' < snd p)"
proof (induction "(nat (announce_remaining q), zero_count q)" arbitrary: q
    rule: wf_induct_rule [OF wf_lex_prod [OF wf_less wf_less]])
  case (1 q)
  consider "first_timeout q = None" | t where "first_timeout q = Some t" "announce_remaining q < dticks q t"
    | t where "first_timeout q = Some t" "dticks q t \<le> announce_remaining q"
    by (metis not_le option.exhaust)
  then show ?case
  proof cases
    case 1
    then have "rem_q q = []" by (simp add: first_timeout_def rem_q_def split: list.splits)
    with 1 "1.prems" show ?thesis by (subst announce_loop.simps) auto
  next
    case (2 t)
    from "1.prems"(1) 2(1) obtain ts rest where "rem_q q = (t, dticks q t) # rest"
      "\<forall>p \<in> set rest. dticks q t \<le> snd p" by (rule first_rem)
    with 2 "1.prems" show ?thesis by (subst announce_loop.simps) auto
  next
    case (3 t)
    note st = turn_step [OF "1.prems"(1,2) 3]
    have "((nat (announce_remaining (announce_turn cb t q)), zero_count (announce_turn cb t q)),
           (nat (announce_remaining q), zero_count q)) \<in> {(x, y). x < y} <*lex*> {(x, y). x < y}"
      using st(3,4,6) 3(2) "1.prems"(3) by (cases "dticks q t = 0") auto
    from "1.hyps" [OF this st(1,2)] 3(2) st(3,5)
    have "\<exists>q'. announce_loop cb (announce_turn cb t q) = Some q' \<and> timeout_q_ok q' \<and> inv q' \<and> 0 \<le> announce_remaining q' \<and>
     curr_tick q' + word_of_int (announce_remaining q') = curr_tick q + word_of_int (announce_remaining q) \<and>
     (\<forall>p \<in> set (rem_q q'). announce_remaining q' < snd p)"
      by auto
    then show ?thesis using 3 by (subst announce_loop.simps) auto
  qed
qed

lemma announce_total:
  assumes "timeout_q_ok q" "inv q" "0 \<le> ticks"
  shows "\<exists>q'. sys_clock_announce cb tslice ticks q = Some (tslice q') \<and> timeout_q_ok q' \<and> inv q' \<and>
     announce_remaining q' = 0 \<and> curr_tick q' = curr_tick q + word_of_int ticks \<and>
     (\<forall>p \<in> set (rem_q q'). 0 < snd p)"
proof -
  let ?q = "q\<lparr>announce_remaining := ticks\<rparr>"
  have ok: "timeout_q_ok ?q" using assms(1) by (simp add: ok_cong [of ?q q] frame_simps)
  moreover have "inv ?q" using assms(2) by (rule inv_frame) (simp_all add: ok)
  ultimately obtain q1 where l: "announce_loop cb ?q = Some q1" "timeout_q_ok q1" "inv q1" "0 \<le> announce_remaining q1"
    "curr_tick q1 + word_of_int (announce_remaining q1) = curr_tick q + word_of_int ticks"
    "\<forall>p \<in> set (rem_q q1). announce_remaining q1 < snd p"
    using announce_loop_returns [of ?q] assms(3) by auto
  have "inv (announce_end q1)"
    using l(3) by (rule inv_frame) (simp_all add: frame_simps announce_end_ok(1) [OF l(2,6,4)])
  then show ?thesis using announce_end_ok [OF l(2,6,4)] l(1,5)
    by (intro exI [of _ "announce_end q1"]) (simp add: sys_clock_announce_def frame_simps)
qed

end

section \<open>Which timeouts fire, and when\<close>

text \<open>Callbacks that only record which timeout fired, and the tick count at that moment.\<close>

record timeout_log = timeout_q +
  fired :: "(timeout_id \<times> u64) list"

definition log_cb :: "timeout_id \<Rightarrow> timeout_log \<Rightarrow> timeout_log" where
  "log_cb t q = q\<lparr>fired := fired q @ [(t, curr_tick q)]\<rparr>"

lemma log_cb_rem_q [frame_simps]: "rem_q (log_cb t q) = rem_q q" "rem_q (q\<lparr>fired := f\<rparr>) = rem_q q"
  by (simp_all add: log_cb_def rem_q_def)

lemma fire_fired [frame_simps]: "fired (fire t q) = fired q"
  by (simp add: fire_def remove_timeout_def Let_def next_of_def split: option.splits)

lemma announce_log:
  "timeout_q_ok q \<Longrightarrow> 0 \<le> announce_remaining q \<Longrightarrow>
   \<exists>q'. announce_loop log_cb q = Some q' \<and> timeout_q_ok q' \<and> 0 \<le> announce_remaining q' \<and>
     fired q' = fired q @ map (\<lambda>(t, r). (t, curr_tick q + word_of_int r))
                              (filter (\<lambda>p. snd p \<le> announce_remaining q) (rem_q q)) \<and>
     map (\<lambda>(u, r). (u, r - announce_remaining q')) (rem_q q') =
       map (\<lambda>(u, r). (u, r - announce_remaining q)) (filter (\<lambda>p. \<not> snd p \<le> announce_remaining q) (rem_q q)) \<and>
     curr_tick q' + word_of_int (announce_remaining q') = curr_tick q + word_of_int (announce_remaining q) \<and>
     (\<forall>p \<in> set (rem_q q'). announce_remaining q' < snd p)"
proof (induction "length (timeout_list q)" arbitrary: q)
  case 0
  then show ?case by (subst announce_loop.simps) (simp add: first_timeout_def rem_q_def)
next
  case (Suc n)
  obtain t where t: "first_timeout q = Some t"
    using Suc.hyps(2) by (cases "timeout_list q") (auto simp: first_timeout_def)
  from Suc.prems(1) t obtain ts rest where l: "timeout_list q = t # ts" and r: "rem_q q = (t, dticks q t) # rest"
    and b: "0 \<le> dticks q t" "\<forall>p \<in> set rest. dticks q t \<le> snd p" by (rule first_rem)
  show ?case
  proof (cases "dticks q t \<le> announce_remaining q")
    case False
    then have "filter (\<lambda>p. \<not> snd p \<le> announce_remaining q) rest = rest" using b(2) by (intro filter_True) auto
    with False show ?thesis using Suc.prems t r b by (subst announce_loop.simps) (auto simp: filter_empty_conv)
  next
    case True
    let ?q = "announce_turn log_cb t q"
    have rq: "rem_q ?q = map (\<lambda>(u, r). (u, r - dticks q t)) rest"
      using fire_rem_q [OF Suc.prems(1) l] r by (simp add: announce_turn_fire Let_def frame_simps)
    have ok: "timeout_q_ok ?q" using fire_ok(1) [OF Suc.prems(1) t]
      by (subst ok_cong [of _ "fire t q"]) (simp_all add: announce_turn_fire Let_def frame_simps)
    have f: "announce_remaining ?q = announce_remaining q - dticks q t" "curr_tick ?q = curr_tick q + word_of_int (dticks q t)"
      "fired ?q = fired q @ [(t, curr_tick q + word_of_int (dticks q t))]"
      by (simp_all add: announce_turn_fire Let_def log_cb_def frame_simps)
    have len: "n = length (timeout_list ?q)" using Suc.hyps(2) l rq arg_cong [OF r, of "map fst"]
      by (simp add: timeout_list_rem_q)
    have step: "announce_loop log_cb q = announce_loop log_cb ?q" using t True by (subst announce_loop.simps) simp
    show ?thesis using Suc.hyps(1) [OF len ok] True f b(1) unfolding step
      by (simp add: rq r filter_map comp_def case_prod_unfold)
  qed
qed

section \<open>Timepoints\<close>

lemma u64_int_id: "0 \<le> x \<Longrightarrow> x < 2 ^ 64 \<Longrightarrow> uint (word_of_int x :: u64) = x"
  by (simp add: uint_word_of_int)

lemma timepoint_round_trip:
  assumes "0 < n" "0 \<le> sys_clock_tick_get q" "sys_clock_tick_get q + n < 2 ^ 63"
  shows "sys_timepoint_timeout q (sys_timepoint_calc q n) = n"
proof -
  let ?now = "sys_clock_tick_get q"
  have tp: "sys_timepoint_calc q n = word_of_int (?now + n)"
    using assms(1) by (simp add: sys_timepoint_calc_def K_FOREVER_def K_NO_WAIT_def Z_TICK_ABS_def max_def)
  have u: "uint (word_of_int (?now + n) :: u64) = ?now + n"
    by (rule u64_int_id) (use assms in simp_all)
  have u': "uint (word_of_int ?now :: u64) = ?now"
    by (rule u64_int_id) (use assms in simp_all)
  have ne: "(word_of_int (?now + n) :: u64) \<noteq> 0"
  proof
    assume "(word_of_int (?now + n) :: u64) = 0"
    with u have "?now + n = uint (0 :: u64)" by (simp only:)
    then have "?now + n = 0" by simp
    with assms show False by linarith
  qed
  have nf: "(word_of_int (?now + n) :: u64) \<noteq> - 1"
  proof
    assume "(word_of_int (?now + n) :: u64) = - 1"
    with u have "?now + n = uint (- 1 :: u64)" by (simp only:)
    with assms(3) show False by (simp add: unsigned_minus_1_eq_mask mask_eq_exp_minus_1)
  qed
  have gt: "(word_of_int ?now :: u64) < word_of_int (?now + n)" using u u' assms(1) by (simp only: word_less_def)
  have "sint (word_of_int (?now + n) - word_of_int ?now :: u64) = n"
    using i64_id [of n] assms by (simp add: i64_def)
  then show ?thesis using ne nf gt unfolding tp sys_timepoint_timeout_def by (simp only: if_False Let_def if_True)
qed

section \<open>Properties\<close>

text \<open>C8: \<open>z_add_timeout\<close> inserts the timeout behind every timeout that expires no later and in front of
  every later one, at the requested distance from now, and leaves the remaining ticks of every other
  timeout unchanged; the delta-coded queue stays well formed.\<close>

theorem z_add_timeout_inserts:
  assumes "timeout_q_ok q" and "to \<notin> set (timeout_list q)" and "n \<noteq> K_FOREVER" and "valid_timeout q n"
  shows "rem_q (z_add_timeout to fn n q) =
       ins_before (\<lambda>p. timeout_dticks q n < snd p) (to, timeout_dticks q n) (rem_q q) \<and>
     timeout_q_ok (z_add_timeout to fn n q) \<and> to_fn (z_add_timeout to fn n q) to = fn \<and>
     (0 \<le> n \<longrightarrow> timeout_dticks q n = n + 1 + elapsed q) \<and>
     (n < - 1 \<longrightarrow> timeout_dticks q n = max 1 (sint (word_of_int (Z_TICK_ABS n) - curr_tick q)))"
proof -
  have "to_fn (z_add_timeout to fn n q) to = fn"
    using assms(3) by (simp add: z_add_timeout_def Let_def sys_clock_set_timeout_def split: prod.splits)
  then show ?thesis using assms add_timeout_rem_q [OF assms(1-3)] add_timeout_ok [OF assms(1,2,4)]
    by (auto simp: timeout_dticks_def valid_timeout_def Z_TICK_ABS_def i64_id)
qed

theorem z_add_timeout_inserts_witness:
  "rem_q (z_add_timeout SliceTimeout Slice_timeout 4 \<lparr>curr_tick = 100, timeout_list = [ThreadTimeout 1, ThreadTimeout 2],
     dticks = (\<lambda>_. 0)(ThreadTimeout 1 := 3, ThreadTimeout 2 := 4), to_fn = \<lambda>_. Z_thread_timeout,
     announce_remaining = 0, hw_elapsed = 0, hw_timeout = 3\<rparr>) =
   [(ThreadTimeout 1, 3), (SliceTimeout, 5), (ThreadTimeout 2, 7)]"
proof -
  let ?q = "\<lparr>curr_tick = 100, timeout_list = [ThreadTimeout 1, ThreadTimeout 2],
     dticks = (\<lambda>_. 0)(ThreadTimeout 1 := 3, ThreadTimeout 2 := 4), to_fn = \<lambda>_. Z_thread_timeout,
     announce_remaining = 0, hw_elapsed = 0, hw_timeout = 3\<rparr> :: timeout_q"
  have "timeout_q_ok ?q" "valid_timeout ?q 4" "timeout_dticks ?q 4 = 5"
    by (simp_all add: timeout_q_ok_def rem_q_def valid_timeout_def elapsed_def timeout_dticks_def Z_TICK_ABS_def i64_id)
  with z_add_timeout_inserts [of ?q SliceTimeout 4 Slice_timeout] show ?thesis
    by (simp add: rem_q_def K_FOREVER_def)
qed

text \<open>\<open>z_abort_timeout\<close> removes a pending timeout and returns 0, or returns \<open>-EINVAL\<close> for one that is
  not pending; no other timeout changes its deadline.\<close>

theorem z_abort_timeout_removes:
  assumes "timeout_q_ok q"
  shows "rem_q (snd (z_abort_timeout to q)) = filter (\<lambda>p. fst p \<noteq> to) (rem_q q) \<and>
     fst (z_abort_timeout to q) = (if to \<in> set (timeout_list q) then 0 else - EINVAL) \<and>
     timeout_q_ok (snd (z_abort_timeout to q))"
  using abort_timeout_rem_q [OF assms] abort_timeout_ok [OF assms] by simp

theorem z_abort_timeout_removes_witness:
  "rem_q (snd (z_abort_timeout (ThreadTimeout 1) \<lparr>curr_tick = 100, timeout_list = [ThreadTimeout 1, ThreadTimeout 2],
     dticks = (\<lambda>_. 0)(ThreadTimeout 1 := 3, ThreadTimeout 2 := 4), to_fn = \<lambda>_. Z_thread_timeout,
     announce_remaining = 0, hw_elapsed = 0, hw_timeout = 3\<rparr>)) = [(ThreadTimeout 2, 7)]"
proof -
  let ?q = "\<lparr>curr_tick = 100, timeout_list = [ThreadTimeout 1, ThreadTimeout 2],
     dticks = (\<lambda>_. 0)(ThreadTimeout 1 := 3, ThreadTimeout 2 := 4), to_fn = \<lambda>_. Z_thread_timeout,
     announce_remaining = 0, hw_elapsed = 0, hw_timeout = 3\<rparr> :: timeout_q"
  have "timeout_q_ok ?q" by (simp add: timeout_q_ok_def rem_q_def)
  with z_abort_timeout_removes [of ?q "ThreadTimeout 1"] show ?thesis by (simp add: rem_q_def)
qed



end
