(* ===== verification/Math_Extras.thy ===== *)
theory Math_Extras
  imports Zephyr_Prelude
begin

text \<open>
  Overflow-checked arithmetic and bit counting (\<open>include/zephyr/sys/math_extras_impl.h\<close>, the portable
  versions that do not use compiler builtins). An operation returns its flag and the value it stores
  in \<open>*result\<close>. \<open>size_t\<close> has 32 bits.
\<close>

type_synonym u16 = "16 word"

section \<open>Operations\<close>

definition u16_add_overflow :: "u16 \<Rightarrow> u16 \<Rightarrow> bool \<times> u16" where
  "u16_add_overflow a b = (let c = a + b in (c < a, c))"

definition u32_add_overflow :: "u32 \<Rightarrow> u32 \<Rightarrow> bool \<times> u32" where
  "u32_add_overflow a b = (let c = a + b in (c < a, c))"

definition u64_add_overflow :: "u64 \<Rightarrow> u64 \<Rightarrow> bool \<times> u64" where
  "u64_add_overflow a b = (let c = a + b in (c < a, c))"

definition size_add_overflow :: "u32 \<Rightarrow> u32 \<Rightarrow> bool \<times> u32" where
  "size_add_overflow a b = (let c = a + b in (c < a, c))"

definition u32_mul_overflow :: "u32 \<Rightarrow> u32 \<Rightarrow> bool \<times> u32" where
  "u32_mul_overflow a b = (let c = a * b in (a \<noteq> 0 \<and> c div a \<noteq> b, c))"

definition u64_mul_overflow :: "u64 \<Rightarrow> u64 \<Rightarrow> bool \<times> u64" where
  "u64_mul_overflow a b = (let c = a * b in (a \<noteq> 0 \<and> c div a \<noteq> b, c))"

definition size_mul_overflow :: "u32 \<Rightarrow> u32 \<Rightarrow> bool \<times> u32" where
  "size_mul_overflow a b = (let c = a * b in (a \<noteq> 0 \<and> c div a \<noteq> b, c))"

text \<open>The loops of the bit counts; \<open>n\<close> is the number of turns that are left, \<open>32 - b\<close> in the code.\<close>

fun clz_loop :: "nat \<Rightarrow> u32 \<Rightarrow> nat \<Rightarrow> nat" where
  "clz_loop 0 x b = b"
| "clz_loop (Suc n) x b = (if drop_bit 31 x = 0 then clz_loop n (push_bit 1 x) (Suc b) else b)"

definition u32_count_leading_zeros :: "u32 \<Rightarrow> nat" where
  "u32_count_leading_zeros x = clz_loop 32 x 0"

definition u64_count_leading_zeros :: "u64 \<Rightarrow> nat" where
  "u64_count_leading_zeros x =
     (if x = ucast (ucast x :: u32) then 32 + u32_count_leading_zeros (ucast x)
      else u32_count_leading_zeros (ucast (drop_bit 32 x)))"

fun ctz_loop :: "nat \<Rightarrow> u32 \<Rightarrow> nat \<Rightarrow> nat" where
  "ctz_loop 0 x b = b"
| "ctz_loop (Suc n) x b = (if x AND 1 = 0 then ctz_loop n (drop_bit 1 x) (Suc b) else b)"

definition u32_count_trailing_zeros :: "u32 \<Rightarrow> nat" where
  "u32_count_trailing_zeros x = ctz_loop 32 x 0"

definition u64_count_trailing_zeros :: "u64 \<Rightarrow> nat" where
  "u64_count_trailing_zeros x =
     (if (ucast x :: u32) \<noteq> 0 then u32_count_trailing_zeros (ucast x)
      else 32 + u32_count_trailing_zeros (ucast (drop_bit 32 x)))"

section \<open>Overflow\<close>

lemma add_wraps:
  fixes a b :: "'a::len word"
  shows "a + b < a \<longleftrightarrow> 2 ^ LENGTH('a) \<le> unat a + unat b"
proof -
  have l: "unat a < 2 ^ LENGTH('a)" "unat b < 2 ^ LENGTH('a)" by simp_all
  show ?thesis
  proof (cases "unat a + unat b < 2 ^ LENGTH('a)")
    case True
    then show ?thesis by (simp add: word_less_nat_alt unat_word_ariths)
  next
    case False
    moreover have "unat a + unat b - 2 ^ LENGTH('a) < 2 ^ LENGTH('a)" using l by linarith
    ultimately have "(unat a + unat b) mod 2 ^ LENGTH('a) = unat a + unat b - 2 ^ LENGTH('a)" by (simp add: le_mod_geq)
    moreover have "unat a + unat b - 2 ^ LENGTH('a) < unat a" using False l by linarith
    ultimately show ?thesis using False by (simp add: word_less_nat_alt unat_word_ariths)
  qed
qed

lemma mul_wraps:
  fixes a b :: "'a::len word"
  shows "(a \<noteq> 0 \<and> a * b div a \<noteq> b) \<longleftrightarrow> 2 ^ LENGTH('a) \<le> unat a * unat b"
proof (cases "unat a * unat b < 2 ^ LENGTH('a)")
  case True
  then have "unat (a * b) = unat a * unat b" by (simp add: unat_word_ariths)
  then have "a \<noteq> 0 \<Longrightarrow> a * b div a = b" by (simp add: word_unat_eq_iff unat_div)
  with True show ?thesis by auto
next
  case False
  then have a: "0 < unat a" by (cases "unat a") auto
  have "unat (a * b) < unat b * unat a" using False
    by (metis mod_less_divisor mult.commute not_less order_less_le_trans unat_word_ariths(2) zero_less_numeral zero_less_power)
  then have "unat (a * b) div unat a < unat b" using a by (simp add: div_less_iff_less_mult)
  then have "a * b div a \<noteq> b" by (auto simp: word_unat_eq_iff unat_div)
  with False a show ?thesis by (auto simp: unat_gt_0)
qed

section \<open>Bit counts\<close>

lemma and_1_eq_0: "(x AND 1 = 0) = (\<not> bit x 0)" for x :: u32
  using and_bit_mask_iff [of x 0] by simp

lemma ctz_loop_spec:
  "(\<exists>i<n. bit x i) \<Longrightarrow> \<exists>i<n. ctz_loop n x b = b + i \<and> bit x i \<and> (\<forall>j<i. \<not> bit x j)"
proof (induction n arbitrary: x b)
  case 0
  then show ?case by simp
next
  case (Suc n)
  show ?case
  proof (cases "bit x 0")
    case True
    then show ?thesis by (auto simp: and_1_eq_0)
  next
    case False
    with Suc.prems obtain i where "i < n" "bit x (Suc i)" by (metis less_Suc_eq_0_disj)
    then have "\<exists>i<n. bit (drop_bit 1 x) i" by (auto simp: bit_drop_bit_eq)
    from Suc.IH [OF this, of "Suc b"] obtain i where i: "i < n" "ctz_loop n (drop_bit 1 x) (Suc b) = Suc b + i"
      "bit (drop_bit 1 x) i" "\<forall>j<i. \<not> bit (drop_bit 1 x) j" by auto
    have "\<not> bit x j" if "j < Suc i" for j using that i(4) False by (cases j) (auto simp: bit_drop_bit_eq)
    with i False show ?thesis by (intro exI [of _ "Suc i"]) (auto simp: and_1_eq_0 bit_drop_bit_eq)
  qed
qed

text \<open>The trailing zeros of a non-zero word count the position of its lowest bit.\<close>

lemma u32_ctz_spec:
  assumes "x \<noteq> 0"
  shows "bit x (u32_count_trailing_zeros x)" "u32_count_trailing_zeros x < 32"
    "\<And>j. j < u32_count_trailing_zeros x \<Longrightarrow> \<not> bit x j"
proof -
  obtain i where "bit x i" using assms bit_eq_iff [of x 0] by auto
  moreover from this have "i < 32" using bit_imp_le_length [of x i] by simp
  ultimately have "\<exists>i<32. bit x i" by auto
  from ctz_loop_spec [OF this, of 0] show "bit x (u32_count_trailing_zeros x)" "u32_count_trailing_zeros x < 32"
    "\<And>j. j < u32_count_trailing_zeros x \<Longrightarrow> \<not> bit x j" by (auto simp: u32_count_trailing_zeros_def)
qed

lemma top_bit_clear: "(drop_bit 31 x = 0) = (\<not> bit x 31)" for x :: u32
proof -
  have n: "\<not> bit x (31 + i)" if "0 < i" for i using that bit_imp_le_length [of x "31 + i"] by auto
  have "bit (drop_bit 31 x) 0 = bit x 31" by (simp only: bit_drop_bit_eq) simp
  moreover have "drop_bit 31 x = 0" if "\<not> bit x 31"
    using that n by (intro bit_word_eqI) (metis add.right_neutral bit_0_eq bit_drop_bit_eq bot_apply bot_bool_def comp_apply gr_zeroI)
  moreover have "\<not> bit (0 :: u32) 0" by simp
  ultimately show ?thesis by metis
qed

lemma clz_loop_spec:
  "(\<exists>i<n. bit x (31 - i)) \<Longrightarrow> n \<le> 32 \<Longrightarrow>
     \<exists>i<n. clz_loop n x b = b + i \<and> bit x (31 - i) \<and> (\<forall>j<i. \<not> bit x (31 - j))"
proof (induction n arbitrary: x b)
  case 0
  then show ?case by simp
next
  case (Suc n)
  have sh: "bit (push_bit 1 x) (31 - i) = bit x (31 - Suc i)" if "i < n" for i
  proof -
    have "31 - i - 1 = 31 - Suc i" "1 \<le> 31 - i" "31 - i < 32" using that Suc.prems(2) by auto
    then show ?thesis by (simp only: bit_push_bit_iff) simp
  qed
  show ?case
  proof (cases "bit x 31")
    case True
    then show ?thesis by (auto simp: top_bit_clear)
  next
    case False
    with Suc.prems obtain i where "i < n" "bit x (31 - Suc i)" by (metis less_Suc_eq_0_disj diff_zero)
    then have "\<exists>i<n. bit (push_bit 1 x) (31 - i)" using sh by auto
    from Suc.IH [OF this, of "Suc b"] Suc.prems(2) obtain i where i: "i < n" "clz_loop n (push_bit 1 x) (Suc b) = Suc b + i"
      "bit (push_bit 1 x) (31 - i)" "\<forall>j<i. \<not> bit (push_bit 1 x) (31 - j)" by auto
    have "\<not> bit x (31 - j)" if "j < Suc i" for j using that i(1,4) sh False by (cases j) auto
    with i sh False show ?thesis by (intro exI [of _ "Suc i"]) (auto simp: top_bit_clear)
  qed
qed

lemma zero_counts: "u32_count_leading_zeros 0 = 32" "u32_count_trailing_zeros 0 = 32"
  by (simp_all add: u32_count_leading_zeros_def u32_count_trailing_zeros_def numeral_eq_Suc)

lemma u32_clz_spec:
  assumes "x \<noteq> 0"
  shows "bit x (31 - u32_count_leading_zeros x)" "u32_count_leading_zeros x < 32"
    "\<And>j. 31 - u32_count_leading_zeros x < j \<Longrightarrow> \<not> bit x j"
proof -
  obtain i where "bit x i" using assms bit_eq_iff [of x 0] by auto
  moreover from this have "i < 32" using bit_imp_le_length [of x i] by simp
  ultimately have "\<exists>i<32. bit x (31 - i)" by (intro exI [of _ "31 - i"]) auto
  from clz_loop_spec [OF this, of 0] have c: "bit x (31 - u32_count_leading_zeros x)" "u32_count_leading_zeros x < 32"
    "\<forall>j<u32_count_leading_zeros x. \<not> bit x (31 - j)" by (auto simp: u32_count_leading_zeros_def)
  show "bit x (31 - u32_count_leading_zeros x)" "u32_count_leading_zeros x < 32" by fact+
  show "\<not> bit x j" if "31 - u32_count_leading_zeros x < j" for j
  proof (cases "j < 32")
    case True
    then have "31 - j < u32_count_leading_zeros x" "31 - (31 - j) = j" using c(2) that by auto
    with c(3) show ?thesis by metis
  qed (use bit_imp_le_length [of x j] in auto)
qed

text \<open>The 64-bit counts look at one half of the word.\<close>

lemma halves: "bit (ucast x :: u32) i = (i < 32 \<and> bit x i)" "bit (ucast (drop_bit 32 x) :: u32) i = (i < 32 \<and> bit x (32 + i))" for x :: u64
  by (simp_all add: bit_simps)

lemma no_high_half: "(x = ucast (ucast x :: u32)) = (\<forall>i\<ge>32. \<not> bit x i)" for x :: u64
proof
  assume "x = ucast (ucast x :: u32)"
  then show "\<forall>i\<ge>32. \<not> bit x i" by (metis bit_unsigned_iff halves(1) not_less)
next
  assume "\<forall>i\<ge>32. \<not> bit x i"
  then show "x = ucast (ucast x :: u32)" by (intro bit_word_eqI) (simp add: bit_simps, meson not_less)
qed

lemma half_nonzero: "((ucast x :: u32) \<noteq> 0) = (\<exists>i<32. bit x i)" "((ucast (drop_bit 32 x) :: u32) \<noteq> 0) = (\<exists>i<32. bit x (32 + i))" for x :: u64
  using bit_eq_iff [of "ucast x :: u32" 0] bit_eq_iff [of "ucast (drop_bit 32 x) :: u32" 0] by (auto simp: halves bit_drop_bit_eq)

lemma u64_ctz_spec:
  assumes "x \<noteq> 0"
  shows "bit x (u64_count_trailing_zeros x) \<and> (\<forall>j<u64_count_trailing_zeros x. \<not> bit x j)"
proof (cases "(ucast x :: u32) = 0")
  case False
  from u32_ctz_spec [OF False] show ?thesis using False by (auto simp: u64_count_trailing_zeros_def halves bit_drop_bit_eq)
next
  case True
  then have lo: "\<And>i. i < 32 \<Longrightarrow> \<not> bit x i" using half_nonzero(1) [of x] by blast
  obtain i where i: "bit x i" using assms bit_eq_iff [of x 0] by auto
  then have "32 \<le> i" "i < 64" using lo [of i] bit_imp_le_length [OF i] by (auto simp: not_less [symmetric])
  then have "(ucast (drop_bit 32 x) :: u32) \<noteq> 0" using i half_nonzero(2) [of x] by (auto intro!: exI [of _ "i - 32"])
  note s = u32_ctz_spec [OF this]
  have "\<not> bit x j" if "j < 32 + u32_count_trailing_zeros (ucast (drop_bit 32 x))" for j
    using that lo [of j] s(2) s(3) [of "j - 32"] by (cases "j < 32") (auto simp: halves bit_drop_bit_eq)
  with True s show ?thesis by (auto simp: u64_count_trailing_zeros_def halves bit_drop_bit_eq)
qed

lemma u64_clz_spec:
  assumes "x \<noteq> 0"
  shows "bit x (63 - u64_count_leading_zeros x) \<and> (\<forall>j>63 - u64_count_leading_zeros x. \<not> bit x j)"
proof (cases "x = ucast (ucast x :: u32)")
  case True
  then have hi: "\<And>i. 32 \<le> i \<Longrightarrow> \<not> bit x i" using no_high_half [of x] by blast
  have nz: "(ucast x :: u32) \<noteq> 0" using True assms by auto
  note s = u32_clz_spec [OF nz]
  have e: "63 - (32 + u32_count_leading_zeros (ucast x)) = 31 - u32_count_leading_zeros (ucast x :: u32)" by simp
  have "\<not> bit x j" if "31 - u32_count_leading_zeros (ucast x :: u32) < j" for j
    using s(3) [OF that] hi [of j] by (cases "j < 32") (auto simp: halves bit_drop_bit_eq)
  moreover have "bit x (31 - u32_count_leading_zeros (ucast x :: u32))" using s(1) by (simp add: halves bit_drop_bit_eq)
  moreover have "u64_count_leading_zeros x = 32 + u32_count_leading_zeros (ucast x)"
    using True unfolding u64_count_leading_zeros_def by (rule if_P)
  ultimately show ?thesis by (simp add: e)
next
  case False
  then obtain i where i: "32 \<le> i" "bit x i" using no_high_half [of x] by blast
  then have "i < 64" using bit_imp_le_length [OF i(2)] by auto
  then have "(ucast (drop_bit 32 x) :: u32) \<noteq> 0" using i half_nonzero(2) [of x] by (auto intro!: exI [of _ "i - 32"])
  note s = u32_clz_spec [OF this]
  have e: "63 - u32_count_leading_zeros (ucast (drop_bit 32 x)) = 32 + (31 - u32_count_leading_zeros (ucast (drop_bit 32 x) :: u32))"
    using s(2) by simp
  have "\<not> bit x j" if "32 + (31 - u32_count_leading_zeros (ucast (drop_bit 32 x) :: u32)) < j" for j
  proof
    assume b: "bit x j"
    then have "j < 64" using bit_imp_le_length [OF b] by simp
    with that have "31 - u32_count_leading_zeros (ucast (drop_bit 32 x) :: u32) < j - 32" "j - 32 < 32" "32 + (j - 32) = j" by linarith+
    with s(3) [of "j - 32"] b show False by (simp add: halves bit_drop_bit_eq)
  qed
  moreover have "u64_count_leading_zeros x = u32_count_leading_zeros (ucast (drop_bit 32 x))"
    using False unfolding u64_count_leading_zeros_def by (rule if_not_P)
  ultimately show ?thesis using s(1) by (simp add: e halves bit_drop_bit_eq)
qed

section \<open>Properties\<close>


text \<open>The bit counts find the highest and the lowest set bit; of zero they are the width.\<close>

theorem bit_counts_exact:
  fixes x :: u32 and y :: u64
  shows "(if x = 0 then u32_count_leading_zeros x = 32 \<and> u32_count_trailing_zeros x = 32
    else bit x (31 - u32_count_leading_zeros x) \<and> (\<forall>j>31 - u32_count_leading_zeros x. \<not> bit x j) \<and>
      bit x (u32_count_trailing_zeros x) \<and> (\<forall>j<u32_count_trailing_zeros x. \<not> bit x j)) \<and>
   (if y = 0 then u64_count_leading_zeros y = 64 \<and> u64_count_trailing_zeros y = 64
    else bit y (63 - u64_count_leading_zeros y) \<and> (\<forall>j>63 - u64_count_leading_zeros y. \<not> bit y j) \<and>
      bit y (u64_count_trailing_zeros y) \<and> (\<forall>j<u64_count_trailing_zeros y. \<not> bit y j))"
  using u32_clz_spec [of x] u32_ctz_spec [of x] u64_clz_spec [of y] u64_ctz_spec [of y] zero_counts
  by (auto simp: u64_count_leading_zeros_def u64_count_trailing_zeros_def)

theorem bit_counts_exact_witness:
  "bit (12 :: u32) (31 - u32_count_leading_zeros 12) \<and> bit (12 :: u64) (u64_count_trailing_zeros 12) \<and>
   u64_count_leading_zeros 0 = 64"
  using bit_counts_exact [of 12 12] bit_counts_exact [of 0 0] by simp

end
