(* ===== verification/Priq.thy ===== *)
theory Priq
  imports Math_Extras Dlist "HOL-Library.Monad_Syntax"
begin

text \<open>
  The priority queues of \<open>kernel/include/priority_q.h\<close>. A thread is identified by a number, and the
  priority of the threads is a parameter \<open>pr\<close> (the field \<open>base.prio\<close>; a smaller number is a higher
  priority). The ``dumb'' queue is a sorted doubly linked list: it is modelled on the heap of theory
  \<open>Dlist\<close> and as the list of its threads, and the first is shown to implement the second. The
  multi-queue has one list per priority, a bitmap of the non-empty ones and, on one CPU, a cached
  index. The locale \<open>run_queue\<close> is the contract of the scheduler with its ready queue; both queues
  satisfy it.
\<close>

section \<open>Comparison\<close>

type_synonym tid = nat

definition z_sched_prio_cmp :: "('t \<Rightarrow> int) \<Rightarrow> 't \<Rightarrow> 't \<Rightarrow> int" where
  "z_sched_prio_cmp pr t1 t2 = (if pr t1 \<noteq> pr t2 then pr t2 - pr t1 else 0)"

lemma prio_cmp_pos [simp]: "z_sched_prio_cmp pr t u > 0 \<longleftrightarrow> pr t < pr u"
  by (simp add: z_sched_prio_cmp_def)

interpretation prio_order: strict_weak_order "\<lambda>t u. pr t < (pr u :: int)" for pr
  by unfold_locales auto

section \<open>The sorted list\<close>

definition z_priq_dumb_add :: "('t \<Rightarrow> int) \<Rightarrow> 't \<Rightarrow> 't list \<Rightarrow> 't list" where
  "z_priq_dumb_add pr t q = ins_before (\<lambda>u. z_sched_prio_cmp pr t u > 0) t q"

definition z_priq_dumb_remove :: "'t \<Rightarrow> 't list \<Rightarrow> 't list" where
  "z_priq_dumb_remove t q = remove1 t q"

definition z_priq_dumb_best :: "'t list \<Rightarrow> 't option" where
  "z_priq_dumb_best q = (case q of [] \<Rightarrow> None | t # _ \<Rightarrow> Some t)"

fun z_priq_dumb_yield :: "('t \<Rightarrow> int) \<Rightarrow> 't \<Rightarrow> 't list \<Rightarrow> 't list" where
  "z_priq_dumb_yield pr c [] = [c]"
| "z_priq_dumb_yield pr c (t # q) =
     (if t = c then ins_before (\<lambda>u. z_sched_prio_cmp pr c u > 0) c q else t # z_priq_dumb_yield pr c q)"

text \<open>The same operations on the pointers.\<close>

definition dumb_add_ptr :: "(addr \<Rightarrow> int) \<Rightarrow> addr \<Rightarrow> addr \<Rightarrow> dheap \<Rightarrow> dheap option" where
  "dumb_add_ptr pr pq t h =
     do { n \<leftarrow> dlist_find pq (\<lambda>u. z_sched_prio_cmp pr t u > 0) (sys_dlist_peek_head pq h) h;
          Some (if n \<noteq> NULL then sys_dlist_insert n t h else sys_dlist_append pq t h) }"

definition dumb_remove_ptr :: "addr \<Rightarrow> addr \<Rightarrow> dheap \<Rightarrow> dheap" where
  "dumb_remove_ptr pq t h = sys_dlist_remove t h"

definition dumb_yield_ptr :: "(addr \<Rightarrow> int) \<Rightarrow> addr \<Rightarrow> addr \<Rightarrow> dheap \<Rightarrow> dheap option" where
  "dumb_yield_ptr pr pq c h =
     do { let n = sys_dlist_peek_next_no_check pq c h;
          let h1 = sys_dlist_dequeue c h;
          m \<leftarrow> dlist_find pq (\<lambda>u. z_sched_prio_cmp pr c u > 0) n h1;
          Some (if m \<noteq> NULL then sys_dlist_insert m c h1 else sys_dlist_append pq c h1) }"

definition dumb_best_ptr :: "addr \<Rightarrow> dheap \<Rightarrow> addr" where
  "dumb_best_ptr pq h = sys_dlist_peek_head pq h"

lemma yield_split: "c \<notin> set xs \<Longrightarrow> z_priq_dumb_yield pr c (xs @ c # ys) = xs @ z_priq_dumb_add pr c ys"
  by (induction xs) (auto simp: z_priq_dumb_add_def)

lemma is_dlist_find_insert:
  assumes h: "is_dlist h l (xs @ ys)" and n: "n \<notin> set (l # xs @ ys)" "n \<noteq> NULL"
  shows "\<exists>m. dlist_find l cond (case ys of [] \<Rightarrow> NULL | y # _ \<Rightarrow> y) h = Some m \<and>
     is_dlist (if m \<noteq> NULL then sys_dlist_insert m n h else sys_dlist_append l n h) l (xs @ ins_before cond n ys)"
proof -
  let ?pre = "takeWhile (\<lambda>y. \<not> cond y) ys" and ?suf = "dropWhile (\<lambda>y. \<not> cond y) ys"
  have ys: "ys = ?pre @ ?suf" by simp
  show ?thesis
  proof (cases ?suf)
    case Nil
    then have "?pre = ys" using ys by (metis append_Nil2)
    then have "ins_before cond n ys = ys @ [n]" by (simp add: ins_before_split Nil)
    then show ?thesis unfolding dlist_find_spec [OF h] using is_dlist_append [OF h n] by (simp add: Nil)
  next
    case (Cons y zs)
    then have eq: "xs @ ys = (xs @ ?pre) @ y # zs" using ys by (metis append.assoc)
    have "y \<noteq> NULL" using h unfolding eq by (auto simp: is_dlist_def)
    moreover have "is_dlist (sys_dlist_insert y n h) l ((xs @ ?pre) @ n # y # zs)"
      using is_dlist_insert [of h l "xs @ ?pre" y zs n] h n unfolding eq by auto
    ultimately show ?thesis unfolding dlist_find_spec [OF h] ins_before_split by (simp add: Cons)
  qed
qed

text \<open>The pointer operations terminate and implement the list operations.\<close>

lemma dumb_add_ptr_refines:
  assumes "is_dlist h pq q" "t \<notin> set (pq # q)" "t \<noteq> NULL"
  shows "\<exists>h'. dumb_add_ptr pr pq t h = Some h' \<and> is_dlist h' pq (z_priq_dumb_add pr t q)"
  using is_dlist_find_insert [of h pq "[]" q t "\<lambda>u. z_sched_prio_cmp pr t u > 0"] assms
  by (auto simp: dumb_add_ptr_def z_priq_dumb_add_def is_dlist_peek_head)

lemma dumb_yield_ptr_refines:
  assumes "is_dlist h pq q" "c \<in> set q"
  shows "\<exists>h'. dumb_yield_ptr pr pq c h = Some h' \<and> is_dlist h' pq (z_priq_dumb_yield pr c q)"
proof -
  obtain xs ys where q: "q = xs @ c # ys" "c \<notin> set xs" using split_list_first [OF assms(2)] by blast
  have d: "c \<notin> set (pq # xs @ ys)" "c \<noteq> NULL" using assms(1) q by (auto simp: is_dlist_def)
  have h1: "is_dlist (sys_dlist_dequeue c h) pq (xs @ ys)" using is_dlist_dequeue assms(1) q by blast
  have n: "sys_dlist_peek_next_no_check pq c h = (case ys of [] \<Rightarrow> NULL | y # _ \<Rightarrow> y)"
    using is_dlist_peek_next [of h pq xs c ys] assms(1) q d by (simp add: sys_dlist_peek_next_def)
  show ?thesis using is_dlist_find_insert [OF h1 d, of "\<lambda>u. z_sched_prio_cmp pr c u > 0"] q
    by (auto simp: dumb_yield_ptr_def n yield_split z_priq_dumb_add_def Let_def)
qed

lemma dumb_remove_ptr_refines:
  "is_dlist h pq q \<Longrightarrow> t \<in> set q \<Longrightarrow> is_dlist (dumb_remove_ptr pq t h) pq (z_priq_dumb_remove t q)"
  by (simp add: dumb_remove_ptr_def z_priq_dumb_remove_def sys_dlist.remove_member)

lemma dumb_best_ptr_refines:
  "is_dlist h pq q \<Longrightarrow> dumb_best_ptr pq h = (case z_priq_dumb_best q of None \<Rightarrow> NULL | Some t \<Rightarrow> t)"
  by (simp add: dumb_best_ptr_def z_priq_dumb_best_def is_dlist_peek_head split: list.split)

section \<open>The contract of a ready queue\<close>

text \<open>\<open>valid\<close> bounds the priorities a queue can take. The queue presents its threads as one list:
  adding inserts behind every thread of the same or a higher priority.\<close>

locale run_queue =
  fixes pr :: "tid \<Rightarrow> int" and valid :: "tid \<Rightarrow> bool" and ok :: "'q \<Rightarrow> bool" and contents :: "'q \<Rightarrow> tid list"
    and add :: "tid \<Rightarrow> 'q \<Rightarrow> 'q" and remove :: "tid \<Rightarrow> 'q \<Rightarrow> 'q" and best :: "'q \<Rightarrow> tid option"
  assumes ok_order: "ok q \<Longrightarrow> distinct (contents q) \<and> sorted (map pr (contents q))"
    and add_law: "ok q \<Longrightarrow> valid t \<Longrightarrow> t \<notin> set (contents q) \<Longrightarrow>
      ok (add t q) \<and> contents (add t q) = ins_before (\<lambda>u. pr t < pr u) t (contents q)"
    and remove_law: "ok q \<Longrightarrow> t \<in> set (contents q) \<Longrightarrow> ok (remove t q) \<and> contents (remove t q) = remove1 t (contents q)"
    and best_law: "ok q \<Longrightarrow> best q = (case contents q of [] \<Rightarrow> None | t # _ \<Rightarrow> Some t)"
begin

lemma best_is_highest: "ok q \<Longrightarrow> best q = Some t \<Longrightarrow> t \<in> set (contents q) \<and> (\<forall>u \<in> set (contents q). pr t \<le> pr u)"
  using ok_order [of q] best_law [of q] by (cases "contents q") auto

lemma best_none: "ok q \<Longrightarrow> best q = None \<longleftrightarrow> contents q = []"
  using best_law [of q] by (cases "contents q") auto

lemma add_keeps_equals:
  assumes "ok q" "valid t" "t \<notin> set (contents q)"
  shows "filter (\<lambda>u. pr u = pr t) (contents (add t q)) = filter (\<lambda>u. pr u = pr t) (contents q) @ [t]"
proof -
  have "sorted_wrt (\<lambda>x y. \<not> pr y < pr x) (contents q)"
    using ok_order [OF assms(1)] by (simp add: sorted_wrt_map not_less)
  from prio_order.insert_after_equals [OF this, of t] add_law [OF assms] show ?thesis
    by (metis (mono_tags, lifting) filter_cong linorder_neqE order.irrefl)
qed

lemma remove_add: "ok q \<Longrightarrow> valid t \<Longrightarrow> t \<notin> set (contents q) \<Longrightarrow> contents (remove t (add t q)) = contents q"
  using add_law remove_law by simp

end

interpretation dumb: run_queue pr "\<lambda>_. True" "\<lambda>q. distinct q \<and> sorted (map pr q)" "\<lambda>q. q"
  "z_priq_dumb_add pr" z_priq_dumb_remove z_priq_dumb_best for pr
proof (unfold_locales, goal_cases)
  case (2 q t)
  then have "sorted_wrt (\<lambda>x y. \<not> pr y < pr x) q" by (simp add: sorted_wrt_map not_less)
  from prio_order.ordered_insert [OF this, of t] 2 show ?case
    by (simp add: z_priq_dumb_add_def sorted_wrt_map not_less)
next
  case (3 q t)
  then have "sorted (map pr (remove1 t q))" by (simp add: sorted_wrt_map sorted_wrt_remove1)
  with 3 show ?case by (simp add: z_priq_dumb_remove_def)
qed (auto simp: z_priq_dumb_best_def)

section \<open>The multi-queue\<close>

text \<open>\<open>hi\<close> is \<open>K_HIGHEST_THREAD_PRIO\<close> and \<open>nq\<close> is \<open>K_NUM_THREAD_PRIO\<close>; words have 32 bits. The
  bitmap index \<open>j\<close> is bit \<open>j mod 32\<close> of word \<open>j div 32\<close>.\<close>

record priq_mq =
  mq_queues :: "nat \<Rightarrow> tid list"
  mq_bitmask :: "nat \<Rightarrow> u32"
  mq_cached :: nat

record prio_info =
  offset_prio :: nat
  pi_idx :: nat
  pi_bit :: nat

definition get_prio_info :: "int \<Rightarrow> int \<Rightarrow> prio_info" where
  "get_prio_info hi old_prio =
     (let off = nat ((old_prio - hi) mod 256)
      in \<lparr>offset_prio = off, pi_idx = off div 32, pi_bit = off mod 32\<rparr>)"

definition PRIQ_BITMAP_SIZE :: "nat \<Rightarrow> nat" where
  "PRIQ_BITMAP_SIZE nq = (nq + 31) div 32"

function mq_scan :: "nat \<Rightarrow> (nat \<Rightarrow> u32) \<Rightarrow> nat \<Rightarrow> nat" where
  "mq_scan nq bm i =
     (if bm i \<noteq> 0 then i * 32 + u32_count_trailing_zeros (bm i)
      else if i + 1 < PRIQ_BITMAP_SIZE nq then mq_scan nq bm (i + 1) else nq - 1)"
  by pat_completeness auto
termination by (relation "measure (\<lambda>(nq, bm, i). PRIQ_BITMAP_SIZE nq - i)") auto

declare mq_scan.simps [simp del]

definition z_priq_mq_best_queue_index :: "nat \<Rightarrow> priq_mq \<Rightarrow> nat" where
  "z_priq_mq_best_queue_index nq pq = mq_scan nq (mq_bitmask pq) 0"

definition z_priq_mq_init :: "nat \<Rightarrow> priq_mq \<Rightarrow> priq_mq" where
  "z_priq_mq_init nq pq =
     pq\<lparr>mq_queues := (\<lambda>i. if i < nq then [] else mq_queues pq i), mq_cached := nq - 1\<rparr>"

definition z_priq_mq_add :: "int \<Rightarrow> (tid \<Rightarrow> int) \<Rightarrow> tid \<Rightarrow> priq_mq \<Rightarrow> priq_mq" where
  "z_priq_mq_add hi pr t pq =
     (let pos = get_prio_info hi (pr t);
          pq1 = pq\<lparr>mq_queues := (mq_queues pq)(offset_prio pos := mq_queues pq (offset_prio pos) @ [t])\<rparr>;
          pq2 = pq1\<lparr>mq_bitmask := (mq_bitmask pq1)(pi_idx pos := mq_bitmask pq1 (pi_idx pos) OR push_bit (pi_bit pos) 1)\<rparr>
      in if offset_prio pos < mq_cached pq2 then pq2\<lparr>mq_cached := offset_prio pos\<rparr> else pq2)"

definition z_priq_mq_remove :: "int \<Rightarrow> nat \<Rightarrow> (tid \<Rightarrow> int) \<Rightarrow> tid \<Rightarrow> priq_mq \<Rightarrow> priq_mq" where
  "z_priq_mq_remove hi nq pr t pq =
     (let pos = get_prio_info hi (pr t);
          pq1 = pq\<lparr>mq_queues := (mq_queues pq)(offset_prio pos := remove1 t (mq_queues pq (offset_prio pos)))\<rparr>
      in if mq_queues pq1 (offset_prio pos) = []
         then let pq2 = pq1\<lparr>mq_bitmask := (mq_bitmask pq1)(pi_idx pos :=
                          mq_bitmask pq1 (pi_idx pos) AND NOT (push_bit (pi_bit pos) 1))\<rparr>
              in pq2\<lparr>mq_cached := z_priq_mq_best_queue_index nq pq2\<rparr>
         else pq1)"

definition z_priq_mq_yield :: "int \<Rightarrow> (tid \<Rightarrow> int) \<Rightarrow> tid \<Rightarrow> priq_mq \<Rightarrow> priq_mq" where
  "z_priq_mq_yield hi pr c pq =
     (let off = offset_prio (get_prio_info hi (pr c))
      in pq\<lparr>mq_queues := (mq_queues pq)(off := remove1 c (mq_queues pq off) @ [c])\<rparr>)"

definition z_priq_mq_best :: "priq_mq \<Rightarrow> tid option" where
  "z_priq_mq_best pq = (case mq_queues pq (mq_cached pq) of [] \<Rightarrow> None | t # _ \<Rightarrow> Some t)"

definition mq_bit :: "(nat \<Rightarrow> u32) \<Rightarrow> nat \<Rightarrow> bool" where
  "mq_bit bm j = bit (bm (j div 32)) (j mod 32)"

lemma mq_scan_zero:
  "i < PRIQ_BITMAP_SIZE nq \<Longrightarrow> (\<And>k. i \<le> k \<Longrightarrow> k < PRIQ_BITMAP_SIZE nq \<Longrightarrow> bm k = 0) \<Longrightarrow> mq_scan nq bm i = nq - 1"
proof (induction nq bm i rule: mq_scan.induct)
  case (1 nq bm i)
  then show ?case by (subst mq_scan.simps) auto
qed

lemma mq_scan_hit:
  "i \<le> k \<Longrightarrow> k < PRIQ_BITMAP_SIZE nq \<Longrightarrow> bm k \<noteq> 0 \<Longrightarrow> (\<And>m. i \<le> m \<Longrightarrow> m < k \<Longrightarrow> bm m = 0) \<Longrightarrow>
   mq_scan nq bm i = k * 32 + u32_count_trailing_zeros (bm k)"
proof (induction nq bm i rule: mq_scan.induct)
  case (1 nq bm i)
  show ?case
  proof (cases "i = k")
    case True
    with 1 show ?thesis by (subst mq_scan.simps) simp
  next
    case False
    with 1 have "bm i = 0" "i + 1 < PRIQ_BITMAP_SIZE nq" "i + 1 \<le> k" by auto
    with 1 show ?thesis by (subst mq_scan.simps) auto
  qed
qed

text \<open>The scan finds the lowest index that is set.\<close>

lemma best_index_least:
  assumes "j < PRIQ_BITMAP_SIZE nq * 32" "mq_bit (mq_bitmask q) j"
  shows "mq_bit (mq_bitmask q) (z_priq_mq_best_queue_index nq q)"
    "\<And>i. i < z_priq_mq_best_queue_index nq q \<Longrightarrow> \<not> mq_bit (mq_bitmask q) i"
proof -
  let ?bm = "mq_bitmask q"
  define k where "k = (LEAST k. ?bm k \<noteq> 0)"
  have "?bm (j div 32) \<noteq> 0" using assms(2) by (auto simp: mq_bit_def)
  note nz = this
  have k: "?bm k \<noteq> 0" unfolding k_def by (rule LeastI [of "\<lambda>k. ?bm k \<noteq> 0"]) (rule nz)
  have kj: "k \<le> j div 32" unfolding k_def by (rule Least_le) (rule nz)
  have below: "?bm m = 0" if "m < k" for m using not_less_Least [of m "\<lambda>k. ?bm k \<noteq> 0"] that unfolding k_def by blast
  have "k < PRIQ_BITMAP_SIZE nq" using kj assms(1) less_mult_imp_div_less [of j] by simp
  then have r: "z_priq_mq_best_queue_index nq q = k * 32 + u32_count_trailing_zeros (?bm k)"
    unfolding z_priq_mq_best_queue_index_def using k below by (intro mq_scan_hit) auto
  note c = u32_ctz_spec [OF k]
  show "mq_bit ?bm (z_priq_mq_best_queue_index nq q)" using c(1,2) by (simp add: r mq_bit_def)
  show "\<not> mq_bit ?bm i" if i: "i < z_priq_mq_best_queue_index nq q" for i
  proof (cases "i div 32 = k")
    case True
    then have "i mod 32 < u32_count_trailing_zeros (?bm k)" using i r by (metis add_less_cancel_left div_mod_decomp mult.commute)
    then show ?thesis using c(3) True by (simp add: mq_bit_def)
  next
    case False
    then have "i div 32 < k" using i r c(2) by simp
    then show ?thesis using below by (simp add: mq_bit_def)
  qed
qed

lemma best_index_none:
  assumes "\<And>j. j < PRIQ_BITMAP_SIZE nq * 32 \<Longrightarrow> \<not> mq_bit (mq_bitmask q) j" "0 < nq"
  shows "z_priq_mq_best_queue_index nq q = nq - 1"
  unfolding z_priq_mq_best_queue_index_def
proof (rule mq_scan_zero)
  show "0 < PRIQ_BITMAP_SIZE nq" using assms(2) by (simp add: PRIQ_BITMAP_SIZE_def)
  show "mq_bitmask q k = 0" if "k < PRIQ_BITMAP_SIZE nq" for k
  proof (rule bit_word_eqI)
    fix b assume b: "b < LENGTH(32)"
    then have "k * 32 + b < PRIQ_BITMAP_SIZE nq * 32" using that by simp
    from assms(1) [OF this] b show "bit (mq_bitmask q k) b = bit 0 b" by (simp add: mq_bit_def)
  qed
qed

section \<open>The multi-queue satisfies the contract\<close>

definition mq_contents :: "nat \<Rightarrow> priq_mq \<Rightarrow> tid list" where
  "mq_contents nq q = concat (map (mq_queues q) [0..<nq])"

definition mq_valid :: "int \<Rightarrow> nat \<Rightarrow> (tid \<Rightarrow> int) \<Rightarrow> tid \<Rightarrow> bool" where
  "mq_valid hi nq pr t \<longleftrightarrow> hi \<le> pr t \<and> pr t - hi < int nq"

definition mq_ok :: "int \<Rightarrow> nat \<Rightarrow> (tid \<Rightarrow> int) \<Rightarrow> priq_mq \<Rightarrow> bool" where
  "mq_ok hi nq pr q \<longleftrightarrow> 0 < nq \<and> nq \<le> 256 \<and>
     (\<forall>i < nq. distinct (mq_queues q i) \<and> (\<forall>t \<in> set (mq_queues q i). pr t = hi + int i)) \<and>
     (\<forall>j < PRIQ_BITMAP_SIZE nq * 32. mq_bit (mq_bitmask q) j \<longleftrightarrow> j < nq \<and> mq_queues q j \<noteq> []) \<and>
     mq_cached q < nq \<and> (\<forall>j < mq_cached q. mq_queues q j = []) \<and>
     (mq_queues q (mq_cached q) = [] \<longrightarrow> mq_cached q = nq - 1)"

lemma concat_queues_order:
  "(\<And>i. i < n \<Longrightarrow> distinct (Q i) \<and> (\<forall>t \<in> set (Q i). pr t = hi + int i)) \<Longrightarrow>
   distinct (concat (map Q [0..<n])) \<and> sorted (map pr (concat (map Q [0..<n])))"
proof (induction n)
  case (Suc n)
  have "pr t < hi + int n" if "t \<in> set (concat (map Q [0..<n]))" for t
  proof -
    from that obtain i where "i < n" "t \<in> set (Q i)" by auto
    with Suc.prems [of i] show ?thesis by auto
  qed
  moreover have "pr t = hi + int n" if "t \<in> set (Q n)" for t using that Suc.prems by blast
  moreover have "sorted (map pr (Q n))" using Suc.prems [of n] by (simp add: sorted_wrt_map sorted_wrt_iff_nth_less)
  ultimately show ?case using Suc by (fastforce simp: sorted_append)
qed simp

lemma queues_split: "i < nq \<Longrightarrow>
  concat (map Q [0..<nq]) = concat (map Q [0..<i]) @ Q i @ concat (map Q [Suc i..<nq])"
proof -
  assume i: "i < nq"
  then have "[0..<nq] = [0..<i] @ i # [Suc i..<nq]"
    using upt_add_eq_append [of 0 i "nq - i"] upt_conv_Cons [OF i] by simp
  then show ?thesis by simp
qed

lemma mq_ok_queue:
  assumes "mq_ok hi nq pr q" "i < nq"
  shows "distinct (mq_queues q i)" "\<And>t. t \<in> set (mq_queues q i) \<Longrightarrow> pr t = hi + int i"
  using assms by (auto simp: mq_ok_def)

lemma mq_before:
  "mq_ok hi nq pr q \<Longrightarrow> i < nq \<Longrightarrow> u \<in> set (concat (map (mq_queues q) [0..<i])) \<Longrightarrow> pr u < hi + int i"
proof -
  assume ok: "mq_ok hi nq pr q" "i < nq" and "u \<in> set (concat (map (mq_queues q) [0..<i]))"
  then obtain k where "k < i" "u \<in> set (mq_queues q k)" by auto
  with ok mq_ok_queue(2) [of hi nq pr q k u] show ?thesis by simp
qed

lemma mq_behind:
  "mq_ok hi nq pr q \<Longrightarrow> u \<in> set (concat (map (mq_queues q) [Suc i..<nq])) \<Longrightarrow> hi + int i < pr u"
proof -
  assume ok: "mq_ok hi nq pr q" and "u \<in> set (concat (map (mq_queues q) [Suc i..<nq]))"
  then obtain k where "Suc i \<le> k" "k < nq" "u \<in> set (mq_queues q k)" by auto
  with ok mq_ok_queue(2) [of hi nq pr q k u] show ?thesis by simp
qed

lemma mq_member: "mq_ok hi nq pr q \<Longrightarrow> t \<in> set (mq_contents nq q) \<Longrightarrow>
  \<exists>i < nq. pr t = hi + int i \<and> t \<in> set (mq_queues q i)"
  using mq_ok_queue(2) by (fastforce simp: mq_contents_def)

lemma mq_offset:
  assumes "mq_valid hi nq pr t" "nq \<le> 256"
  obtains i where "i < nq" "pr t = hi + int i" "get_prio_info hi (pr t) = \<lparr>offset_prio = i, pi_idx = i div 32, pi_bit = i mod 32\<rparr>"
proof -
  let ?i = "nat (pr t - hi)"
  have i: "?i < nq" "pr t = hi + int ?i" using assms by (auto simp: mq_valid_def)
  have "0 \<le> pr t - hi" "pr t - hi < 256" using assms by (auto simp: mq_valid_def)
  then have "nat ((pr t - hi) mod 256) = ?i" by simp
  then have "get_prio_info hi (pr t) = \<lparr>offset_prio = ?i, pi_idx = ?i div 32, pi_bit = ?i mod 32\<rparr>"
    unfolding get_prio_info_def by (simp add: Let_def)
  with i show thesis by (rule that)
qed

lemma mq_bit_upd:
  "mq_bit (bm(i div 32 := bm (i div 32) OR push_bit (i mod 32) 1)) j \<longleftrightarrow> mq_bit bm j \<or> j = i"
  "mq_bit (bm(i div 32 := bm (i div 32) AND NOT (push_bit (i mod 32) 1))) j \<longleftrightarrow> mq_bit bm j \<and> j \<noteq> i"
proof -
  have eq: "j div 32 = i div 32 \<and> j mod 32 = i mod 32 \<longleftrightarrow> j = i" by (metis div_mod_decomp)
  have b: "bit (push_bit (i mod 32) 1 :: u32) (j mod 32) \<longleftrightarrow> j mod 32 = i mod 32"
    by (auto simp: bit_exp_iff)
  show "mq_bit (bm(i div 32 := bm (i div 32) OR push_bit (i mod 32) 1)) j \<longleftrightarrow> mq_bit bm j \<or> j = i"
    using eq b by (auto simp: mq_bit_def bit_or_iff)
  show "mq_bit (bm(i div 32 := bm (i div 32) AND NOT (push_bit (i mod 32) 1))) j \<longleftrightarrow> mq_bit bm j \<and> j \<noteq> i"
    using eq b by (auto simp: mq_bit_def bit_and_iff bit_not_iff)
qed

lemma nq_le_bitmap: "nq \<le> PRIQ_BITMAP_SIZE nq * 32"
  by (simp add: PRIQ_BITMAP_SIZE_def)

lemma mq_add_law:
  assumes ok: "mq_ok hi nq pr q" and v: "mq_valid hi nq pr t" and new: "t \<notin> set (mq_contents nq q)"
  shows "mq_ok hi nq pr (z_priq_mq_add hi pr t q)"
    "mq_contents nq (z_priq_mq_add hi pr t q) = ins_before (\<lambda>u. pr t < pr u) t (mq_contents nq q)"
proof -
  have nq: "nq \<le> 256" using ok by (simp add: mq_ok_def)
  obtain i where i: "i < nq" "pr t = hi + int i"
    "get_prio_info hi (pr t) = \<lparr>offset_prio = i, pi_idx = i div 32, pi_bit = i mod 32\<rparr>" using v nq by (rule mq_offset)
  let ?q = "z_priq_mq_add hi pr t q"
  have f: "mq_queues ?q = (mq_queues q)(i := mq_queues q i @ [t])" "mq_cached ?q = min i (mq_cached q)"
    "mq_bitmask ?q = (mq_bitmask q)(i div 32 := mq_bitmask q (i div 32) OR push_bit (i mod 32) 1)"
    by (simp_all add: z_priq_mq_add_def i(3) Let_def)
  have "t \<notin> set (mq_queues q i)" using new i(1) by (auto simp: mq_contents_def)
  then show "mq_ok hi nq pr ?q" using ok i unfolding mq_ok_def f mq_bit_upd by (auto simp: min_def)
  have "mq_contents nq ?q = concat (map (mq_queues q) [0..<i]) @ (mq_queues q i @ [t]) @ concat (map (mq_queues q) [Suc i..<nq])"
    unfolding mq_contents_def queues_split [OF i(1)] f by (simp add: map_fun_upd_notin)
  also have "\<dots> = ins_before (\<lambda>u. pr t < pr u) t
      ((concat (map (mq_queues q) [0..<i]) @ mq_queues q i) @ concat (map (mq_queues q) [Suc i..<nq]))"
    using mq_before [OF ok i(1)] mq_behind [OF ok, of _ i] mq_ok_queue(2) [OF ok i(1)] i(2)
    by (subst ins_before_between) (auto, fastforce+)
  finally show "mq_contents nq ?q = ins_before (\<lambda>u. pr t < pr u) t (mq_contents nq q)"
    unfolding mq_contents_def queues_split [OF i(1)] by simp
qed

lemma mq_remove_law:
  assumes ok: "mq_ok hi nq pr q" and mem: "t \<in> set (mq_contents nq q)"
  shows "mq_ok hi nq pr (z_priq_mq_remove hi nq pr t q)"
    "mq_contents nq (z_priq_mq_remove hi nq pr t q) = remove1 t (mq_contents nq q)"
proof -
  have nq: "nq \<le> 256" "0 < nq" using ok by (auto simp: mq_ok_def)
  have v: "mq_valid hi nq pr t" using mq_member [OF ok mem] by (auto simp: mq_valid_def)
  obtain i where i: "i < nq" "pr t = hi + int i"
    "get_prio_info hi (pr t) = \<lparr>offset_prio = i, pi_idx = i div 32, pi_bit = i mod 32\<rparr>" using v nq(1) by (rule mq_offset)
  let ?q = "z_priq_mq_remove hi nq pr t q"
  have tq: "t \<in> set (mq_queues q i)" using mq_member [OF ok mem] i(2) by auto
  have fq: "mq_queues ?q = (mq_queues q)(i := remove1 t (mq_queues q i))"
    by (simp add: z_priq_mq_remove_def i(3) Let_def)
  have "t \<notin> set (concat (map (mq_queues q) [0..<i]))" using mq_before [OF ok i(1)] i(2) by fastforce
  then show "mq_contents nq ?q = remove1 t (mq_contents nq q)"
    unfolding mq_contents_def queues_split [OF i(1)] fq using tq by (simp add: map_fun_upd_notin remove1_append)
  show "mq_ok hi nq pr ?q"
  proof (cases "remove1 t (mq_queues q i) = []")
    case False
    then have "mq_bitmask ?q = mq_bitmask q" "mq_cached ?q = mq_cached q"
      by (simp_all add: z_priq_mq_remove_def i(3) Let_def)
    then show ?thesis using ok False tq i(1) unfolding mq_ok_def fq by (auto dest: notin_set_remove1)
  next
    case True
    let ?bm = "(mq_bitmask q)(i div 32 := mq_bitmask q (i div 32) AND NOT (push_bit (i mod 32) 1))"
    have bm: "mq_bitmask ?q = ?bm" using True by (simp add: z_priq_mq_remove_def i(3) Let_def)
    have c: "mq_cached ?q = z_priq_mq_best_queue_index nq ?q"
      using True by (simp add: z_priq_mq_remove_def i(3) Let_def z_priq_mq_best_queue_index_def)
    have bits: "\<forall>j < PRIQ_BITMAP_SIZE nq * 32. mq_bit (mq_bitmask ?q) j \<longleftrightarrow> j < nq \<and> mq_queues ?q j \<noteq> []"
      using ok True unfolding bm fq mq_bit_upd mq_ok_def by auto
    have cached: "mq_cached ?q < nq \<and> (\<forall>j < mq_cached ?q. mq_queues ?q j = []) \<and>
        (mq_queues ?q (mq_cached ?q) = [] \<longrightarrow> mq_cached ?q = nq - 1)"
    proof (cases "\<exists>j < PRIQ_BITMAP_SIZE nq * 32. mq_bit (mq_bitmask ?q) j")
      case True
      then obtain j where j: "j < PRIQ_BITMAP_SIZE nq * 32" "mq_bit (mq_bitmask ?q) j" by blast
      note b = best_index_least [OF j]
      have le: "z_priq_mq_best_queue_index nq ?q \<le> j" using b(2) j(2) by (meson not_less)
      then have "z_priq_mq_best_queue_index nq ?q < nq" "mq_queues ?q (z_priq_mq_best_queue_index nq ?q) \<noteq> []"
        using bits b(1) j(1) by (meson le_less_trans)+
      then show ?thesis unfolding c using b(2) bits nq_le_bitmap [of nq] by (meson less_le_trans less_trans)
    next
      case False
      then have "mq_cached ?q = nq - 1" unfolding c using nq(2) by (intro best_index_none) auto
      then show ?thesis using False bits nq nq_le_bitmap [of nq]
        by (metis Suc_diff_1 less_Suc_eq less_le_trans lessI)
    qed
    show ?thesis using ok cached bits i(1) unfolding mq_ok_def fq by (auto dest: notin_set_remove1)
  qed
qed

interpretation mq: run_queue pr "mq_valid hi nq pr" "mq_ok hi nq pr" "mq_contents nq"
  "z_priq_mq_add hi pr" "z_priq_mq_remove hi nq pr" z_priq_mq_best for hi nq pr
proof (unfold_locales, goal_cases)
  case (1 q)
  then show ?case using concat_queues_order [of nq "mq_queues q" pr hi] by (simp add: mq_contents_def mq_ok_def)
next
  case (2 q t)
  then show ?case using mq_add_law by blast
next
  case (3 q t)
  then show ?case using mq_remove_law by blast
next
  case (4 q)
  let ?c = "mq_cached q"
  have c: "?c < nq" "\<forall>j < ?c. mq_queues q j = []" "mq_queues q ?c = [] \<longrightarrow> ?c = nq - 1"
    using 4 by (auto simp: mq_ok_def)
  have "concat (map (mq_queues q) [0..<?c]) = []" using c(2) by simp
  then have "mq_contents nq q = mq_queues q ?c @ concat (map (mq_queues q) [Suc ?c..<nq])"
    unfolding mq_contents_def queues_split [OF c(1)] by simp
  then show ?case using c(1,3) by (cases "mq_queues q ?c") (auto simp: z_priq_mq_best_def)
qed

lemma mq_yield_law:
  assumes ok: "mq_ok hi nq pr q" and mem: "c \<in> set (mq_contents nq q)"
  shows "mq_contents nq (z_priq_mq_yield hi pr c q) = z_priq_dumb_yield pr c (mq_contents nq q)"
    "mq_ok hi nq pr (z_priq_mq_yield hi pr c q)"
proof -
  have nq: "nq \<le> 256" using ok by (simp add: mq_ok_def)
  have v: "mq_valid hi nq pr c" using mq_member [OF ok mem] by (auto simp: mq_valid_def)
  obtain i where i: "i < nq" "pr c = hi + int i"
    "get_prio_info hi (pr c) = \<lparr>offset_prio = i, pi_idx = i div 32, pi_bit = i mod 32\<rparr>" using v nq by (rule mq_offset)
  let ?A = "concat (map (mq_queues q) [0..<i])" and ?B = "concat (map (mq_queues q) [Suc i..<nq])"
  have f: "mq_queues (z_priq_mq_yield hi pr c q) = (mq_queues q)(i := remove1 c (mq_queues q i) @ [c])"
    "mq_bitmask (z_priq_mq_yield hi pr c q) = mq_bitmask q" "mq_cached (z_priq_mq_yield hi pr c q) = mq_cached q"
    by (simp_all add: z_priq_mq_yield_def i(3) Let_def)
  have cq: "c \<in> set (mq_queues q i)" using mq_member [OF ok mem] i(2) by auto
  then obtain xs ys where s: "mq_queues q i = xs @ c # ys" "c \<notin> set xs" by (meson split_list_first)
  have out: "c \<notin> set (?A @ xs)" using mq_before [OF ok i(1)] i(2) s(2) by fastforce
  have "z_priq_dumb_add pr c (ys @ ?B) = ys @ c # ?B"
    unfolding z_priq_dumb_add_def using mq_ok_queue(2) [OF ok i(1)] s(1) i(2) mq_behind [OF ok, of _ i]
    by (intro ins_before_between) auto
  then have "z_priq_dumb_yield pr c ((?A @ xs) @ c # ys @ ?B) = (?A @ xs) @ ys @ c # ?B"
    using yield_split [OF out] by simp
  then show "mq_contents nq (z_priq_mq_yield hi pr c q) = z_priq_dumb_yield pr c (mq_contents nq q)"
    unfolding mq_contents_def queues_split [OF i(1)] f using s by (simp add: map_fun_upd_notin remove1_append)
  have "distinct (remove1 c (mq_queues q i) @ [c])" using mq_ok_queue(1) [OF ok i(1)] by simp
  then show "mq_ok hi nq pr (z_priq_mq_yield hi pr c q)"
    using ok cq unfolding mq_ok_def f by (auto dest: notin_set_remove1)
qed

section \<open>Properties\<close>

text \<open>The linked-list priority queue on pointers (\<open>z_priq_dumb_add\<close>, \<open>_remove\<close>, \<open>_yield\<close>, \<open>_best\<close>)
  terminates and implements insertion behind all threads of the same or a higher priority, removal
  of exactly the given thread, re-insertion of the yielding thread behind its equals, and the head.\<close>

theorem priq_dumb_pointers_refine:
  assumes "is_dlist h pq q" and "t \<notin> set (pq # q)" and "t \<noteq> NULL" and "c \<in> set q"
  shows "(\<exists>h'. dumb_add_ptr pr pq t h = Some h' \<and> is_dlist h' pq (z_priq_dumb_add pr t q)) \<and>
     (\<exists>h'. dumb_yield_ptr pr pq c h = Some h' \<and> is_dlist h' pq (z_priq_dumb_yield pr c q)) \<and>
     is_dlist (dumb_remove_ptr pq c h) pq (z_priq_dumb_remove c q) \<and>
     dumb_best_ptr pq h = (case z_priq_dumb_best q of None \<Rightarrow> NULL | Some b \<Rightarrow> b)"
  using dumb_add_ptr_refines [OF assms(1-3)] dumb_yield_ptr_refines [OF assms(1,4)]
    dumb_remove_ptr_refines [OF assms(1,4)] dumb_best_ptr_refines [OF assms(1)] by blast

theorem priq_dumb_pointers_refine_witness:
  "\<exists>h'. dumb_add_ptr (\<lambda>t. if t = 3 then 1 else 2) 1 3 (sys_dlist_append 1 2 (sys_dlist_init 1 \<lparr>dn_next = \<lambda>_. 0, dn_prev = \<lambda>_. 0\<rparr>)) = Some h' \<and>
     is_dlist h' 1 [3, 2]"
proof -
  let ?h = "sys_dlist_append 1 2 (sys_dlist_init 1 \<lparr>dn_next = \<lambda>_. 0, dn_prev = \<lambda>_. 0\<rparr>)"
  have "is_dlist ?h 1 [2]"
    by (simp add: is_dlist_def sys_dlist_append_def sys_dlist_init_def set_next_def set_prev_def Let_def)
  with priq_dumb_pointers_refine [of ?h 1 "[2]" 3 2 "\<lambda>t. if t = 3 then 1 else 2"] show ?thesis
    by (simp add: z_priq_dumb_add_def)
qed

text \<open>C40: The multi-queue with its bitmap and cached index behaves as the sorted list: from a well-formed
  multi-queue, adding, removing and yielding give a well-formed one whose threads, in priority order,
  are those the sorted list would hold, and \<open>z_priq_mq_best\<close> returns the head of that list.\<close>

theorem priq_mq_equals_dumb:
  assumes "mq_ok hi nq pr q"
  shows "z_priq_mq_best q = z_priq_dumb_best (mq_contents nq q) \<and>
     (\<forall>t. mq_valid hi nq pr t \<and> t \<notin> set (mq_contents nq q) \<longrightarrow> mq_ok hi nq pr (z_priq_mq_add hi pr t q) \<and>
        mq_contents nq (z_priq_mq_add hi pr t q) = z_priq_dumb_add pr t (mq_contents nq q)) \<and>
     (\<forall>t \<in> set (mq_contents nq q). mq_ok hi nq pr (z_priq_mq_remove hi nq pr t q) \<and>
        mq_contents nq (z_priq_mq_remove hi nq pr t q) = z_priq_dumb_remove t (mq_contents nq q)) \<and>
     (\<forall>t \<in> set (mq_contents nq q). mq_ok hi nq pr (z_priq_mq_yield hi pr t q) \<and>
        mq_contents nq (z_priq_mq_yield hi pr t q) = z_priq_dumb_yield pr t (mq_contents nq q))"
proof -
  have "z_priq_mq_best q = z_priq_dumb_best (mq_contents nq q)"
    using mq.best_law [OF assms] by (simp add: z_priq_dumb_best_def)
  then show ?thesis
    using assms mq_add_law mq_remove_law mq_yield_law by (simp add: z_priq_dumb_add_def z_priq_dumb_remove_def)
qed

theorem priq_mq_equals_dumb_witness:
  "z_priq_mq_best (z_priq_mq_add (- 16) (\<lambda>t. int t) 3 (z_priq_mq_init 32 \<lparr>mq_queues = \<lambda>_. [], mq_bitmask = \<lambda>_. 0, mq_cached = 0\<rparr>)) = Some 3"
proof -
  let ?q = "z_priq_mq_init 32 \<lparr>mq_queues = \<lambda>_. [], mq_bitmask = \<lambda>_. 0, mq_cached = 0\<rparr>"
  have ok: "mq_ok (- 16) 32 (\<lambda>t. int t) ?q" "mq_contents 32 ?q = []"
    by (auto simp: mq_ok_def z_priq_mq_init_def mq_bit_def mq_contents_def concat_eq_Nil_conv)
  with priq_mq_equals_dumb [OF ok(1)] have "mq_ok (- 16) 32 (\<lambda>t. int t) (z_priq_mq_add (- 16) (\<lambda>t. int t) 3 ?q)"
    "mq_contents 32 (z_priq_mq_add (- 16) (\<lambda>t. int t) 3 ?q) = [3]"
    by (simp_all add: mq_valid_def z_priq_dumb_add_def)
  with priq_mq_equals_dumb [OF this(1)] show ?thesis by (simp add: z_priq_dumb_best_def)
qed

end
