(* ===== verification/Kernel.thy ===== *)
theory Kernel
  imports Priq Timeout_Queue
begin

text \<open>
  The kernel state and the thread primitives: \<open>struct k_thread\<close>, the flag tests and updates of
  \<open>kernel/include/kthread.h\<close>, time slicing (\<open>kernel/timeslicing.c\<close>) and the scheduler
  (\<open>kernel/sched.c\<close>) on one CPU. The kernel record extends the timeout queue, so the operations of
  theory \<open>Timeout_Queue\<close> apply to it. Ready and wait queues are lists of threads (theory \<open>Priq\<close>
  shows that the linked lists implement them).

  Interrupts are masked inside the kernel, so each operation is one step. \<open>irq_unlocked\<close> is the
  interrupt state the caller's lock key stands for and \<open>in_isr\<close> is \<open>arch_is_in_isr()\<close>. A context
  switch is the change of \<open>current\<close>; an operation that blocks ends with it, and the code behind the
  switch is a separate definition that the resumed thread runs.
\<close>

section \<open>State\<close>

datatype wqid = ObjQ nat | JoinQ tid | TimerQ nat

record k_thread =
  prio :: int
  sched_locked :: u8
  thread_state :: u8
  user_options :: u8
  pended_on :: "wqid option"
  swap_retval :: int
  swap_data :: nat
  events :: u32
  event_options :: u32
  no_wake_on_timeout :: bool

record k_timer =
  has_expiry_fn :: bool
  has_stop_fn :: bool
  period :: k_timeout
  tm_status :: u32

record kernel = timeout_q +
  threads :: "tid \<Rightarrow> k_thread"
  runq :: "tid list"
  ready_cache :: tid
  current :: tid
  idle_thread :: tid
  dummy_thread :: tid
  wait_qs :: "wqid \<Rightarrow> tid list"
  in_isr :: bool
  irq_unlocked :: bool
  slice_ticks :: int
  slice_max_prio :: int
  slice_expired :: bool
  timers :: "nat \<Rightarrow> k_timer"
  memory :: "addr \<Rightarrow> u8"
  panicked :: bool

definition THREAD_DUMMY :: u8 where "THREAD_DUMMY = push_bit 0 1"
definition THREAD_PENDING :: u8 where "THREAD_PENDING = push_bit 1 1"
definition THREAD_SLEEPING :: u8 where "THREAD_SLEEPING = push_bit 2 1"
definition THREAD_DEAD :: u8 where "THREAD_DEAD = push_bit 3 1"
definition THREAD_SUSPENDED :: u8 where "THREAD_SUSPENDED = push_bit 4 1"
definition THREAD_ABORTING :: u8 where "THREAD_ABORTING = push_bit 5 1"
definition THREAD_SUSPENDING :: u8 where "THREAD_SUSPENDING = push_bit 6 1"
definition THREAD_QUEUED :: u8 where "THREAD_QUEUED = push_bit 7 1"
definition K_ESSENTIAL :: u8 where "K_ESSENTIAL = push_bit 0 1"

lemmas state_defs = THREAD_DUMMY_def THREAD_PENDING_def THREAD_SLEEPING_def THREAD_DEAD_def
  THREAD_SUSPENDED_def THREAD_ABORTING_def THREAD_SUSPENDING_def THREAD_QUEUED_def

definition upd_thread :: "tid \<Rightarrow> (k_thread \<Rightarrow> k_thread) \<Rightarrow> kernel \<Rightarrow> kernel" where
  "upd_thread t f k = k\<lparr>threads := (threads k)(t := f (threads k t))\<rparr>"

abbreviation prio_of :: "kernel \<Rightarrow> tid \<Rightarrow> int" where
  "prio_of k t \<equiv> prio (threads k t)"

section \<open>Thread flags\<close>

definition z_is_thread_state_set :: "u8 \<Rightarrow> k_thread \<Rightarrow> bool" where
  "z_is_thread_state_set state th \<longleftrightarrow> thread_state th AND state \<noteq> 0"

definition set_state :: "u8 \<Rightarrow> k_thread \<Rightarrow> k_thread" where
  "set_state s th = th\<lparr>thread_state := thread_state th OR s\<rparr>"

definition clear_state :: "u8 \<Rightarrow> k_thread \<Rightarrow> k_thread" where
  "clear_state s th = th\<lparr>thread_state := thread_state th AND NOT s\<rparr>"

definition is_thread_dummy :: "k_thread \<Rightarrow> bool" where
  "is_thread_dummy th \<longleftrightarrow> thread_state th AND THREAD_DUMMY \<noteq> 0"
definition z_is_thread_suspended :: "k_thread \<Rightarrow> bool" where
  "z_is_thread_suspended th \<longleftrightarrow> thread_state th AND THREAD_SUSPENDED \<noteq> 0"
definition z_is_thread_pending :: "k_thread \<Rightarrow> bool" where
  "z_is_thread_pending th \<longleftrightarrow> thread_state th AND THREAD_PENDING \<noteq> 0"
definition z_is_thread_sleeping :: "k_thread \<Rightarrow> bool" where
  "z_is_thread_sleeping th \<longleftrightarrow> thread_state th AND THREAD_SLEEPING \<noteq> 0"
definition z_is_thread_queued :: "k_thread \<Rightarrow> bool" where
  "z_is_thread_queued th \<longleftrightarrow> z_is_thread_state_set THREAD_QUEUED th"
definition z_is_thread_dead :: "k_thread \<Rightarrow> bool" where
  "z_is_thread_dead th \<longleftrightarrow> thread_state th AND THREAD_DEAD \<noteq> 0"

definition z_is_thread_prevented_from_running :: "k_thread \<Rightarrow> bool" where
  "z_is_thread_prevented_from_running th \<longleftrightarrow>
     thread_state th AND (THREAD_PENDING OR THREAD_SLEEPING OR THREAD_DEAD OR THREAD_DUMMY OR THREAD_SUSPENDED) \<noteq> 0"

definition z_is_thread_ready :: "k_thread \<Rightarrow> bool" where
  "z_is_thread_ready th \<longleftrightarrow> \<not> z_is_thread_prevented_from_running th"

definition z_mark_thread_as_queued :: "k_thread \<Rightarrow> k_thread" where
  "z_mark_thread_as_queued = set_state THREAD_QUEUED"
definition z_mark_thread_as_not_queued :: "k_thread \<Rightarrow> k_thread" where
  "z_mark_thread_as_not_queued = clear_state THREAD_QUEUED"
definition z_mark_thread_as_suspended :: "k_thread \<Rightarrow> k_thread" where
  "z_mark_thread_as_suspended = set_state THREAD_SUSPENDED"
definition z_mark_thread_as_not_suspended :: "k_thread \<Rightarrow> k_thread" where
  "z_mark_thread_as_not_suspended = clear_state THREAD_SUSPENDED"
definition z_mark_thread_as_pending :: "k_thread \<Rightarrow> k_thread" where
  "z_mark_thread_as_pending = set_state THREAD_PENDING"
definition z_mark_thread_as_not_pending :: "k_thread \<Rightarrow> k_thread" where
  "z_mark_thread_as_not_pending = clear_state THREAD_PENDING"
definition z_mark_thread_as_sleeping :: "k_thread \<Rightarrow> k_thread" where
  "z_mark_thread_as_sleeping = set_state THREAD_SLEEPING"
definition z_mark_thread_as_not_sleeping :: "k_thread \<Rightarrow> k_thread" where
  "z_mark_thread_as_not_sleeping = clear_state THREAD_SLEEPING"

definition z_thread_essential_set :: "k_thread \<Rightarrow> k_thread" where
  "z_thread_essential_set th = th\<lparr>user_options := user_options th OR K_ESSENTIAL\<rparr>"
definition z_thread_essential_clear :: "k_thread \<Rightarrow> k_thread" where
  "z_thread_essential_clear th = th\<lparr>user_options := user_options th AND NOT K_ESSENTIAL\<rparr>"
definition z_is_thread_essential :: "k_thread \<Rightarrow> bool" where
  "z_is_thread_essential th \<longleftrightarrow> user_options th AND K_ESSENTIAL = K_ESSENTIAL"

text \<open>\<open>base.preempt\<close>: the priority is the low byte and the scheduler lock count the high byte.\<close>

definition preempt :: "k_thread \<Rightarrow> int" where
  "preempt th = uint (sched_locked th) * 256 + prio th mod 256"

definition thread_is_preemptible :: "k_thread \<Rightarrow> bool" where
  "thread_is_preemptible th \<longleftrightarrow> preempt th \<le> 0x7F"

definition thread_is_metairq :: "k_thread \<Rightarrow> bool" where
  "thread_is_metairq th \<longleftrightarrow> False"

definition z_is_idle_thread_object :: "kernel \<Rightarrow> tid \<Rightarrow> bool" where
  "z_is_idle_thread_object k t \<longleftrightarrow> t = idle_thread k"

definition should_preempt :: "kernel \<Rightarrow> tid \<Rightarrow> bool \<Rightarrow> bool" where
  "should_preempt k t preempt_ok \<longleftrightarrow>
     preempt_ok \<or> z_is_thread_prevented_from_running (threads k (current k)) \<or>
     thread_is_preemptible (threads k (current k)) \<or> thread_is_metairq (threads k t)"

section \<open>Time slicing\<close>

definition slice_time :: "kernel \<Rightarrow> tid \<Rightarrow> int" where
  "slice_time k t = slice_ticks k"

definition z_is_prio_higher :: "int \<Rightarrow> int \<Rightarrow> bool" where
  "z_is_prio_higher p test \<longleftrightarrow> p < test"

definition thread_is_sliceable :: "kernel \<Rightarrow> tid \<Rightarrow> bool" where
  "thread_is_sliceable k t \<longleftrightarrow>
     thread_is_preemptible (threads k t) \<and> slice_time k t \<noteq> 0 \<and>
     \<not> z_is_prio_higher (prio (threads k t)) (slice_max_prio k) \<and>
     \<not> z_is_thread_prevented_from_running (threads k t) \<and> \<not> z_is_idle_thread_object k t"

definition slice_timeout :: "kernel \<Rightarrow> kernel" where
  "slice_timeout k = k\<lparr>slice_expired := True\<rparr>"

definition z_reset_time_slice :: "tid \<Rightarrow> kernel \<Rightarrow> kernel" where
  "z_reset_time_slice t k =
     (let k1 = (snd (z_abort_timeout SliceTimeout k))\<lparr>slice_expired := False\<rparr>
      in if thread_is_sliceable k1 t
         then z_add_timeout SliceTimeout Slice_timeout (slice_time k1 t - 1) k1 else k1)"

text \<open>\<open>ms_to_ticks\<close> is the generated conversion \<open>k_ms_to_ticks_ceil32\<close>.\<close>

definition k_sched_time_slice_set :: "(int \<Rightarrow> int) \<Rightarrow> int \<Rightarrow> int \<Rightarrow> kernel \<Rightarrow> kernel" where
  "k_sched_time_slice_set ms_to_ticks slc p k =
     (let k1 = k\<lparr>slice_ticks := ms_to_ticks slc, slice_max_prio := p\<rparr> in z_reset_time_slice (current k1) k1)"

end
