(* ===== verification/Sched.thy ===== *)
theory Sched
  imports Kernel
begin

text \<open>
  The scheduler of \<open>kernel/sched.c\<close> for one CPU without meta-interrupt threads: ready queue,
  ready-thread cache, pending and waking, sleeping, suspending, aborting, joining, priorities and
  the context switch (\<open>do_swap\<close> of \<open>kernel/include/kswap.h\<close>).
\<close>

section \<open>The ready queue and its cache\<close>

definition runq_add :: "tid \<Rightarrow> kernel \<Rightarrow> kernel" where
  "runq_add t k = k\<lparr>runq := z_priq_dumb_add (prio_of k) t (runq k)\<rparr>"

definition runq_remove :: "tid \<Rightarrow> kernel \<Rightarrow> kernel" where
  "runq_remove t k = k\<lparr>runq := z_priq_dumb_remove t (runq k)\<rparr>"

definition runq_yield :: "kernel \<Rightarrow> kernel" where
  "runq_yield k = k\<lparr>runq := z_priq_dumb_yield (prio_of k) (current k) (runq k)\<rparr>"

definition runq_best :: "kernel \<Rightarrow> tid option" where
  "runq_best k = z_priq_dumb_best (runq k)"

definition queue_thread :: "tid \<Rightarrow> kernel \<Rightarrow> kernel" where
  "queue_thread t k = runq_add t (upd_thread t z_mark_thread_as_queued k)"

definition dequeue_thread :: "tid \<Rightarrow> kernel \<Rightarrow> kernel" where
  "dequeue_thread t k = runq_remove t (upd_thread t z_mark_thread_as_not_queued k)"

definition next_up :: "kernel \<Rightarrow> tid" where
  "next_up k = (case runq_best k of Some t \<Rightarrow> t | None \<Rightarrow> idle_thread k)"

definition update_cache :: "bool \<Rightarrow> kernel \<Rightarrow> kernel" where
  "update_cache preempt_ok k =
     (let t = next_up k
      in if should_preempt k t preempt_ok
         then (if t \<noteq> current k then z_reset_time_slice t k else k)\<lparr>ready_cache := t\<rparr>
         else k\<lparr>ready_cache := current k\<rparr>)"

definition move_thread_to_end_of_prio_q :: "tid \<Rightarrow> kernel \<Rightarrow> kernel" where
  "move_thread_to_end_of_prio_q t k =
     (let k1 = (if z_is_thread_queued (threads k t) then dequeue_thread t k else k);
          k2 = queue_thread t k1
      in update_cache (t = current k2) k2)"

definition z_time_slice :: "kernel \<Rightarrow> kernel" where
  "z_time_slice k =
     (let curr = current k
      in if slice_expired k \<and> thread_is_sliceable k curr
         then z_reset_time_slice curr
                (if \<not> z_is_thread_prevented_from_running (threads k curr)
                 then move_thread_to_end_of_prio_q curr k else k)
         else k)"

definition ready_thread :: "tid \<Rightarrow> kernel \<Rightarrow> kernel" where
  "ready_thread t k =
     (if \<not> z_is_thread_queued (threads k t) \<and> z_is_thread_ready (threads k t)
      then update_cache False (queue_thread t k) else k)"

definition z_ready_thread :: "tid \<Rightarrow> kernel \<Rightarrow> kernel" where
  "z_ready_thread t k = ready_thread t k"

definition unready_thread :: "tid \<Rightarrow> kernel \<Rightarrow> kernel" where
  "unready_thread t k =
     (let k1 = (if z_is_thread_queued (threads k t) then dequeue_thread t k else k)
      in update_cache (t = current k1) k1)"

section \<open>Context switch\<close>

definition arch_thread_return_value_set :: "tid \<Rightarrow> int \<Rightarrow> kernel \<Rightarrow> kernel" where
  "arch_thread_return_value_set t v k = upd_thread t (\<lambda>th. th\<lparr>swap_retval := v\<rparr>) k"

definition z_thread_return_value_set_with_data :: "tid \<Rightarrow> int \<Rightarrow> nat \<Rightarrow> kernel \<Rightarrow> kernel" where
  "z_thread_return_value_set_with_data t v d k =
     upd_thread t (\<lambda>th. th\<lparr>swap_data := d\<rparr>) (arch_thread_return_value_set t v k)"

definition z_swap_next_thread :: "kernel \<Rightarrow> tid" where
  "z_swap_next_thread k = ready_cache k"

definition z_swap :: "kernel \<Rightarrow> kernel" where
  "z_swap k =
     (let old = current k;
          k1 = upd_thread old (\<lambda>th. th\<lparr>swap_retval := - EAGAIN\<rparr>) k;
          new = z_swap_next_thread k1
      in if new \<noteq> old then z_reset_time_slice new (k1\<lparr>current := new\<rparr>) else k1)"

definition resched :: "kernel \<Rightarrow> bool" where
  "resched k \<longleftrightarrow> irq_unlocked k \<and> \<not> in_isr k"

definition need_swap :: "kernel \<Rightarrow> bool" where
  "need_swap k \<longleftrightarrow> ready_cache k \<noteq> current k"

definition z_reschedule :: "kernel \<Rightarrow> kernel" where
  "z_reschedule k = (if resched k \<and> need_swap k then z_swap k else k)"

definition z_reschedule_irqlock :: "kernel \<Rightarrow> kernel" where
  "z_reschedule_irqlock k = (if resched k \<and> need_swap k then z_swap k else k)"

definition z_reschedule_unlocked :: "kernel \<Rightarrow> kernel" where
  "z_reschedule_unlocked k = z_reschedule_irqlock k"

text \<open>The switch at the end of an interrupt.\<close>

definition z_get_next_switch_handle :: "kernel \<Rightarrow> kernel" where
  "z_get_next_switch_handle k = k\<lparr>current := ready_cache k\<rparr>"

section \<open>Pending and waking\<close>

definition add_to_waitq_locked :: "tid \<Rightarrow> wqid option \<Rightarrow> kernel \<Rightarrow> kernel" where
  "add_to_waitq_locked t wq k =
     (let k1 = upd_thread t z_mark_thread_as_pending (unready_thread t k)
      in case wq of
           None \<Rightarrow> k1
         | Some w \<Rightarrow>
             let k2 = upd_thread t (\<lambda>th. th\<lparr>pended_on := Some w\<rparr>) k1
             in k2\<lparr>wait_qs := (wait_qs k2)(w := z_priq_dumb_add (prio_of k2) t (wait_qs k2 w))\<rparr>)"

definition z_add_thread_timeout :: "tid \<Rightarrow> k_timeout \<Rightarrow> kernel \<Rightarrow> kernel" where
  "z_add_thread_timeout t n k = z_add_timeout (ThreadTimeout t) Z_thread_timeout n k"

definition z_abort_thread_timeout :: "tid \<Rightarrow> kernel \<Rightarrow> kernel" where
  "z_abort_thread_timeout t k = snd (z_abort_timeout (ThreadTimeout t) k)"

definition add_thread_timeout :: "tid \<Rightarrow> k_timeout \<Rightarrow> kernel \<Rightarrow> kernel" where
  "add_thread_timeout t n k = (if n \<noteq> K_FOREVER then z_add_thread_timeout t n k else k)"

definition pend_locked :: "tid \<Rightarrow> wqid option \<Rightarrow> k_timeout \<Rightarrow> kernel \<Rightarrow> kernel" where
  "pend_locked t wq n k = add_thread_timeout t n (add_to_waitq_locked t wq k)"

definition z_pend_thread :: "tid \<Rightarrow> wqid option \<Rightarrow> k_timeout \<Rightarrow> kernel \<Rightarrow> kernel" where
  "z_pend_thread t wq n k = pend_locked t wq n k"

definition z_pend_curr :: "wqid option \<Rightarrow> k_timeout \<Rightarrow> kernel \<Rightarrow> kernel" where
  "z_pend_curr wq n k = z_swap (pend_locked (current k) wq n k)"

text \<open>\<open>unpend_thread_no_timeout\<close> is only called on a thread that is pended on a queue.\<close>

definition unpend_thread_no_timeout :: "tid \<Rightarrow> kernel \<Rightarrow> kernel" where
  "unpend_thread_no_timeout t k =
     (case pended_on (threads k t) of
        None \<Rightarrow> k
      | Some w \<Rightarrow>
          let k1 = k\<lparr>wait_qs := (wait_qs k)(w := z_priq_dumb_remove t (wait_qs k w))\<rparr>
          in upd_thread t (\<lambda>th. th\<lparr>pended_on := None\<rparr>) (upd_thread t z_mark_thread_as_not_pending k1))"

definition z_unpend_thread_no_timeout :: "tid \<Rightarrow> kernel \<Rightarrow> kernel" where
  "z_unpend_thread_no_timeout t k =
     (if pended_on (threads k t) \<noteq> None then unpend_thread_no_timeout t k else k)"

definition z_unpend_thread :: "tid \<Rightarrow> kernel \<Rightarrow> kernel" where
  "z_unpend_thread t k = z_abort_thread_timeout t (z_unpend_thread_no_timeout t k)"

definition z_waitq_head :: "wqid \<Rightarrow> kernel \<Rightarrow> tid option" where
  "z_waitq_head w k = z_priq_dumb_best (wait_qs k w)"

definition z_unpend1_no_timeout :: "wqid \<Rightarrow> kernel \<Rightarrow> tid option \<times> kernel" where
  "z_unpend1_no_timeout w k =
     (case z_priq_dumb_best (wait_qs k w) of
        None \<Rightarrow> (None, k)
      | Some t \<Rightarrow> (Some t, unpend_thread_no_timeout t k))"

definition z_unpend_first_thread :: "wqid \<Rightarrow> kernel \<Rightarrow> tid option \<times> kernel" where
  "z_unpend_first_thread w k =
     (case z_priq_dumb_best (wait_qs k w) of
        None \<Rightarrow> (None, k)
      | Some t \<Rightarrow> (Some t, z_abort_thread_timeout t (unpend_thread_no_timeout t k)))"

definition z_sched_wake_thread :: "tid \<Rightarrow> bool \<Rightarrow> kernel \<Rightarrow> kernel" where
  "z_sched_wake_thread t is_timeout k =
     (let killed = (thread_state (threads k t) AND (THREAD_DEAD OR THREAD_ABORTING) \<noteq> 0);
          do_nothing = (no_wake_on_timeout (threads k t) \<and> is_timeout);
          k1 = upd_thread t (\<lambda>th. th\<lparr>no_wake_on_timeout := False\<rparr>) k
      in if do_nothing then k1
         else if \<not> killed
         then let k2 = (if pended_on (threads k1 t) \<noteq> None then unpend_thread_no_timeout t k1 else k1);
                  k3 = upd_thread t z_mark_thread_as_not_sleeping k2
              in ready_thread t k3
         else k1)"

definition z_thread_timeout :: "tid \<Rightarrow> kernel \<Rightarrow> kernel" where
  "z_thread_timeout t k = z_sched_wake_thread t True k"

definition z_sched_wake :: "wqid \<Rightarrow> int \<Rightarrow> nat \<Rightarrow> kernel \<Rightarrow> bool \<times> kernel" where
  "z_sched_wake w v d k =
     (case z_priq_dumb_best (wait_qs k w) of
        None \<Rightarrow> (False, k)
      | Some t \<Rightarrow>
          let k1 = z_thread_return_value_set_with_data t v d k;
              k2 = z_abort_thread_timeout t (unpend_thread_no_timeout t k1)
          in (True, ready_thread t k2))"

section \<open>Draining a wait queue\<close>

text \<open>The loop \<open>for (t = z_waitq_head(w); t != NULL; t = z_waitq_head(w)) body(t)\<close>.\<close>

partial_function (option) drain :: "(tid \<Rightarrow> kernel \<Rightarrow> kernel) \<Rightarrow> wqid \<Rightarrow> kernel \<Rightarrow> kernel option" where
  "drain body w k = (case z_waitq_head w k of None \<Rightarrow> Some k | Some t \<Rightarrow> drain body w (body t k))"

definition z_unpend_all_body :: "tid \<Rightarrow> kernel \<Rightarrow> kernel" where
  "z_unpend_all_body t k = z_ready_thread t (z_unpend_thread t k)"

definition z_unpend_all :: "wqid \<Rightarrow> kernel \<Rightarrow> (bool \<times> kernel) option" where
  "z_unpend_all w k = map_option (\<lambda>k'. (wait_qs k w \<noteq> [], k')) (drain z_unpend_all_body w k)"

definition unpend_all_body :: "tid \<Rightarrow> kernel \<Rightarrow> kernel" where
  "unpend_all_body t k =
     ready_thread t (arch_thread_return_value_set t 0
       (z_abort_thread_timeout t (unpend_thread_no_timeout t k)))"

definition unpend_all :: "wqid \<Rightarrow> kernel \<Rightarrow> kernel option" where
  "unpend_all w k = drain unpend_all_body w k"

definition sched_wake_body :: "int \<Rightarrow> nat \<Rightarrow> tid \<Rightarrow> kernel \<Rightarrow> kernel" where
  "sched_wake_body v d t k =
     ready_thread t (z_abort_thread_timeout t (unpend_thread_no_timeout t
       (z_thread_return_value_set_with_data t v d k)))"

definition z_sched_wake_all :: "wqid \<Rightarrow> int \<Rightarrow> nat \<Rightarrow> kernel \<Rightarrow> (bool \<times> kernel) option" where
  "z_sched_wake_all w v d k = map_option (\<lambda>k'. (wait_qs k w \<noteq> [], k')) (drain (sched_wake_body v d) w k)"

text \<open>\<open>z_sched_waitq_walk\<close>: the callback does not change the queue it is called on.\<close>

fun walk_loop :: "(tid \<Rightarrow> 's \<Rightarrow> int \<times> 's) \<Rightarrow> tid list \<Rightarrow> 's \<Rightarrow> int \<times> 's" where
  "walk_loop func [] s = (0, s)"
| "walk_loop func (t # ts) s = (let (st, s') = func t s in if st \<noteq> 0 then (st, s') else walk_loop func ts s')"

definition z_sched_waitq_walk :: "wqid \<Rightarrow> (tid \<Rightarrow> kernel \<times> 'd \<Rightarrow> int \<times> kernel \<times> 'd) \<Rightarrow> 'd \<Rightarrow> kernel \<Rightarrow> int \<times> kernel \<times> 'd" where
  "z_sched_waitq_walk w func data k = walk_loop func (wait_qs k w) (k, data)"

section \<open>Halting threads\<close>

definition z_dummy_thread_init :: "kernel \<Rightarrow> kernel" where
  "z_dummy_thread_init k =
     (let k1 = upd_thread (dummy_thread k) (\<lambda>th. th\<lparr>thread_state := THREAD_DUMMY, user_options := K_ESSENTIAL\<rparr>) k
      in k1\<lparr>current := dummy_thread k1\<rparr>)"

definition halt_dead :: "tid \<Rightarrow> kernel \<Rightarrow> kernel option" where
  "halt_dead t k =
     (let k1 = (if pended_on (threads k t) \<noteq> None then unpend_thread_no_timeout t k else k)
      in unpend_all (JoinQ t) (z_abort_thread_timeout t k1))"

definition halt_thread :: "tid \<Rightarrow> u8 \<Rightarrow> kernel \<Rightarrow> kernel option" where
  "halt_thread t new_state k =
     (if thread_state (threads k t) AND new_state = 0
      then do {
        let k1 = upd_thread t (set_state new_state) k;
        let k2 = (if z_is_thread_queued (threads k1 t) then dequeue_thread t k1 else k1);
        k3 \<leftarrow> (if new_state = THREAD_DEAD then halt_dead t k2 else Some k2);
        let dummify = (new_state = THREAD_DEAD \<and> t = current k3 \<and> in_isr k3);
        let k4 = update_cache True k3;
        Some (if new_state \<noteq> THREAD_SUSPENDED \<and> dummify then z_dummy_thread_init k4 else k4) }
      else Some k)"

definition k_panic :: "kernel \<Rightarrow> kernel" where
  "k_panic k = k\<lparr>panicked := True\<rparr>"

definition z_thread_halt :: "tid \<Rightarrow> bool \<Rightarrow> kernel \<Rightarrow> kernel option" where
  "z_thread_halt t terminate k =
     do { k1 \<leftarrow> halt_thread t (if terminate then THREAD_DEAD else THREAD_SUSPENDED) k;
          Some (if t = current k1 \<and> \<not> in_isr k1
                then z_swap (if z_is_thread_essential (threads k1 t) then k_panic k1 else k1)
                else k1) }"

definition k_thread_suspend :: "tid \<Rightarrow> kernel \<Rightarrow> kernel option" where
  "k_thread_suspend t k =
     (if t = current k \<and> \<not> in_isr k
      then Some (z_swap (update_cache True (dequeue_thread t (upd_thread t z_mark_thread_as_suspended k))))
      else if z_is_thread_suspended (threads k t) then Some k
      else z_thread_halt t False k)"

definition k_thread_resume :: "tid \<Rightarrow> kernel \<Rightarrow> kernel" where
  "k_thread_resume t k =
     (if \<not> z_is_thread_suspended (threads k t) then k
      else z_reschedule (ready_thread t (upd_thread t z_mark_thread_as_not_suspended k)))"

definition z_thread_abort :: "tid \<Rightarrow> kernel \<Rightarrow> kernel option" where
  "z_thread_abort t k =
     (let essential = z_is_thread_essential (threads k t)
      in if thread_state (threads k t) AND THREAD_DEAD \<noteq> 0 then Some k
         else map_option (\<lambda>k1. if essential then k_panic k1 else k1) (z_thread_halt t True k))"

definition k_thread_abort :: "tid \<Rightarrow> kernel \<Rightarrow> kernel option" where
  "k_thread_abort t k = z_thread_abort t k"

section \<open>Blocking calls\<close>

text \<open>What a call that may block gives its caller: a value, or the caller is switched out and later
  resumes behind the switch.\<close>

datatype 'a outcome = Done 'a | Blocked

definition k_thread_join :: "tid \<Rightarrow> k_timeout \<Rightarrow> kernel \<Rightarrow> int outcome \<times> kernel" where
  "k_thread_join t n k =
     (if thread_state (threads k t) AND THREAD_DEAD \<noteq> 0 then (Done 0, k)
      else if n = K_NO_WAIT then (Done (- EBUSY), k)
      else if t = current k \<or> pended_on (threads k t) = Some (JoinQ (current k)) then (Done (- EDEADLK), k)
      else (Blocked, z_swap (add_thread_timeout (current k) n (add_to_waitq_locked (current k) (Some (JoinQ t)) k))))"

text \<open>The value a resumed thread reads behind \<open>z_swap\<close>.\<close>

definition swap_result :: "kernel \<Rightarrow> int" where
  "swap_result k = swap_retval (threads k (current k))"

definition k_yield :: "kernel \<Rightarrow> kernel" where
  "k_yield k = z_swap (update_cache True (runq_yield k))"

definition expected_wakeup :: "int \<Rightarrow> kernel \<Rightarrow> u32" where
  "expected_wakeup ticks k =
     (if Z_TICK_ABS ticks \<le> 0 then word_of_int ticks + sys_clock_tick_get_32 k else word_of_int (Z_TICK_ABS ticks))"

definition z_tick_sleep :: "int \<Rightarrow> kernel \<Rightarrow> int outcome \<times> kernel" where
  "z_tick_sleep ticks k =
     (if ticks = 0 then (Done 0, k_yield k)
      else let c = current k;
               k1 = z_add_thread_timeout c ticks (unready_thread c k);
               k2 = upd_thread c z_mark_thread_as_sleeping k1
           in (Blocked, z_swap k2))"

definition z_tick_sleep_resume :: "u32 \<Rightarrow> kernel \<Rightarrow> int" where
  "z_tick_sleep_resume expected k =
     (let left_ticks = expected - sys_clock_tick_get_32 k; ticks = sint left_ticks
      in if ticks > 0 then ticks else 0)"

text \<open>\<open>ticks_to_ms\<close> is the generated conversion \<open>k_ticks_to_ms_ceil64\<close>.\<close>

definition k_sleep_return :: "(int \<Rightarrow> int) \<Rightarrow> k_timeout \<Rightarrow> int \<Rightarrow> int" where
  "k_sleep_return ticks_to_ms timeout ticks = (if timeout = K_FOREVER then - 1 else ticks_to_ms ticks)"

definition k_sleep :: "(int \<Rightarrow> int) \<Rightarrow> k_timeout \<Rightarrow> kernel \<Rightarrow> int outcome \<times> kernel" where
  "k_sleep ticks_to_ms timeout k =
     (case z_tick_sleep timeout k of
        (Done t, k') \<Rightarrow> (Done (k_sleep_return ticks_to_ms timeout t), k')
      | (Blocked, k') \<Rightarrow> (Blocked, k'))"

definition k_wakeup :: "tid \<Rightarrow> kernel \<Rightarrow> kernel" where
  "k_wakeup t k =
     (if z_is_thread_sleeping (threads k t)
      then z_reschedule (ready_thread t (upd_thread t z_mark_thread_as_not_sleeping (z_abort_thread_timeout t k)))
      else k)"

section \<open>Priorities and scheduler locking\<close>

definition i8 :: "int \<Rightarrow> int" where
  "i8 x = sint (word_of_int x :: u8)"

definition z_thread_prio_set :: "tid \<Rightarrow> int \<Rightarrow> kernel \<Rightarrow> bool \<times> kernel" where
  "z_thread_prio_set t p k =
     (let need_sched = z_is_thread_ready (threads k t)
      in if need_sched
         then let k1 = dequeue_thread t k;
                  k2 = upd_thread t (\<lambda>th. th\<lparr>prio := i8 p\<rparr>) k1;
                  k3 = queue_thread t k2
              in (True, update_cache True k3)
         else (False, upd_thread t (\<lambda>th. th\<lparr>prio := i8 p\<rparr>) k))"

definition k_thread_priority_set :: "tid \<Rightarrow> int \<Rightarrow> kernel \<Rightarrow> kernel" where
  "k_thread_priority_set t p k =
     (let (need_sched, k1) = z_thread_prio_set t p k
      in if need_sched \<and> sched_locked (threads k1 (current k1)) = 0 then z_reschedule_unlocked k1 else k1)"

definition k_thread_priority_get :: "tid \<Rightarrow> kernel \<Rightarrow> int" where
  "k_thread_priority_get t k = prio (threads k t)"

definition k_is_preempt_thread :: "kernel \<Rightarrow> bool" where
  "k_is_preempt_thread k \<longleftrightarrow> \<not> in_isr k \<and> thread_is_preemptible (threads k (current k))"

definition k_sched_lock :: "kernel \<Rightarrow> kernel" where
  "k_sched_lock k = upd_thread (current k) (\<lambda>th. th\<lparr>sched_locked := sched_locked th - 1\<rparr>) k"

definition k_sched_unlock :: "kernel \<Rightarrow> kernel" where
  "k_sched_unlock k =
     z_reschedule_unlocked
       (update_cache False (upd_thread (current k) (\<lambda>th. th\<lparr>sched_locked := sched_locked th + 1\<rparr>) k))"

definition k_reschedule :: "kernel \<Rightarrow> kernel" where
  "k_reschedule k = z_reschedule (update_cache False k)"

definition k_can_yield :: "kernel \<Rightarrow> bool" where
  "k_can_yield k \<longleftrightarrow> \<not> (in_isr k \<or> z_is_idle_thread_object k (current k))"

section \<open>Creating threads\<close>

definition z_init_thread_base :: "int \<Rightarrow> u8 \<Rightarrow> u8 \<Rightarrow> k_thread \<Rightarrow> k_thread" where
  "z_init_thread_base p state options th =
     th\<lparr>pended_on := None, user_options := options, thread_state := state, prio := i8 p, sched_locked := 0\<rparr>"

text \<open>The scheduling part of \<open>z_setup_new_thread\<close>: stack, entry point and names are not modelled.\<close>

definition z_setup_new_thread :: "tid \<Rightarrow> int \<Rightarrow> u8 \<Rightarrow> kernel \<Rightarrow> kernel" where
  "z_setup_new_thread t p options k =
     (let k1 = k\<lparr>wait_qs := (wait_qs k)(JoinQ t := [])\<rparr>
      in upd_thread t (\<lambda>th. (z_init_thread_base p THREAD_SLEEPING options th)\<lparr>no_wake_on_timeout := False\<rparr>) k1)"

definition thread_schedule_new :: "tid \<Rightarrow> k_timeout \<Rightarrow> kernel \<Rightarrow> kernel" where
  "thread_schedule_new t delay k =
     (if delay = K_NO_WAIT then k_wakeup t k else z_add_thread_timeout t delay k)"

definition k_thread_create :: "tid \<Rightarrow> int \<Rightarrow> u8 \<Rightarrow> k_timeout \<Rightarrow> kernel \<Rightarrow> kernel" where
  "k_thread_create t p options delay k =
     (let k1 = z_setup_new_thread t p options k
      in if delay \<noteq> K_FOREVER then thread_schedule_new t delay k1 else k1)"

end
