(* ===== verification/Sched_Inv.thy ===== *)
theory Sched_Inv
  imports Sched
begin

text \<open>
  The scheduler invariant and its preservation by the scheduling primitives. \<open>sched_inv X\<close> relates
  the ready queue, the wait queues, the timeout queue and the ready-thread cache to the threads'
  flags; \<open>X\<close> is the set of threads in transit, taken off a wait queue and not yet made ready.
\<close>

section \<open>Flags as bits\<close>

lemma bit_mask_bits:
  "bit (push_bit n 1 :: u8) i \<longleftrightarrow> i = n \<and> n < 8"
  by (auto simp: bit_exp_iff)

lemma state_bits [flag_simps]:
  "bit THREAD_DUMMY i \<longleftrightarrow> i = 0" "bit THREAD_PENDING i \<longleftrightarrow> i = 1" "bit THREAD_SLEEPING i \<longleftrightarrow> i = 2"
  "bit THREAD_DEAD i \<longleftrightarrow> i = 3" "bit THREAD_SUSPENDED i \<longleftrightarrow> i = 4" "bit THREAD_ABORTING i \<longleftrightarrow> i = 5"
  "bit THREAD_SUSPENDING i \<longleftrightarrow> i = 6" "bit THREAD_QUEUED i \<longleftrightarrow> i = 7"
  unfolding state_defs bit_mask_bits by auto

lemma set_state_bits [flag_simps]: "bit (thread_state (set_state s th)) i \<longleftrightarrow> bit (thread_state th) i \<or> bit s i"
  by (simp add: set_state_def bit_or_iff)

lemma clear_state_bits [flag_simps]:
  "i < 8 \<Longrightarrow> bit (thread_state (clear_state s th)) i \<longleftrightarrow> bit (thread_state th) i \<and> \<not> bit s i"
  by (simp add: clear_state_def bit_and_iff bit_not_iff)

lemma set_state_fields [flag_simps]:
  "prio (set_state s th) = prio th" "sched_locked (set_state s th) = sched_locked th"
  "user_options (set_state s th) = user_options th" "pended_on (set_state s th) = pended_on th"
  "swap_retval (set_state s th) = swap_retval th" "swap_data (set_state s th) = swap_data th"
  "events (set_state s th) = events th" "event_options (set_state s th) = event_options th"
  "no_wake_on_timeout (set_state s th) = no_wake_on_timeout th"
  by (simp_all add: set_state_def)

lemma clear_state_fields [flag_simps]:
  "prio (clear_state s th) = prio th" "sched_locked (clear_state s th) = sched_locked th"
  "user_options (clear_state s th) = user_options th" "pended_on (clear_state s th) = pended_on th"
  "swap_retval (clear_state s th) = swap_retval th" "swap_data (clear_state s th) = swap_data th"
  "events (clear_state s th) = events th" "event_options (clear_state s th) = event_options th"
  "no_wake_on_timeout (clear_state s th) = no_wake_on_timeout th"
  by (simp_all add: clear_state_def)

lemma and_push_bit_iff: "w AND push_bit n 1 \<noteq> 0 \<longleftrightarrow> bit w n" for w :: u8
  using and_bit_mask_iff [of w n] by simp

lemma is_flag_bits [flag_simps]:
  "z_is_thread_suspended th \<longleftrightarrow> bit (thread_state th) 4" "z_is_thread_pending th \<longleftrightarrow> bit (thread_state th) 1"
  "z_is_thread_sleeping th \<longleftrightarrow> bit (thread_state th) 2" "z_is_thread_queued th \<longleftrightarrow> bit (thread_state th) 7"
  "z_is_thread_dead th \<longleftrightarrow> bit (thread_state th) 3"
  unfolding z_is_thread_suspended_def z_is_thread_pending_def z_is_thread_sleeping_def z_is_thread_queued_def
    z_is_thread_state_set_def z_is_thread_dead_def state_defs and_push_bit_iff by simp_all

lemma and_state_zero [flag_simps]:
  "w AND THREAD_DEAD = 0 \<longleftrightarrow> \<not> bit w 3" "w AND THREAD_SUSPENDED = 0 \<longleftrightarrow> \<not> bit w 4"
  using and_push_bit_iff [of w 3] and_push_bit_iff [of w 4] unfolding state_defs by auto

lemma word_nonzero_bit:
  "w \<noteq> 0 \<longleftrightarrow> bit w 0 \<or> bit w 1 \<or> bit w 2 \<or> bit w 3 \<or> bit w 4 \<or> bit w 5 \<or> bit w 6 \<or> bit w 7" for w :: u8
proof
  assume "w \<noteq> 0"
  then obtain i where i: "bit w i" using bit_eq_iff [of w 0] by auto
  then have "i < 8" using bit_imp_le_length [of w i] by auto
  then have "i = 0 \<or> i = 1 \<or> i = 2 \<or> i = 3 \<or> i = 4 \<or> i = 5 \<or> i = 6 \<or> i = 7" by linarith
  with i show "bit w 0 \<or> bit w 1 \<or> bit w 2 \<or> bit w 3 \<or> bit w 4 \<or> bit w 5 \<or> bit w 6 \<or> bit w 7" by blast
qed auto

lemma prevented_bits [flag_simps]:
  "z_is_thread_prevented_from_running th \<longleftrightarrow> bit (thread_state th) 0 \<or> bit (thread_state th) 1 \<or>
     bit (thread_state th) 2 \<or> bit (thread_state th) 3 \<or> bit (thread_state th) 4"
  unfolding z_is_thread_prevented_from_running_def word_nonzero_bit
  by (auto simp: bit_and_iff bit_or_iff state_bits)

lemma killed_bits [flag_simps]:
  "(thread_state th AND (THREAD_DEAD OR THREAD_ABORTING) = 0) \<longleftrightarrow> \<not> bit (thread_state th) 3 \<and> \<not> bit (thread_state th) 5"
  using word_nonzero_bit [of "thread_state th AND (THREAD_DEAD OR THREAD_ABORTING)"]
  by (auto simp: bit_and_iff bit_or_iff state_bits)

lemma ready_bits [flag_simps]: "z_is_thread_ready th \<longleftrightarrow> \<not> z_is_thread_prevented_from_running th"
  by (simp add: z_is_thread_ready_def)

lemmas mark_defs [flag_simps] =
  z_mark_thread_as_queued_def z_mark_thread_as_not_queued_def z_mark_thread_as_suspended_def
  z_mark_thread_as_not_suspended_def z_mark_thread_as_pending_def z_mark_thread_as_not_pending_def
  z_mark_thread_as_sleeping_def z_mark_thread_as_not_sleeping_def

text \<open>The flag updates as seen by the flag tests.\<close>

named_theorems flag_ops

lemma flag_updates [flag_ops]:
  "z_is_thread_pending (set_state THREAD_PENDING th)"
  "\<not> z_is_thread_pending (clear_state THREAD_PENDING th)"
  "z_is_thread_sleeping (set_state THREAD_PENDING th) = z_is_thread_sleeping th"
  "z_is_thread_sleeping (clear_state THREAD_PENDING th) = z_is_thread_sleeping th"
  "z_is_thread_dead (set_state THREAD_PENDING th) = z_is_thread_dead th"
  "z_is_thread_dead (clear_state THREAD_PENDING th) = z_is_thread_dead th"
  "z_is_thread_suspended (set_state THREAD_PENDING th) = z_is_thread_suspended th"
  "z_is_thread_suspended (clear_state THREAD_PENDING th) = z_is_thread_suspended th"
  "z_is_thread_queued (set_state THREAD_PENDING th) = z_is_thread_queued th"
  "z_is_thread_queued (clear_state THREAD_PENDING th) = z_is_thread_queued th"
  "z_is_thread_pending (set_state THREAD_SLEEPING th) = z_is_thread_pending th"
  "z_is_thread_pending (clear_state THREAD_SLEEPING th) = z_is_thread_pending th"
  "z_is_thread_sleeping (set_state THREAD_SLEEPING th)"
  "\<not> z_is_thread_sleeping (clear_state THREAD_SLEEPING th)"
  "z_is_thread_dead (set_state THREAD_SLEEPING th) = z_is_thread_dead th"
  "z_is_thread_dead (clear_state THREAD_SLEEPING th) = z_is_thread_dead th"
  "z_is_thread_suspended (set_state THREAD_SLEEPING th) = z_is_thread_suspended th"
  "z_is_thread_suspended (clear_state THREAD_SLEEPING th) = z_is_thread_suspended th"
  "z_is_thread_queued (set_state THREAD_SLEEPING th) = z_is_thread_queued th"
  "z_is_thread_queued (clear_state THREAD_SLEEPING th) = z_is_thread_queued th"
  "z_is_thread_pending (set_state THREAD_DEAD th) = z_is_thread_pending th"
  "z_is_thread_pending (clear_state THREAD_DEAD th) = z_is_thread_pending th"
  "z_is_thread_sleeping (set_state THREAD_DEAD th) = z_is_thread_sleeping th"
  "z_is_thread_sleeping (clear_state THREAD_DEAD th) = z_is_thread_sleeping th"
  "z_is_thread_dead (set_state THREAD_DEAD th)"
  "\<not> z_is_thread_dead (clear_state THREAD_DEAD th)"
  "z_is_thread_suspended (set_state THREAD_DEAD th) = z_is_thread_suspended th"
  "z_is_thread_suspended (clear_state THREAD_DEAD th) = z_is_thread_suspended th"
  "z_is_thread_queued (set_state THREAD_DEAD th) = z_is_thread_queued th"
  "z_is_thread_queued (clear_state THREAD_DEAD th) = z_is_thread_queued th"
  "z_is_thread_pending (set_state THREAD_SUSPENDED th) = z_is_thread_pending th"
  "z_is_thread_pending (clear_state THREAD_SUSPENDED th) = z_is_thread_pending th"
  "z_is_thread_sleeping (set_state THREAD_SUSPENDED th) = z_is_thread_sleeping th"
  "z_is_thread_sleeping (clear_state THREAD_SUSPENDED th) = z_is_thread_sleeping th"
  "z_is_thread_dead (set_state THREAD_SUSPENDED th) = z_is_thread_dead th"
  "z_is_thread_dead (clear_state THREAD_SUSPENDED th) = z_is_thread_dead th"
  "z_is_thread_suspended (set_state THREAD_SUSPENDED th)"
  "\<not> z_is_thread_suspended (clear_state THREAD_SUSPENDED th)"
  "z_is_thread_queued (set_state THREAD_SUSPENDED th) = z_is_thread_queued th"
  "z_is_thread_queued (clear_state THREAD_SUSPENDED th) = z_is_thread_queued th"
  "z_is_thread_pending (set_state THREAD_QUEUED th) = z_is_thread_pending th"
  "z_is_thread_pending (clear_state THREAD_QUEUED th) = z_is_thread_pending th"
  "z_is_thread_sleeping (set_state THREAD_QUEUED th) = z_is_thread_sleeping th"
  "z_is_thread_sleeping (clear_state THREAD_QUEUED th) = z_is_thread_sleeping th"
  "z_is_thread_dead (set_state THREAD_QUEUED th) = z_is_thread_dead th"
  "z_is_thread_dead (clear_state THREAD_QUEUED th) = z_is_thread_dead th"
  "z_is_thread_suspended (set_state THREAD_QUEUED th) = z_is_thread_suspended th"
  "z_is_thread_suspended (clear_state THREAD_QUEUED th) = z_is_thread_suspended th"
  "z_is_thread_queued (set_state THREAD_QUEUED th)"
  "\<not> z_is_thread_queued (clear_state THREAD_QUEUED th)"
  "z_is_thread_ready (set_state THREAD_QUEUED th) = z_is_thread_ready th"
  "z_is_thread_ready (clear_state THREAD_QUEUED th) = z_is_thread_ready th"
  "\<not> z_is_thread_ready (set_state THREAD_PENDING th)"
  "\<not> z_is_thread_ready (set_state THREAD_SLEEPING th)"
  "\<not> z_is_thread_ready (set_state THREAD_DEAD th)"
  "\<not> z_is_thread_ready (set_state THREAD_SUSPENDED th)"
  by (auto simp: flag_simps)

lemma field_updates [flag_ops]:
  "z_is_thread_pending (pended_on_update g0 th) = z_is_thread_pending th"
  "z_is_thread_sleeping (pended_on_update g0 th) = z_is_thread_sleeping th"
  "z_is_thread_dead (pended_on_update g0 th) = z_is_thread_dead th"
  "z_is_thread_suspended (pended_on_update g0 th) = z_is_thread_suspended th"
  "z_is_thread_queued (pended_on_update g0 th) = z_is_thread_queued th"
  "z_is_thread_ready (pended_on_update g0 th) = z_is_thread_ready th"
  "z_is_thread_pending (swap_retval_update g1 th) = z_is_thread_pending th"
  "z_is_thread_sleeping (swap_retval_update g1 th) = z_is_thread_sleeping th"
  "z_is_thread_dead (swap_retval_update g1 th) = z_is_thread_dead th"
  "z_is_thread_suspended (swap_retval_update g1 th) = z_is_thread_suspended th"
  "z_is_thread_queued (swap_retval_update g1 th) = z_is_thread_queued th"
  "z_is_thread_ready (swap_retval_update g1 th) = z_is_thread_ready th"
  "z_is_thread_pending (swap_data_update g2 th) = z_is_thread_pending th"
  "z_is_thread_sleeping (swap_data_update g2 th) = z_is_thread_sleeping th"
  "z_is_thread_dead (swap_data_update g2 th) = z_is_thread_dead th"
  "z_is_thread_suspended (swap_data_update g2 th) = z_is_thread_suspended th"
  "z_is_thread_queued (swap_data_update g2 th) = z_is_thread_queued th"
  "z_is_thread_ready (swap_data_update g2 th) = z_is_thread_ready th"
  "z_is_thread_pending (events_update g3 th) = z_is_thread_pending th"
  "z_is_thread_sleeping (events_update g3 th) = z_is_thread_sleeping th"
  "z_is_thread_dead (events_update g3 th) = z_is_thread_dead th"
  "z_is_thread_suspended (events_update g3 th) = z_is_thread_suspended th"
  "z_is_thread_queued (events_update g3 th) = z_is_thread_queued th"
  "z_is_thread_ready (events_update g3 th) = z_is_thread_ready th"
  "z_is_thread_pending (event_options_update g4 th) = z_is_thread_pending th"
  "z_is_thread_sleeping (event_options_update g4 th) = z_is_thread_sleeping th"
  "z_is_thread_dead (event_options_update g4 th) = z_is_thread_dead th"
  "z_is_thread_suspended (event_options_update g4 th) = z_is_thread_suspended th"
  "z_is_thread_queued (event_options_update g4 th) = z_is_thread_queued th"
  "z_is_thread_ready (event_options_update g4 th) = z_is_thread_ready th"
  "z_is_thread_pending (no_wake_on_timeout_update g5 th) = z_is_thread_pending th"
  "z_is_thread_sleeping (no_wake_on_timeout_update g5 th) = z_is_thread_sleeping th"
  "z_is_thread_dead (no_wake_on_timeout_update g5 th) = z_is_thread_dead th"
  "z_is_thread_suspended (no_wake_on_timeout_update g5 th) = z_is_thread_suspended th"
  "z_is_thread_queued (no_wake_on_timeout_update g5 th) = z_is_thread_queued th"
  "z_is_thread_ready (no_wake_on_timeout_update g5 th) = z_is_thread_ready th"
  "z_is_thread_pending (prio_update g6 th) = z_is_thread_pending th"
  "z_is_thread_sleeping (prio_update g6 th) = z_is_thread_sleeping th"
  "z_is_thread_dead (prio_update g6 th) = z_is_thread_dead th"
  "z_is_thread_suspended (prio_update g6 th) = z_is_thread_suspended th"
  "z_is_thread_queued (prio_update g6 th) = z_is_thread_queued th"
  "z_is_thread_ready (prio_update g6 th) = z_is_thread_ready th"
  "z_is_thread_pending (sched_locked_update g7 th) = z_is_thread_pending th"
  "z_is_thread_sleeping (sched_locked_update g7 th) = z_is_thread_sleeping th"
  "z_is_thread_dead (sched_locked_update g7 th) = z_is_thread_dead th"
  "z_is_thread_suspended (sched_locked_update g7 th) = z_is_thread_suspended th"
  "z_is_thread_queued (sched_locked_update g7 th) = z_is_thread_queued th"
  "z_is_thread_ready (sched_locked_update g7 th) = z_is_thread_ready th"
  by (simp_all add: flag_simps)

lemma preemptible_updates [flag_ops]:
  "thread_is_preemptible (pended_on_update g0 th) = thread_is_preemptible th"
  "thread_is_preemptible (swap_retval_update g1 th) = thread_is_preemptible th"
  "thread_is_preemptible (swap_data_update g2 th) = thread_is_preemptible th"
  "thread_is_preemptible (events_update g3 th) = thread_is_preemptible th"
  "thread_is_preemptible (event_options_update g4 th) = thread_is_preemptible th"
  "thread_is_preemptible (no_wake_on_timeout_update g5 th) = thread_is_preemptible th"
  "thread_is_preemptible (set_state st th) = thread_is_preemptible th"
  "thread_is_preemptible (clear_state st th) = thread_is_preemptible th"
  by (simp_all add: thread_is_preemptible_def preempt_def flag_simps)

lemmas flag_fields [flag_ops] = set_state_fields clear_state_fields

lemmas flag_marks [flag_ops] = mark_defs

section \<open>Frames\<close>

lemma upd_thread_fields [frame_simps]:
  "threads (upd_thread t f k) = (threads k)(t := f (threads k t))" "runq (upd_thread t f k) = runq k"
  "ready_cache (upd_thread t f k) = ready_cache k" "current (upd_thread t f k) = current k"
  "idle_thread (upd_thread t f k) = idle_thread k" "dummy_thread (upd_thread t f k) = dummy_thread k"
  "wait_qs (upd_thread t f k) = wait_qs k" "in_isr (upd_thread t f k) = in_isr k"
  "irq_unlocked (upd_thread t f k) = irq_unlocked k" "slice_ticks (upd_thread t f k) = slice_ticks k"
  "slice_max_prio (upd_thread t f k) = slice_max_prio k" "slice_expired (upd_thread t f k) = slice_expired k"
  "timers (upd_thread t f k) = timers k" "memory (upd_thread t f k) = memory k" "panicked (upd_thread t f k) = panicked k"
  "timeout_list (upd_thread t f k) = timeout_list k" "rem_q (upd_thread t f k) = rem_q k"
  "hw_elapsed (upd_thread t f k) = hw_elapsed k" "announce_remaining (upd_thread t f k) = announce_remaining k"
  "curr_tick (upd_thread t f k) = curr_tick k" "dticks (upd_thread t f k) = dticks k"
  by (simp_all add: upd_thread_def rem_q_def)

lemma add_timeout_fields [frame_simps]:
  fixes k :: kernel
  shows "threads (z_add_timeout to fn n k) = threads k" "runq (z_add_timeout to fn n k) = runq k"
  "ready_cache (z_add_timeout to fn n k) = ready_cache k" "current (z_add_timeout to fn n k) = current k"
  "idle_thread (z_add_timeout to fn n k) = idle_thread k" "dummy_thread (z_add_timeout to fn n k) = dummy_thread k"
  "wait_qs (z_add_timeout to fn n k) = wait_qs k" "in_isr (z_add_timeout to fn n k) = in_isr k"
  "irq_unlocked (z_add_timeout to fn n k) = irq_unlocked k" "slice_ticks (z_add_timeout to fn n k) = slice_ticks k"
  "slice_max_prio (z_add_timeout to fn n k) = slice_max_prio k" "slice_expired (z_add_timeout to fn n k) = slice_expired k"
  "timers (z_add_timeout to fn n k) = timers k" "memory (z_add_timeout to fn n k) = memory k"
  "panicked (z_add_timeout to fn n k) = panicked k" "hw_elapsed (z_add_timeout to fn n k) = hw_elapsed k"
  "announce_remaining (z_add_timeout to fn n k) = announce_remaining k" "curr_tick (z_add_timeout to fn n k) = curr_tick k"
  by (simp_all add: z_add_timeout_def Let_def sys_clock_set_timeout_def split: prod.splits)

lemma abort_timeout_fields [frame_simps]:
  fixes k :: kernel
  shows "threads (snd (z_abort_timeout to k)) = threads k" "runq (snd (z_abort_timeout to k)) = runq k"
  "ready_cache (snd (z_abort_timeout to k)) = ready_cache k" "current (snd (z_abort_timeout to k)) = current k"
  "idle_thread (snd (z_abort_timeout to k)) = idle_thread k" "dummy_thread (snd (z_abort_timeout to k)) = dummy_thread k"
  "wait_qs (snd (z_abort_timeout to k)) = wait_qs k" "in_isr (snd (z_abort_timeout to k)) = in_isr k"
  "irq_unlocked (snd (z_abort_timeout to k)) = irq_unlocked k" "slice_ticks (snd (z_abort_timeout to k)) = slice_ticks k"
  "slice_max_prio (snd (z_abort_timeout to k)) = slice_max_prio k" "slice_expired (snd (z_abort_timeout to k)) = slice_expired k"
  "timers (snd (z_abort_timeout to k)) = timers k" "memory (snd (z_abort_timeout to k)) = memory k"
  "panicked (snd (z_abort_timeout to k)) = panicked k" "hw_elapsed (snd (z_abort_timeout to k)) = hw_elapsed k"
  "announce_remaining (snd (z_abort_timeout to k)) = announce_remaining k" "curr_tick (snd (z_abort_timeout to k)) = curr_tick k"
  by (simp_all add: z_abort_timeout_def Let_def sys_clock_set_timeout_def remove_timeout_def split: option.splits)

lemma reset_slice_fields [frame_simps]:
  "threads (z_reset_time_slice t k) = threads k" "runq (z_reset_time_slice t k) = runq k"
  "ready_cache (z_reset_time_slice t k) = ready_cache k" "current (z_reset_time_slice t k) = current k"
  "idle_thread (z_reset_time_slice t k) = idle_thread k" "dummy_thread (z_reset_time_slice t k) = dummy_thread k"
  "wait_qs (z_reset_time_slice t k) = wait_qs k" "in_isr (z_reset_time_slice t k) = in_isr k"
  "irq_unlocked (z_reset_time_slice t k) = irq_unlocked k" "slice_ticks (z_reset_time_slice t k) = slice_ticks k"
  "slice_max_prio (z_reset_time_slice t k) = slice_max_prio k"
  "timers (z_reset_time_slice t k) = timers k" "memory (z_reset_time_slice t k) = memory k"
  "panicked (z_reset_time_slice t k) = panicked k" "hw_elapsed (z_reset_time_slice t k) = hw_elapsed k"
  "announce_remaining (z_reset_time_slice t k) = announce_remaining k" "curr_tick (z_reset_time_slice t k) = curr_tick k"
  by (simp_all add: z_reset_time_slice_def Let_def frame_simps)

lemma update_cache_fields [frame_simps]:
  "threads (update_cache p k) = threads k" "runq (update_cache p k) = runq k" "current (update_cache p k) = current k"
  "idle_thread (update_cache p k) = idle_thread k" "dummy_thread (update_cache p k) = dummy_thread k"
  "wait_qs (update_cache p k) = wait_qs k" "in_isr (update_cache p k) = in_isr k"
  "irq_unlocked (update_cache p k) = irq_unlocked k" "slice_ticks (update_cache p k) = slice_ticks k"
  "slice_max_prio (update_cache p k) = slice_max_prio k" "timers (update_cache p k) = timers k"
  "memory (update_cache p k) = memory k" "panicked (update_cache p k) = panicked k"
  "hw_elapsed (update_cache p k) = hw_elapsed k" "announce_remaining (update_cache p k) = announce_remaining k"
  "curr_tick (update_cache p k) = curr_tick k"
  by (simp_all add: update_cache_def Let_def frame_simps)

section \<open>The invariant\<close>

text \<open>The dummy thread, which stands for the thread killed by an interrupt, can never run.\<close>

lemma is_thread_dummy_bits [flag_simps]: "is_thread_dummy th \<longleftrightarrow> bit (thread_state th) 0"
  unfolding is_thread_dummy_def state_defs by (rule and_push_bit_iff)

lemma dummy_ops [flag_ops]:
  "is_thread_dummy th \<Longrightarrow> is_thread_dummy (set_state s th)"
  "is_thread_dummy (pended_on_update g0 th) = is_thread_dummy th" "is_thread_dummy (swap_retval_update g1 th) = is_thread_dummy th"
  "is_thread_dummy (swap_data_update g2 th) = is_thread_dummy th" "is_thread_dummy (events_update g3 th) = is_thread_dummy th"
  "is_thread_dummy (event_options_update g3 th) = is_thread_dummy th" "is_thread_dummy (no_wake_on_timeout_update g5 th) = is_thread_dummy th"
  "is_thread_dummy (prio_update g6 th) = is_thread_dummy th" "is_thread_dummy (sched_locked_update g7 th) = is_thread_dummy th"
  "is_thread_dummy (clear_state THREAD_QUEUED th) = is_thread_dummy th" "is_thread_dummy (clear_state THREAD_PENDING th) = is_thread_dummy th"
  "is_thread_dummy (clear_state THREAD_SLEEPING th) = is_thread_dummy th" "is_thread_dummy (clear_state THREAD_SUSPENDED th) = is_thread_dummy th"
  by (simp_all add: is_thread_dummy_bits flag_simps)

lemma ready_not_dummy: "z_is_thread_ready th \<Longrightarrow> \<not> is_thread_dummy th"
  by (simp add: is_thread_dummy_bits flag_simps)

definition clock_ok :: "kernel \<Rightarrow> bool" where
  "clock_ok k \<longleftrightarrow> 0 \<le> hw_elapsed k \<and> hw_elapsed k < 2 ^ 31 \<and> 0 \<le> slice_ticks k \<and> slice_ticks k < 2 ^ 31"

definition runq_inv :: "kernel \<Rightarrow> bool" where
  "runq_inv k \<longleftrightarrow> distinct (runq k) \<and> sorted (map (prio_of k) (runq k)) \<and> idle_thread k \<notin> set (runq k) \<and>
     (\<forall>t. t \<in> set (runq k) \<longleftrightarrow> z_is_thread_queued (threads k t))"

definition ready_inv :: "tid set \<Rightarrow> kernel \<Rightarrow> bool" where
  "ready_inv X k \<longleftrightarrow> (\<forall>t. z_is_thread_queued (threads k t) \<longrightarrow> z_is_thread_ready (threads k t)) \<and>
     (\<forall>t. z_is_thread_ready (threads k t) \<and> t \<noteq> idle_thread k \<and> t \<notin> X \<longrightarrow> z_is_thread_queued (threads k t)) \<and>
     z_is_thread_ready (threads k (idle_thread k)) \<and> is_thread_dummy (threads k (dummy_thread k))"

definition waitq_inv :: "kernel \<Rightarrow> bool" where
  "waitq_inv k \<longleftrightarrow> (\<forall>w. distinct (wait_qs k w)) \<and>
     (\<forall>w t. t \<in> set (wait_qs k w) \<longleftrightarrow> pended_on (threads k t) = Some w) \<and>
     (\<forall>t. pended_on (threads k t) \<noteq> None \<longrightarrow> z_is_thread_pending (threads k t)) \<and>
     pended_on (threads k (dummy_thread k)) = None"

definition timer_inv :: "kernel \<Rightarrow> bool" where
  "timer_inv k \<longleftrightarrow> timeout_q_ok k \<and> clock_ok k \<and> ThreadTimeout (dummy_thread k) \<notin> set (timeout_list k) \<and>
     (\<forall>t. ThreadTimeout t \<in> set (timeout_list k) \<longrightarrow>
        (z_is_thread_pending (threads k t) \<or> z_is_thread_sleeping (threads k t)) \<and>
        (\<forall>n. pended_on (threads k t) \<noteq> Some (TimerQ n)))"

definition cache_inv :: "kernel \<Rightarrow> bool" where
  "cache_inv k \<longleftrightarrow> ready_cache k = next_up k \<or>
     ready_cache k = current k \<and> z_is_thread_ready (threads k (current k)) \<and>
     \<not> thread_is_preemptible (threads k (current k))"

definition sched_inv :: "tid set \<Rightarrow> kernel \<Rightarrow> bool" where
  "sched_inv X k \<longleftrightarrow> runq_inv k \<and> ready_inv X k \<and> waitq_inv k \<and> timer_inv k \<and> cache_inv k"

text \<open>Outside interrupts and with interrupts unlocked, the running thread is the cached one.\<close>

definition settled :: "kernel \<Rightarrow> bool" where
  "settled k \<longleftrightarrow> (resched k \<longrightarrow> ready_cache k = current k)"

definition ticks_ok :: "k_timeout \<Rightarrow> bool" where
  "ticks_ok n \<longleftrightarrow> n < 2 ^ 62"

lemma sched_invI:
  "runq_inv k \<Longrightarrow> ready_inv X k \<Longrightarrow> waitq_inv k \<Longrightarrow> timer_inv k \<Longrightarrow> cache_inv k \<Longrightarrow> sched_inv X k"
  by (simp add: sched_inv_def)

lemma sched_invD:
  assumes "sched_inv X k"
  shows "runq_inv k" "ready_inv X k" "waitq_inv k" "timer_inv k" "cache_inv k"
  using assms by (auto simp: sched_inv_def)

lemma sched_inv_mono: "sched_inv X k \<Longrightarrow> X \<subseteq> Y \<Longrightarrow> sched_inv Y k"
  by (auto simp: sched_inv_def ready_inv_def)

section \<open>Timeouts of the kernel\<close>

lemma valid_timeoutI: "clock_ok k \<Longrightarrow> ticks_ok n \<Longrightarrow> valid_timeout k n"
  by (auto simp: clock_ok_def ticks_ok_def valid_timeout_def elapsed_def)

lemma add_timeout_set:
  assumes "timeout_q_ok q" "to \<notin> set (timeout_list q)" "n \<noteq> K_FOREVER"
  shows "set (timeout_list (z_add_timeout to fn n q)) = insert to (set (timeout_list q))"
proof -
  have "set (timeout_list (z_add_timeout to fn n q)) = fst ` set (rem_q (z_add_timeout to fn n q))"
    by (simp add: set_rem_q)
  also have "\<dots> = insert to (set (timeout_list q))" by (simp add: add_timeout_rem_q [OF assms] set_rem_q)
  finally show ?thesis .
qed

lemma abort_timeout_set:
  assumes "timeout_q_ok q"
  shows "set (timeout_list (snd (z_abort_timeout to q))) = set (timeout_list q) - {to}"
proof -
  have "set (timeout_list (snd (z_abort_timeout to q))) = fst ` set (rem_q (snd (z_abort_timeout to q)))"
    by (simp add: set_rem_q)
  also have "\<dots> = fst ` set (rem_q q) - {to}" by (auto simp: abort_timeout_rem_q [OF assms])
  finally show ?thesis by (simp add: set_rem_q)
qed

lemma ok_sched_upd [frame_simps]:
  "timeout_q_ok (slice_expired_update f1 k) = timeout_q_ok k" "timeout_q_ok (upd_thread t g k) = timeout_q_ok k"
  "timeout_q_ok (runq_update f2 k) = timeout_q_ok k" "timeout_q_ok (ready_cache_update f3 k) = timeout_q_ok k"
  "timeout_q_ok (wait_qs_update f4 k) = timeout_q_ok k" "timeout_q_ok (current_update f3 k) = timeout_q_ok k"
  "timeout_q_ok (timers_update f5 k) = timeout_q_ok k" "timeout_q_ok (memory_update f6 k) = timeout_q_ok k"
  "timeout_q_ok (panicked_update f1 k) = timeout_q_ok k" "timeout_q_ok (in_isr_update f1 k) = timeout_q_ok k"
  "timeout_q_ok (irq_unlocked_update f1 k) = timeout_q_ok k"
  by (simp_all add: timeout_q_ok_def rem_q_def upd_thread_def)

lemma clock_ok_cong: "hw_elapsed k' = hw_elapsed k \<Longrightarrow> slice_ticks k' = slice_ticks k \<Longrightarrow> clock_ok k' = clock_ok k"
  by (simp add: clock_ok_def)

lemma reset_slice_timeouts:
  assumes "timeout_q_ok k" "clock_ok k"
  shows "timeout_q_ok (z_reset_time_slice t k)"
    "\<And>to. to \<noteq> SliceTimeout \<Longrightarrow> to \<in> set (timeout_list (z_reset_time_slice t k)) \<longleftrightarrow> to \<in> set (timeout_list k)"
proof -
  let ?k1 = "(snd (z_abort_timeout SliceTimeout k))\<lparr>slice_expired := False\<rparr>"
  have k1: "timeout_q_ok ?k1" "set (timeout_list ?k1) = set (timeout_list k) - {SliceTimeout}" "slice_ticks ?k1 = slice_ticks k"
    using abort_timeout_ok [OF assms(1)] by (simp_all add: frame_simps abort_timeout_set [OF assms(1)])
  have "clock_ok ?k1" using assms(2) by (simp add: clock_ok_cong [of ?k1 k] frame_simps)
  moreover have "ticks_ok (slice_time ?k1 t - 1)" using assms(2) k1(3) by (simp add: ticks_ok_def slice_time_def clock_ok_def)
  ultimately have v: "valid_timeout ?k1 (slice_time ?k1 t - 1)" by (rule valid_timeoutI)
  have nf: "slice_time ?k1 t - 1 \<noteq> K_FOREVER" if "thread_is_sliceable ?k1 t"
    using that by (simp add: thread_is_sliceable_def K_FOREVER_def)
  have out: "SliceTimeout \<notin> set (timeout_list ?k1)" unfolding k1(2) by blast
  have eq: "z_reset_time_slice t k = (if thread_is_sliceable ?k1 t
      then z_add_timeout SliceTimeout Slice_timeout (slice_time ?k1 t - 1) ?k1 else ?k1)"
    unfolding z_reset_time_slice_def Let_def ..
  show "timeout_q_ok (z_reset_time_slice t k)"
    unfolding eq using add_timeout_ok [OF k1(1) out v] k1(1) by (simp split: if_split)
  have "set (timeout_list (z_reset_time_slice t k)) - {SliceTimeout} = set (timeout_list k) - {SliceTimeout}"
    unfolding eq using add_timeout_set [OF k1(1) out nf] k1(2) by (cases "thread_is_sliceable ?k1 t") (simp_all only: if_True if_False, blast+)
  then show "to \<in> set (timeout_list (z_reset_time_slice t k)) \<longleftrightarrow> to \<in> set (timeout_list k)" if "to \<noteq> SliceTimeout" for to
    using that by blast
qed

lemma update_cache_timeouts:
  assumes "timeout_q_ok k" "clock_ok k"
  shows "timeout_q_ok (update_cache p k)"
    "\<And>to. to \<noteq> SliceTimeout \<Longrightarrow> to \<in> set (timeout_list (update_cache p k)) \<longleftrightarrow> to \<in> set (timeout_list k)"
  using reset_slice_timeouts [OF assms] assms by (auto simp: update_cache_def Let_def frame_simps)

lemma next_up_cong: "runq k' = runq k \<Longrightarrow> idle_thread k' = idle_thread k \<Longrightarrow> next_up k' = next_up k"
  by (simp add: next_up_def runq_best_def split: option.split)

lemma next_up_frame [frame_simps]:
  "next_up (memory_update f1 k) = next_up k" "next_up (panicked_update f2 k) = next_up k"
  "next_up (timers_update f3 k) = next_up k" "next_up (in_isr_update f2 k) = next_up k"
  "next_up (irq_unlocked_update f2 k) = next_up k" "next_up (wait_qs_update f4 k) = next_up k"
  "next_up (current_update f5 k) = next_up k" "next_up (ready_cache_update f5 k) = next_up k"
  "next_up (slice_expired_update f2 k) = next_up k" "next_up (upd_thread t g k) = next_up k"
  "next_up (z_reset_time_slice t k) = next_up k" "next_up (z_add_timeout to fn n k) = next_up k"
  "next_up (snd (z_abort_timeout to k)) = next_up k" "next_up (update_cache p k) = next_up k"
  by (rule next_up_cong; simp add: frame_simps)+

lemma update_cache_cache:
  "ready_cache (update_cache p k) = (if should_preempt k (next_up k) p then next_up k else current k)"
  by (simp add: update_cache_def Let_def)

text \<open>Whatever the cache was, \<open>update_cache\<close> makes it right.\<close>

lemma update_cache_inv: "cache_inv (update_cache p k)"
proof -
  show ?thesis
    by (auto simp: cache_inv_def update_cache_cache should_preempt_def frame_simps z_is_thread_ready_def)
qed

lemma sched_inv_update_cache:
  assumes "runq_inv k" "ready_inv X k" "waitq_inv k" "timer_inv k"
  shows "sched_inv X (update_cache p k)"
  using assms update_cache_timeouts(1) [of k p] update_cache_timeouts(2) [of k _ p] update_cache_inv [of p k]
  by (auto simp: sched_inv_def runq_inv_def ready_inv_def waitq_inv_def timer_inv_def frame_simps clock_ok_def)

section \<open>Threads whose scheduling fields are unchanged\<close>

lemma sched_inv_upd_thread:
  assumes "\<And>th. prio (f th) = prio th" "\<And>th. thread_state (f th) = thread_state th"
    "\<And>th. pended_on (f th) = pended_on th" "\<And>th. sched_locked (f th) = sched_locked th"
  shows "sched_inv X (upd_thread t f k) = sched_inv X k"
proof -
  have p: "prio_of (upd_thread t f k) = prio_of k" using assms(1) by (auto simp: frame_simps)
  have s: "thread_state (threads (upd_thread t f k) u) = thread_state (threads k u)"
    "pended_on (threads (upd_thread t f k) u) = pended_on (threads k u)"
    "sched_locked (threads (upd_thread t f k) u) = sched_locked (threads k u)" for u
    using assms by (simp_all add: frame_simps)
  have n: "next_up (upd_thread t f k) = next_up k" by (simp add: frame_simps)
  have pr: "thread_is_preemptible (threads (upd_thread t f k) u) = thread_is_preemptible (threads k u)" for u
    using s(3) [of u] fun_cong [OF p, of u] by (simp add: thread_is_preemptible_def preempt_def)
  show ?thesis
    unfolding sched_inv_def runq_inv_def ready_inv_def waitq_inv_def timer_inv_def cache_inv_def flag_simps p s n pr
      upd_thread_fields(2-) clock_ok_def frame_simps(1) ok_sched_upd by simp
qed

lemma sched_inv_retval [frame_simps]:
  "sched_inv X (arch_thread_return_value_set t v k) = sched_inv X k"
  "sched_inv X (z_thread_return_value_set_with_data t v d k) = sched_inv X k"
  "sched_inv X (upd_thread t (no_wake_on_timeout_update g) k) = sched_inv X k"
  "sched_inv X (upd_thread t (swap_retval_update g1) k) = sched_inv X k"
  "sched_inv X (upd_thread t (swap_data_update g2) k) = sched_inv X k"
  "sched_inv X (upd_thread t (events_update g3) k) = sched_inv X k"
  "sched_inv X (upd_thread t (event_options_update g3) k) = sched_inv X k"
  by (simp_all add: arch_thread_return_value_set_def z_thread_return_value_set_with_data_def sched_inv_upd_thread)

lemma sched_inv_memory [frame_simps]:
  "sched_inv X (memory_update f k) = sched_inv X k" "sched_inv X (panicked_update g k) = sched_inv X k"
  "sched_inv X (timers_update h k) = sched_inv X k" "sched_inv X (in_isr_update g k) = sched_inv X k"
  "sched_inv X (irq_unlocked_update g k) = sched_inv X k"
  by (simp_all add: sched_inv_def runq_inv_def ready_inv_def waitq_inv_def timer_inv_def cache_inv_def clock_ok_def
      frame_simps)

section \<open>Queueing\<close>

lemma queue_thread_fields [frame_simps]:
  "threads (queue_thread t k) = (threads k)(t := set_state THREAD_QUEUED (threads k t))"
  "runq (queue_thread t k) = z_priq_dumb_add (prio_of k) t (runq k)"
  "ready_cache (queue_thread t k) = ready_cache k" "current (queue_thread t k) = current k"
  "idle_thread (queue_thread t k) = idle_thread k" "dummy_thread (queue_thread t k) = dummy_thread k"
  "wait_qs (queue_thread t k) = wait_qs k" "in_isr (queue_thread t k) = in_isr k"
  "irq_unlocked (queue_thread t k) = irq_unlocked k" "slice_ticks (queue_thread t k) = slice_ticks k"
  "timers (queue_thread t k) = timers k" "memory (queue_thread t k) = memory k" "panicked (queue_thread t k) = panicked k"
  "timeout_list (queue_thread t k) = timeout_list k" "hw_elapsed (queue_thread t k) = hw_elapsed k"
  "announce_remaining (queue_thread t k) = announce_remaining k" "curr_tick (queue_thread t k) = curr_tick k"
  "timeout_q_ok (queue_thread t k) = timeout_q_ok k" "rem_q (queue_thread t k) = rem_q k"
proof -
  have "prio_of (upd_thread t (set_state THREAD_QUEUED) k) = prio_of k" by (auto simp: frame_simps flag_simps)
  then show "runq (queue_thread t k) = z_priq_dumb_add (prio_of k) t (runq k)"
    by (simp add: queue_thread_def runq_add_def flag_simps frame_simps)
qed (simp_all add: queue_thread_def runq_add_def flag_simps frame_simps rem_q_def)

lemma dequeue_thread_fields [frame_simps]:
  "threads (dequeue_thread t k) = (threads k)(t := clear_state THREAD_QUEUED (threads k t))"
  "runq (dequeue_thread t k) = remove1 t (runq k)"
  "ready_cache (dequeue_thread t k) = ready_cache k" "current (dequeue_thread t k) = current k"
  "idle_thread (dequeue_thread t k) = idle_thread k" "dummy_thread (dequeue_thread t k) = dummy_thread k"
  "wait_qs (dequeue_thread t k) = wait_qs k" "in_isr (dequeue_thread t k) = in_isr k"
  "irq_unlocked (dequeue_thread t k) = irq_unlocked k" "slice_ticks (dequeue_thread t k) = slice_ticks k"
  "timers (dequeue_thread t k) = timers k" "memory (dequeue_thread t k) = memory k" "panicked (dequeue_thread t k) = panicked k"
  "timeout_list (dequeue_thread t k) = timeout_list k" "hw_elapsed (dequeue_thread t k) = hw_elapsed k"
  "announce_remaining (dequeue_thread t k) = announce_remaining k" "curr_tick (dequeue_thread t k) = curr_tick k"
  "timeout_q_ok (dequeue_thread t k) = timeout_q_ok k" "rem_q (dequeue_thread t k) = rem_q k"
  by (simp_all add: dequeue_thread_def runq_remove_def flag_simps frame_simps z_priq_dumb_remove_def rem_q_def)

lemma runq_inv_queue:
  assumes "runq_inv k" "\<not> z_is_thread_queued (threads k t)" "t \<noteq> idle_thread k"
  shows "runq_inv (queue_thread t k)"
proof -
  have r: "distinct (runq k)" "sorted (map (prio_of k) (runq k))" "t \<notin> set (runq k)" "idle_thread k \<notin> set (runq k)"
    using assms by (auto simp: runq_inv_def)
  have a: "distinct (z_priq_dumb_add (prio_of k) t (runq k))" "sorted (map (prio_of k) (z_priq_dumb_add (prio_of k) t (runq k)))"
    "set (z_priq_dumb_add (prio_of k) t (runq k)) = insert t (set (runq k))"
    using dumb.add_law [of "runq k" "prio_of k" t] r by (auto simp: z_priq_dumb_add_def)
  have p: "prio_of (queue_thread t k) = prio_of k" by (auto simp: frame_simps flag_simps)
  show ?thesis unfolding runq_inv_def p using a assms r by (auto simp: frame_simps flag_simps runq_inv_def)
qed

lemma runq_inv_dequeue:
  assumes "runq_inv k"
  shows "runq_inv (dequeue_thread t k)"
proof -
  have r: "distinct (runq k)" "sorted (map (prio_of k) (runq k))" "idle_thread k \<notin> set (runq k)"
    using assms by (auto simp: runq_inv_def)
  have a: "sorted (map (prio_of k) (remove1 t (runq k)))"
    using r(2) by (simp add: sorted_wrt_map sorted_wrt_remove1)
  have p: "prio_of (dequeue_thread t k) = prio_of k" by (auto simp: frame_simps flag_simps)
  show ?thesis unfolding runq_inv_def p using a assms r by (auto simp: frame_simps flag_simps runq_inv_def)
qed

section \<open>Making threads ready and unready\<close>

lemma ready_thread_queues:
  assumes i: "runq_inv k" "ready_inv X k" "waitq_inv k" "timer_inv k" and "t \<noteq> idle_thread k"
    and True: "\<not> z_is_thread_queued (threads k t) \<and> z_is_thread_ready (threads k t)"
  shows "sched_inv (X - {t}) (ready_thread t k)"
proof -
  have "runq_inv (queue_thread t k)" using i(1) True assms(5) by (auto intro: runq_inv_queue)
  moreover have "ready_inv (X - {t}) (queue_thread t k)" using i(2) True by (auto simp: ready_inv_def frame_simps flag_ops)
  moreover have "waitq_inv (queue_thread t k)" using i(3) by (auto simp: waitq_inv_def frame_simps flag_ops)
  moreover have "timer_inv (queue_thread t k)" using i(4) by (auto simp: timer_inv_def clock_ok_def frame_simps flag_ops)
  ultimately show ?thesis using True by (simp add: ready_thread_def sched_inv_update_cache)
qed

lemma ready_thread_inv:
  assumes "sched_inv X k" "t \<noteq> idle_thread k"
  shows "sched_inv (X - {t}) (ready_thread t k)"
proof (cases "\<not> z_is_thread_queued (threads k t) \<and> z_is_thread_ready (threads k t)")
  case True
  then show ?thesis using ready_thread_queues [OF sched_invD(1-4) [OF assms(1)] assms(2)] by blast
next
  case False
  then have "sched_inv (X - {t}) k" using assms by (auto simp: sched_inv_def ready_inv_def)
  then show ?thesis using False by (auto simp: ready_thread_def)
qed

lemma ready_thread_fields [frame_simps]:
  "current (ready_thread t k) = current k" "idle_thread (ready_thread t k) = idle_thread k"
  "dummy_thread (ready_thread t k) = dummy_thread k"
  "wait_qs (ready_thread t k) = wait_qs k" "in_isr (ready_thread t k) = in_isr k"
  "irq_unlocked (ready_thread t k) = irq_unlocked k" "slice_ticks (ready_thread t k) = slice_ticks k"
  "timers (ready_thread t k) = timers k" "memory (ready_thread t k) = memory k" "panicked (ready_thread t k) = panicked k"
  "hw_elapsed (ready_thread t k) = hw_elapsed k" "announce_remaining (ready_thread t k) = announce_remaining k"
  "curr_tick (ready_thread t k) = curr_tick k"
  by (simp_all add: ready_thread_def frame_simps)

lemma ready_thread_threads [frame_simps]:
  "u \<noteq> t \<Longrightarrow> threads (ready_thread t k) u = threads k u"
  "prio (threads (ready_thread t k) u) = prio (threads k u)"
  "sched_locked (threads (ready_thread t k) u) = sched_locked (threads k u)"
  "user_options (threads (ready_thread t k) u) = user_options (threads k u)"
  "pended_on (threads (ready_thread t k) u) = pended_on (threads k u)"
  "swap_retval (threads (ready_thread t k) u) = swap_retval (threads k u)"
  "swap_data (threads (ready_thread t k) u) = swap_data (threads k u)"
  "events (threads (ready_thread t k) u) = events (threads k u)"
  "event_options (threads (ready_thread t k) u) = event_options (threads k u)"
  "no_wake_on_timeout (threads (ready_thread t k) u) = no_wake_on_timeout (threads k u)"
  by (auto simp: ready_thread_def frame_simps flag_ops)

lemma ready_thread_flags [frame_simps]:
  "z_is_thread_pending (threads (ready_thread t k) u) = z_is_thread_pending (threads k u)"
  "z_is_thread_sleeping (threads (ready_thread t k) u) = z_is_thread_sleeping (threads k u)"
  "z_is_thread_dead (threads (ready_thread t k) u) = z_is_thread_dead (threads k u)"
  "z_is_thread_suspended (threads (ready_thread t k) u) = z_is_thread_suspended (threads k u)"
  "z_is_thread_ready (threads (ready_thread t k) u) = z_is_thread_ready (threads k u)"
  by (auto simp: ready_thread_def frame_simps flag_ops)

text \<open>Taking a thread off the ready queue leaves it in transit until it is marked as not ready.\<close>

lemma unready_thread_inv:
  assumes "sched_inv X k"
  shows "sched_inv (insert t X) (unready_thread t k)"
proof -
  note i = sched_invD [OF assms]
  let ?k1 = "if z_is_thread_queued (threads k t) then dequeue_thread t k else k"
  have "runq_inv ?k1" using i(1) by (simp add: runq_inv_dequeue)
  moreover have "ready_inv (insert t X) ?k1" using i(2) by (auto simp: ready_inv_def frame_simps flag_ops)
  moreover have "waitq_inv ?k1" using i(3) by (auto simp: waitq_inv_def frame_simps flag_ops)
  moreover have "timer_inv ?k1" using i(4) by (auto simp: timer_inv_def clock_ok_def frame_simps flag_ops)
  ultimately show ?thesis unfolding unready_thread_def Let_def by (rule sched_inv_update_cache)
qed

lemma unready_thread_fields [frame_simps]:
  "threads (unready_thread t k) = (threads k)(t := (if z_is_thread_queued (threads k t) then clear_state THREAD_QUEUED (threads k t) else threads k t))"
  "runq (unready_thread t k) = (if z_is_thread_queued (threads k t) then remove1 t (runq k) else runq k)"
  "current (unready_thread t k) = current k" "idle_thread (unready_thread t k) = idle_thread k"
  "dummy_thread (unready_thread t k) = dummy_thread k"
  "wait_qs (unready_thread t k) = wait_qs k" "in_isr (unready_thread t k) = in_isr k"
  "irq_unlocked (unready_thread t k) = irq_unlocked k" "slice_ticks (unready_thread t k) = slice_ticks k"
  "timers (unready_thread t k) = timers k" "memory (unready_thread t k) = memory k" "panicked (unready_thread t k) = panicked k"
  "hw_elapsed (unready_thread t k) = hw_elapsed k" "announce_remaining (unready_thread t k) = announce_remaining k"
  "curr_tick (unready_thread t k) = curr_tick k"
  by (auto simp: unready_thread_def Let_def frame_simps)

lemma unready_thread_timeouts:
  assumes "timer_inv k" "to \<noteq> SliceTimeout"
  shows "to \<in> set (timeout_list (unready_thread t k)) \<longleftrightarrow> to \<in> set (timeout_list k)"
proof -
  have "timeout_q_ok k" "clock_ok k" using assms(1) by (auto simp: timer_inv_def)
  then have "timeout_q_ok (dequeue_thread t k)" "clock_ok (dequeue_thread t k)" by (simp_all add: frame_simps clock_ok_def)
  then show ?thesis using update_cache_timeouts(2) [OF _ _ assms(2)] \<open>timeout_q_ok k\<close> \<open>clock_ok k\<close>
    by (auto simp: unready_thread_def Let_def frame_simps)
qed

lemma unready_not_queued: "\<not> z_is_thread_queued (threads (unready_thread t k) t)"
  by (simp add: frame_simps flag_ops)

text \<open>When the thread is the running one, the cache moves to the best ready thread.\<close>

lemma unready_current_cache:
  "ready_cache (unready_thread (current k) k) = next_up (unready_thread (current k) k)"
  by (simp add: unready_thread_def Let_def update_cache_cache should_preempt_def frame_simps)

text \<open>Setting a flag that prevents a thread from running, once it is off the ready queue.\<close>

lemma sched_inv_set_blocked:
  assumes inv: "sched_inv X k" and nq: "\<not> z_is_thread_queued (threads k t)"
    and s: "s = THREAD_PENDING \<or> s = THREAD_SLEEPING \<or> s = THREAD_SUSPENDED \<or> s = THREAD_DEAD"
    and c: "t = current k \<Longrightarrow> ready_cache k = next_up k" and idle: "t \<noteq> idle_thread k"
  shows "sched_inv (X - {t}) (upd_thread t (set_state s) k)"
proof -
  note i = sched_invD [OF inv]
  let ?k = "upd_thread t (set_state s) k"
  have p: "prio_of ?k = prio_of k" by (auto simp: frame_simps flag_ops)
  have f: "z_is_thread_queued (set_state s th) = z_is_thread_queued th" "\<not> z_is_thread_ready (set_state s th)"
    "z_is_thread_pending th \<Longrightarrow> z_is_thread_pending (set_state s th)"
    "z_is_thread_sleeping th \<Longrightarrow> z_is_thread_sleeping (set_state s th)" for th
    using s by (auto simp: flag_ops)
  have "runq_inv ?k" using i(1) unfolding runq_inv_def p by (auto simp: frame_simps f)
  moreover have "ready_inv (X - {t}) ?k" using i(2) nq idle by (auto simp: ready_inv_def frame_simps f dummy_ops)
  moreover have "waitq_inv ?k" using i(3) by (auto simp: waitq_inv_def frame_simps flag_fields f)
  moreover have "timer_inv ?k" using i(4) by (auto simp: timer_inv_def clock_ok_def frame_simps flag_fields f)
  moreover have "cache_inv ?k" using i(5) c by (auto simp: cache_inv_def frame_simps)
  ultimately show ?thesis by (rule sched_invI)
qed

section \<open>Pending\<close>

lemma timeout_list_upd [frame_simps]:
  "timeout_list (wait_qs_update f k) = timeout_list k" "timeout_list (runq_update g k) = timeout_list k"
  by simp_all

text \<open>Linking a pending thread into a wait queue.\<close>

lemma sched_inv_link:
  assumes inv: "sched_inv X k" and "pended_on (threads k t) = None" "z_is_thread_pending (threads k t)"
    and nt: "ThreadTimeout t \<notin> set (timeout_list k)" "t \<noteq> dummy_thread k"
    and k2_def: "k2 = upd_thread t (pended_on_update (\<lambda>_. Some w)) k"
  shows "sched_inv X (k2\<lparr>wait_qs := (wait_qs k2)(w := z_priq_dumb_add pr t (wait_qs k2 w))\<rparr>)" (is "sched_inv X ?k")
proof -
  note i = sched_invD [OF inv]
  have p: "prio_of ?k = prio_of k" by (auto simp: k2_def frame_simps)
  have "runq_inv ?k" using i(1) unfolding runq_inv_def p by (auto simp: k2_def frame_simps flag_ops)
  moreover have "ready_inv X ?k" using i(2) by (auto simp: ready_inv_def k2_def frame_simps flag_ops)
  moreover have "timer_inv ?k" using i(4) nt by (auto simp: timer_inv_def clock_ok_def k2_def frame_simps flag_ops)
  moreover have "cache_inv ?k"
    using i(5) by (auto simp: cache_inv_def k2_def frame_simps flag_ops)
  moreover have "waitq_inv ?k"
  proof -
    have out: "t \<notin> set (wait_qs k v)" for v using i(3) assms(2) by (auto simp: waitq_inv_def)
    show ?thesis using i(3) assms(2,3) out
      using nt(2) by (auto simp: waitq_inv_def k2_def frame_simps z_priq_dumb_add_def flag_ops)
  qed
  ultimately show ?thesis by (intro sched_invI)
qed

lemma add_to_waitq_inv:
  assumes "sched_inv X k" "pended_on (threads k t) = None" "t \<noteq> idle_thread k"
    "ThreadTimeout t \<notin> set (timeout_list k)" "t \<noteq> dummy_thread k"
  shows "sched_inv (X - {t}) (add_to_waitq_locked t wq k)"
proof -
  let ?k1 = "upd_thread t (set_state THREAD_PENDING) (unready_thread t k)"
  have "sched_inv (insert t X - {t}) ?k1"
    by (rule sched_inv_set_blocked [OF unready_thread_inv [OF assms(1)]])
      (simp_all add: unready_not_queued, simp_all add: frame_simps unready_current_cache assms(3))
  then have k1: "sched_inv (X - {t}) ?k1" by (simp add: insert_Diff_if)
  have "pended_on (threads ?k1 t) = None" "z_is_thread_pending (threads ?k1 t)" "ThreadTimeout t \<notin> set (timeout_list ?k1)"
    "t \<noteq> dummy_thread ?k1"
    using assms(2,4,5) unready_thread_timeouts [OF sched_invD(4) [OF assms(1)], of "ThreadTimeout t" t]
    by (simp_all add: frame_simps flag_ops)
  from sched_inv_link [OF k1 this refl] k1 show ?thesis
    by (auto simp: add_to_waitq_locked_def Let_def flag_marks split: option.splits)
qed

lemma add_to_waitq_fields [frame_simps]:
  "current (add_to_waitq_locked t wq k) = current k" "idle_thread (add_to_waitq_locked t wq k) = idle_thread k"
  "dummy_thread (add_to_waitq_locked t wq k) = dummy_thread k"
  "in_isr (add_to_waitq_locked t wq k) = in_isr k" "irq_unlocked (add_to_waitq_locked t wq k) = irq_unlocked k"
  "slice_ticks (add_to_waitq_locked t wq k) = slice_ticks k" "timers (add_to_waitq_locked t wq k) = timers k"
  "memory (add_to_waitq_locked t wq k) = memory k" "panicked (add_to_waitq_locked t wq k) = panicked k"
  "hw_elapsed (add_to_waitq_locked t wq k) = hw_elapsed k"
  "announce_remaining (add_to_waitq_locked t wq k) = announce_remaining k"
  "curr_tick (add_to_waitq_locked t wq k) = curr_tick k"
  "timeout_list (add_to_waitq_locked t wq k) = timeout_list (unready_thread t k)"
  "u \<noteq> t \<Longrightarrow> threads (add_to_waitq_locked t wq k) u = threads k u"
  by (simp_all add: add_to_waitq_locked_def Let_def frame_simps split: option.splits)

lemma add_to_waitq_thread [frame_simps]:
  "z_is_thread_pending (threads (add_to_waitq_locked t wq k) t)"
  "prio (threads (add_to_waitq_locked t wq k) u) = prio (threads k u)"
  "pended_on (threads (add_to_waitq_locked t (Some w) k) t) = Some w"
  "swap_data (threads (add_to_waitq_locked t wq k) u) = swap_data (threads k u)"
  "events (threads (add_to_waitq_locked t wq k) u) = events (threads k u)"
  "event_options (threads (add_to_waitq_locked t wq k) u) = event_options (threads k u)"
  "wait_qs (add_to_waitq_locked t (Some w) k) = (wait_qs k)(w := z_priq_dumb_add (prio_of k) t (wait_qs k w))"
proof -
  let ?k2 = "upd_thread t (pended_on_update (\<lambda>_. Some w)) (upd_thread t z_mark_thread_as_pending (unready_thread t k))"
  have "prio_of ?k2 = prio_of k" by (auto simp: frame_simps flag_ops)
  then show "wait_qs (add_to_waitq_locked t (Some w) k) = (wait_qs k)(w := z_priq_dumb_add (prio_of k) t (wait_qs k w))"
    by (simp add: add_to_waitq_locked_def Let_def) (simp add: frame_simps)
  have pend: "z_is_thread_pending (pended_on_update g th) = z_is_thread_pending th" for g th by (simp add: flag_simps)
  show "z_is_thread_pending (threads (add_to_waitq_locked t wq k) t)"
    by (simp add: add_to_waitq_locked_def Let_def frame_simps flag_ops pend split: option.splits)
qed (simp_all add: add_to_waitq_locked_def Let_def frame_simps flag_ops split: option.splits)

lemma sched_inv_add_timeout:
  assumes "sched_inv X k" "ThreadTimeout t \<notin> set (timeout_list k)"
    "z_is_thread_pending (threads k t) \<or> z_is_thread_sleeping (threads k t)" "ticks_ok n"
    "\<forall>i. pended_on (threads k t) = Some (TimerQ i) \<longrightarrow> n = K_FOREVER" "t \<noteq> dummy_thread k"
  shows "sched_inv X (z_add_thread_timeout t n k)"
proof (cases "n = K_FOREVER")
  case True
  then show ?thesis using assms(1) by (simp add: z_add_thread_timeout_def)
next
  case False
  note i = sched_invD [OF assms(1)]
  let ?k = "z_add_thread_timeout t n k"
  have q: "timeout_q_ok k" "clock_ok k" using i(4) by (auto simp: timer_inv_def)
  have ok: "timeout_q_ok ?k" unfolding z_add_thread_timeout_def
    using q assms(2,4) by (intro add_timeout_ok valid_timeoutI) auto
  have l: "set (timeout_list ?k) = insert (ThreadTimeout t) (set (timeout_list k))"
    unfolding z_add_thread_timeout_def by (rule add_timeout_set [OF q(1) assms(2) False])
  have "timer_inv ?k" using i(4) ok assms(3,5,6) False unfolding timer_inv_def l
    by (auto simp: z_add_thread_timeout_def clock_ok_def frame_simps)
  then show ?thesis using i
    by (auto simp: sched_inv_def runq_inv_def ready_inv_def waitq_inv_def cache_inv_def z_add_thread_timeout_def frame_simps)
qed

lemma z_add_thread_timeout_fields [frame_simps]:
  "threads (z_add_thread_timeout t n k) = threads k" "runq (z_add_thread_timeout t n k) = runq k"
  "ready_cache (z_add_thread_timeout t n k) = ready_cache k" "current (z_add_thread_timeout t n k) = current k"
  "idle_thread (z_add_thread_timeout t n k) = idle_thread k" "dummy_thread (z_add_thread_timeout t n k) = dummy_thread k"
  "wait_qs (z_add_thread_timeout t n k) = wait_qs k" "in_isr (z_add_thread_timeout t n k) = in_isr k"
  "irq_unlocked (z_add_thread_timeout t n k) = irq_unlocked k" "slice_ticks (z_add_thread_timeout t n k) = slice_ticks k"
  "timers (z_add_thread_timeout t n k) = timers k" "memory (z_add_thread_timeout t n k) = memory k"
  "panicked (z_add_thread_timeout t n k) = panicked k" "hw_elapsed (z_add_thread_timeout t n k) = hw_elapsed k"
  "announce_remaining (z_add_thread_timeout t n k) = announce_remaining k" "curr_tick (z_add_thread_timeout t n k) = curr_tick k"
  "next_up (z_add_thread_timeout t n k) = next_up k"
  by (simp_all add: z_add_thread_timeout_def frame_simps)

lemma pend_locked_inv:
  assumes "sched_inv X k" "pended_on (threads k t) = None" "t \<noteq> idle_thread k"
    "ThreadTimeout t \<notin> set (timeout_list k)" "ticks_ok n" "\<forall>i. wq = Some (TimerQ i) \<longrightarrow> n = K_FOREVER"
    "t \<noteq> dummy_thread k"
  shows "sched_inv (X - {t}) (pend_locked t wq n k)"
proof -
  have "ThreadTimeout t \<notin> set (timeout_list (add_to_waitq_locked t wq k))"
    using assms(4) unready_thread_timeouts [OF sched_invD(4) [OF assms(1)], of "ThreadTimeout t" t] by (simp add: frame_simps)
  moreover have "\<forall>i. pended_on (threads (add_to_waitq_locked t wq k) t) = Some (TimerQ i) \<longrightarrow> n = K_FOREVER"
    using assms(2,6) by (cases wq) (simp_all add: add_to_waitq_locked_def Let_def frame_simps flag_ops)
  ultimately show ?thesis using add_to_waitq_inv [OF assms(1-4,7), of wq] assms(5,7)
    by (auto simp: pend_locked_def add_thread_timeout_def frame_simps intro!: sched_inv_add_timeout)
qed

section \<open>Waking\<close>

lemma z_abort_thread_timeout_fields [frame_simps]:
  "threads (z_abort_thread_timeout t k) = threads k" "runq (z_abort_thread_timeout t k) = runq k"
  "ready_cache (z_abort_thread_timeout t k) = ready_cache k" "current (z_abort_thread_timeout t k) = current k"
  "idle_thread (z_abort_thread_timeout t k) = idle_thread k" "dummy_thread (z_abort_thread_timeout t k) = dummy_thread k"
  "wait_qs (z_abort_thread_timeout t k) = wait_qs k" "in_isr (z_abort_thread_timeout t k) = in_isr k"
  "irq_unlocked (z_abort_thread_timeout t k) = irq_unlocked k" "slice_ticks (z_abort_thread_timeout t k) = slice_ticks k"
  "timers (z_abort_thread_timeout t k) = timers k" "memory (z_abort_thread_timeout t k) = memory k"
  "panicked (z_abort_thread_timeout t k) = panicked k" "hw_elapsed (z_abort_thread_timeout t k) = hw_elapsed k"
  "announce_remaining (z_abort_thread_timeout t k) = announce_remaining k" "curr_tick (z_abort_thread_timeout t k) = curr_tick k"
  "next_up (z_abort_thread_timeout t k) = next_up k"
  by (simp_all add: z_abort_thread_timeout_def frame_simps)

lemma abort_thread_timeout_set:
  "timeout_q_ok k \<Longrightarrow> set (timeout_list (z_abort_thread_timeout t k)) = set (timeout_list k) - {ThreadTimeout t}"
  by (simp add: z_abort_thread_timeout_def abort_timeout_set)

lemma abort_thread_timeout_ok: "timeout_q_ok k \<Longrightarrow> timeout_q_ok (z_abort_thread_timeout t k)"
  by (simp add: z_abort_thread_timeout_def abort_timeout_ok)

lemma sched_inv_abort_timeout: "sched_inv X k \<Longrightarrow> sched_inv X (z_abort_thread_timeout t k)"
  by (auto simp: sched_inv_def runq_inv_def ready_inv_def waitq_inv_def timer_inv_def cache_inv_def clock_ok_def
      frame_simps abort_thread_timeout_set abort_thread_timeout_ok)

lemma unpend_fields [frame_simps]:
  "runq (unpend_thread_no_timeout t k) = runq k"
  "ready_cache (unpend_thread_no_timeout t k) = ready_cache k" "current (unpend_thread_no_timeout t k) = current k"
  "idle_thread (unpend_thread_no_timeout t k) = idle_thread k" "dummy_thread (unpend_thread_no_timeout t k) = dummy_thread k"
  "in_isr (unpend_thread_no_timeout t k) = in_isr k"
  "irq_unlocked (unpend_thread_no_timeout t k) = irq_unlocked k" "slice_ticks (unpend_thread_no_timeout t k) = slice_ticks k"
  "timers (unpend_thread_no_timeout t k) = timers k" "memory (unpend_thread_no_timeout t k) = memory k"
  "panicked (unpend_thread_no_timeout t k) = panicked k" "hw_elapsed (unpend_thread_no_timeout t k) = hw_elapsed k"
  "announce_remaining (unpend_thread_no_timeout t k) = announce_remaining k" "curr_tick (unpend_thread_no_timeout t k) = curr_tick k"
  "timeout_list (unpend_thread_no_timeout t k) = timeout_list k" "timeout_q_ok (unpend_thread_no_timeout t k) = timeout_q_ok k"
  "next_up (unpend_thread_no_timeout t k) = next_up k" "rem_q (unpend_thread_no_timeout t k) = rem_q k"
  by (simp_all add: unpend_thread_no_timeout_def Let_def frame_simps rem_q_def split: option.split)

lemma unpend_thread_upd:
  "pended_on (threads k t) = Some w \<Longrightarrow>
     threads (unpend_thread_no_timeout t k) = (threads k)(t := (clear_state THREAD_PENDING (threads k t))\<lparr>pended_on := None\<rparr>) \<and>
     wait_qs (unpend_thread_no_timeout t k) = (wait_qs k)(w := remove1 t (wait_qs k w))"
  by (simp add: unpend_thread_no_timeout_def Let_def frame_simps flag_marks z_priq_dumb_remove_def)

lemma unpend_thread_fields [frame_simps]:
  "u \<noteq> t \<Longrightarrow> threads (unpend_thread_no_timeout t k) u = threads k u"
  "prio (threads (unpend_thread_no_timeout t k) u) = prio (threads k u)"
  "sched_locked (threads (unpend_thread_no_timeout t k) u) = sched_locked (threads k u)"
  "user_options (threads (unpend_thread_no_timeout t k) u) = user_options (threads k u)"
  "swap_retval (threads (unpend_thread_no_timeout t k) u) = swap_retval (threads k u)"
  "swap_data (threads (unpend_thread_no_timeout t k) u) = swap_data (threads k u)"
  "events (threads (unpend_thread_no_timeout t k) u) = events (threads k u)"
  "event_options (threads (unpend_thread_no_timeout t k) u) = event_options (threads k u)"
  "no_wake_on_timeout (threads (unpend_thread_no_timeout t k) u) = no_wake_on_timeout (threads k u)"
  "pended_on (threads (unpend_thread_no_timeout t k) t) = None"
  "z_is_thread_queued (threads (unpend_thread_no_timeout t k) u) = z_is_thread_queued (threads k u)"
  "z_is_thread_sleeping (threads (unpend_thread_no_timeout t k) u) = z_is_thread_sleeping (threads k u)"
  "z_is_thread_dead (threads (unpend_thread_no_timeout t k) u) = z_is_thread_dead (threads k u)"
  "z_is_thread_suspended (threads (unpend_thread_no_timeout t k) u) = z_is_thread_suspended (threads k u)"
  by (auto simp: unpend_thread_no_timeout_def Let_def frame_simps flag_ops split: option.split)

lemma ready_clear_pending: "z_is_thread_ready th \<Longrightarrow> z_is_thread_ready (clear_state THREAD_PENDING th)"
  by (auto simp: flag_simps)

lemma unpend_parts:
  assumes "sched_inv X k"
  shows "runq_inv (unpend_thread_no_timeout t k)" "ready_inv (insert t X) (unpend_thread_no_timeout t k)"
    "waitq_inv (unpend_thread_no_timeout t k)" "cache_inv (unpend_thread_no_timeout t k)"
proof -
  note i = sched_invD [OF assms]
  let ?k = "unpend_thread_no_timeout t k"
  have p: "prio_of ?k = prio_of k" by (auto simp: frame_simps)
  show "runq_inv ?k" using i(1) unfolding runq_inv_def p by (auto simp: frame_simps)
  have *: "ready_inv (insert t X) ?k \<and> waitq_inv ?k \<and> cache_inv ?k"
  proof (cases "pended_on (threads k t)")
    case None
    then have "?k = k" by (simp add: unpend_thread_no_timeout_def)
    then show ?thesis using i by (auto simp: ready_inv_def)
  next
    case (Some w)
    note u = unpend_thread_upd [OF Some]
    have "z_is_thread_pending (threads k t)" using i(3) Some by (auto simp: waitq_inv_def)
    then have "\<not> z_is_thread_ready (threads k t)" by (simp add: flag_simps)
    then have nq: "\<not> z_is_thread_queued (threads k t)" using i(2) by (auto simp: ready_inv_def)
    have "ready_inv (insert t X) ?k" using i(2) nq by (auto simp: ready_inv_def frame_simps u flag_ops ready_clear_pending)
    moreover have "waitq_inv ?k" using i(3) Some by (auto simp: waitq_inv_def u flag_ops unpend_fields)
    moreover have "cache_inv ?k" using i(5) by (auto simp: cache_inv_def frame_simps u flag_ops ready_clear_pending)
    ultimately show ?thesis by blast
  qed
  then show "ready_inv (insert t X) ?k" "waitq_inv ?k" "cache_inv ?k" by auto
qed

lemma unpend_timer_inv:
  assumes "timer_inv k" "timeout_q_ok k'" "clock_ok k'" "threads k' = threads (unpend_thread_no_timeout t k)"
    "set (timeout_list k') = set (timeout_list k) - {ThreadTimeout t}" "dummy_thread k' = dummy_thread k"
  shows "timer_inv k'"
proof -
  have "(z_is_thread_pending (threads k' u) \<or> z_is_thread_sleeping (threads k' u)) \<and> (\<forall>n. pended_on (threads k' u) \<noteq> Some (TimerQ n))"
    if "ThreadTimeout u \<in> set (timeout_list k')" for u
  proof -
    from that assms(5) have "ThreadTimeout u \<in> set (timeout_list k)" "u \<noteq> t" by auto
    with assms(1,4) show ?thesis by (auto simp: timer_inv_def unpend_thread_fields(1))
  qed
  with assms show ?thesis by (simp add: timer_inv_def)
qed

text \<open>Unlinking a thread that has no active timeout, or together with its timeout, leaves it in transit.\<close>

lemma unpend_inv:
  assumes "sched_inv X k" "ThreadTimeout t \<notin> set (timeout_list k)"
  shows "sched_inv (insert t X) (unpend_thread_no_timeout t k)"
proof -
  note i = sched_invD(4) [OF assms(1)]
  have "timer_inv (unpend_thread_no_timeout t k)"
    using i assms(2) by (intro unpend_timer_inv [OF i]) (auto simp: timer_inv_def clock_ok_def frame_simps)
  then show ?thesis using unpend_parts [OF assms(1), of t] by (intro sched_invI)
qed

lemma unpend_abort_inv:
  assumes "sched_inv X k"
  shows "sched_inv (insert t X) (z_abort_thread_timeout t (unpend_thread_no_timeout t k))"
proof -
  let ?k1 = "unpend_thread_no_timeout t k" and ?k = "z_abort_thread_timeout t (unpend_thread_no_timeout t k)"
  note i = unpend_parts [OF assms, of t]
  have "timeout_q_ok ?k1" "clock_ok ?k1" using sched_invD(4) [OF assms] by (simp_all add: timer_inv_def frame_simps clock_ok_def)
  then have "timer_inv ?k"
    by (intro unpend_timer_inv [OF sched_invD(4) [OF assms]])
      (simp_all add: clock_ok_def frame_simps abort_thread_timeout_set abort_thread_timeout_ok)
  then show ?thesis using i
    by (auto simp: sched_inv_def runq_inv_def ready_inv_def waitq_inv_def cache_inv_def frame_simps)
qed

section \<open>Context switch\<close>

lemma z_swap_fields [frame_simps]:
  "runq (z_swap k) = runq k" "ready_cache (z_swap k) = ready_cache k" "current (z_swap k) = ready_cache k"
  "idle_thread (z_swap k) = idle_thread k" "dummy_thread (z_swap k) = dummy_thread k"
  "wait_qs (z_swap k) = wait_qs k" "in_isr (z_swap k) = in_isr k"
  "irq_unlocked (z_swap k) = irq_unlocked k" "slice_ticks (z_swap k) = slice_ticks k"
  "timers (z_swap k) = timers k" "memory (z_swap k) = memory k"
  "panicked (z_swap k) = panicked k" "hw_elapsed (z_swap k) = hw_elapsed k"
  "announce_remaining (z_swap k) = announce_remaining k" "curr_tick (z_swap k) = curr_tick k"
  "threads (z_swap k) = (threads k)(current k := (threads k (current k))\<lparr>swap_retval := - EAGAIN\<rparr>)"
  by (auto simp: z_swap_def Let_def z_swap_next_thread_def frame_simps)

lemma sched_inv_reset_slice: "sched_inv X k \<Longrightarrow> sched_inv X (z_reset_time_slice t k)"
  using reset_slice_timeouts [of k]
  by (auto simp: sched_inv_def runq_inv_def ready_inv_def waitq_inv_def timer_inv_def cache_inv_def clock_ok_def frame_simps)

lemma sched_inv_current:
  "sched_inv X k \<Longrightarrow> sched_inv X (k\<lparr>current := ready_cache k\<rparr>)"
  by (auto simp: sched_inv_def runq_inv_def ready_inv_def waitq_inv_def timer_inv_def cache_inv_def clock_ok_def frame_simps)

lemma z_swap_inv:
  assumes "sched_inv X k"
  shows "sched_inv X (z_swap k)"
proof -
  let ?k1 = "upd_thread (current k) (swap_retval_update (\<lambda>_. - EAGAIN)) k"
  have "sched_inv X ?k1" using assms by (simp add: frame_simps)
  then have "sched_inv X (?k1\<lparr>current := ready_cache ?k1\<rparr>)" "sched_inv X ?k1" by (auto intro: sched_inv_current)
  then show ?thesis by (auto simp: z_swap_def Let_def z_swap_next_thread_def frame_simps intro: sched_inv_reset_slice)
qed

lemma z_swap_settled: "settled (z_swap k)"
  by (simp add: settled_def frame_simps)

lemma z_reschedule_inv: "sched_inv X k \<Longrightarrow> sched_inv X (z_reschedule k)"
  by (simp add: z_reschedule_def z_swap_inv)

lemma z_reschedule_settled: "settled (z_reschedule k)"
  using z_swap_settled [of k] by (simp add: z_reschedule_def settled_def need_swap_def)

lemma reschedule_unlocked_eq [simp]: "z_reschedule_unlocked k = z_reschedule k" "z_reschedule_irqlock k = z_reschedule k"
  by (simp_all add: z_reschedule_unlocked_def z_reschedule_irqlock_def z_reschedule_def)

lemma z_reschedule_fields [frame_simps]:
  "runq (z_reschedule k) = runq k" "ready_cache (z_reschedule k) = ready_cache k"
  "idle_thread (z_reschedule k) = idle_thread k" "dummy_thread (z_reschedule k) = dummy_thread k"
  "wait_qs (z_reschedule k) = wait_qs k" "in_isr (z_reschedule k) = in_isr k"
  "irq_unlocked (z_reschedule k) = irq_unlocked k" "slice_ticks (z_reschedule k) = slice_ticks k"
  "timers (z_reschedule k) = timers k" "memory (z_reschedule k) = memory k"
  "panicked (z_reschedule k) = panicked k" "hw_elapsed (z_reschedule k) = hw_elapsed k"
  "announce_remaining (z_reschedule k) = announce_remaining k" "curr_tick (z_reschedule k) = curr_tick k"
  "t \<noteq> current k \<Longrightarrow> threads (z_reschedule k) t = threads k t"
  by (simp_all add: z_reschedule_def frame_simps)

end
