(* ===== verification/Sched_Ops.thy ===== *)
theory Sched_Ops
  imports Sched_Inv
begin

text \<open>
  Every scheduler operation preserves the invariant of theory \<open>Sched_Inv\<close>, and the loops that drain
  a wait queue return. The locale \<open>drain_loop\<close> is the contract between such a loop and its body.
\<close>

section \<open>The running thread\<close>

text \<open>A thread that can run is on no wait queue and has no active timeout.\<close>

lemma ready_not_pended:
  assumes "sched_inv X k" "z_is_thread_ready (threads k t)"
  shows "pended_on (threads k t) = None" "ThreadTimeout t \<notin> set (timeout_list k)"
    "\<not> z_is_thread_pending (threads k t)" "\<not> z_is_thread_sleeping (threads k t)" "\<And>w. t \<notin> set (wait_qs k w)"
proof -
  have f: "\<not> z_is_thread_pending (threads k t)" "\<not> z_is_thread_sleeping (threads k t)"
    using assms(2) by (auto simp: flag_simps)
  then show "\<not> z_is_thread_pending (threads k t)" "\<not> z_is_thread_sleeping (threads k t)" .
  show p: "pended_on (threads k t) = None" using sched_invD(3) [OF assms(1)] f by (auto simp: waitq_inv_def)
  then show "t \<notin> set (wait_qs k w)" for w using sched_invD(3) [OF assms(1)] by (auto simp: waitq_inv_def)
  show "ThreadTimeout t \<notin> set (timeout_list k)" using sched_invD(4) [OF assms(1)] f by (auto simp: timer_inv_def)
qed

lemma idle_not_waiting: "sched_inv X k \<Longrightarrow> idle_thread k \<notin> set (wait_qs k w)"
  using ready_not_pended(5) [of X k "idle_thread k"] by (auto simp: sched_inv_def ready_inv_def)

definition can_block :: "kernel \<Rightarrow> bool" where
  "can_block k \<longleftrightarrow> z_is_thread_ready (threads k (current k)) \<and> current k \<noteq> idle_thread k"

lemma ready_dummy: "sched_inv X k \<Longrightarrow> z_is_thread_ready (threads k t) \<Longrightarrow> t \<noteq> dummy_thread k"
  using ready_not_dummy by (auto simp: sched_inv_def ready_inv_def)

lemma z_pend_curr_inv:
  assumes "sched_inv X k" "can_block k" "ticks_ok n" "\<forall>i. wq = Some (TimerQ i) \<longrightarrow> n = K_FOREVER"
  shows "sched_inv (X - {current k}) (z_pend_curr wq n k)"
  using assms ready_not_pended [OF assms(1), of "current k"] ready_dummy [OF assms(1), of "current k"]
  by (auto simp: z_pend_curr_def can_block_def intro!: z_swap_inv pend_locked_inv)

lemma pend_locked_fields [frame_simps]:
  "current (pend_locked t wq n k) = current k" "idle_thread (pend_locked t wq n k) = idle_thread k"
  "dummy_thread (pend_locked t wq n k) = dummy_thread k"
  "in_isr (pend_locked t wq n k) = in_isr k" "irq_unlocked (pend_locked t wq n k) = irq_unlocked k"
  "slice_ticks (pend_locked t wq n k) = slice_ticks k" "timers (pend_locked t wq n k) = timers k"
  "memory (pend_locked t wq n k) = memory k" "panicked (pend_locked t wq n k) = panicked k"
  "hw_elapsed (pend_locked t wq n k) = hw_elapsed k"
  "wait_qs (pend_locked t (Some w) n k) = (wait_qs k)(w := z_priq_dumb_add (prio_of k) t (wait_qs k w))"
  "pended_on (threads (pend_locked t (Some w) n k) t) = Some w"
  "prio (threads (pend_locked t wq n k) u) = prio (threads k u)"
  "u \<noteq> t \<Longrightarrow> threads (pend_locked t wq n k) u = threads k u"
  "z_is_thread_pending (threads (pend_locked t wq n k) t)"
  "swap_data (threads (pend_locked t wq n k) u) = swap_data (threads k u)"
  "events (threads (pend_locked t wq n k) u) = events (threads k u)"
  "event_options (threads (pend_locked t wq n k) u) = event_options (threads k u)"
  by (simp_all add: pend_locked_def add_thread_timeout_def frame_simps)

lemma z_pend_curr_fields [frame_simps]:
  "idle_thread (z_pend_curr wq n k) = idle_thread k" "in_isr (z_pend_curr wq n k) = in_isr k"
  "irq_unlocked (z_pend_curr wq n k) = irq_unlocked k" "memory (z_pend_curr wq n k) = memory k"
  "timers (z_pend_curr wq n k) = timers k" "panicked (z_pend_curr wq n k) = panicked k"
  "wait_qs (z_pend_curr (Some w) n k) = (wait_qs k)(w := z_priq_dumb_add (prio_of k) (current k) (wait_qs k w))"
  "pended_on (threads (z_pend_curr (Some w) n k) (current k)) = Some w"
  "prio (threads (z_pend_curr wq n k) u) = prio (threads k u)"
  "u \<noteq> current k \<Longrightarrow> threads (z_pend_curr wq n k) u = threads k u"
  "swap_data (threads (z_pend_curr wq n k) u) = swap_data (threads k u)"
  "swap_retval (threads (z_pend_curr wq n k) (current k)) = - EAGAIN"
  by (simp_all add: z_pend_curr_def frame_simps)

section \<open>Waking a waiting thread\<close>

lemma waitq_member:
  "sched_inv X k \<Longrightarrow> t \<in> set (wait_qs k w) \<Longrightarrow> pended_on (threads k t) = Some w \<and> t \<noteq> idle_thread k"
  using idle_not_waiting by (auto simp: sched_inv_def waitq_inv_def)

lemma unpend_first_inv:
  assumes "sched_inv X k" "z_unpend_first_thread w k = (Some t, k')"
  shows "sched_inv (insert t X) k'" "wait_qs k w = t # wait_qs k' w" "pended_on (threads k t) = Some w"
    "t \<noteq> idle_thread k" "k' = z_abort_thread_timeout t (unpend_thread_no_timeout t k)"
    "wait_qs k' = (wait_qs k)(w := tl (wait_qs k w))"
proof -
  obtain ts where w: "wait_qs k w = t # ts" and k': "k' = z_abort_thread_timeout t (unpend_thread_no_timeout t k)"
    using assms(2) by (auto simp: z_unpend_first_thread_def z_priq_dumb_best_def split: list.splits)
  then show "sched_inv (insert t X) k'" "k' = z_abort_thread_timeout t (unpend_thread_no_timeout t k)"
    using unpend_abort_inv [OF assms(1)] by auto
  have m: "t \<in> set (wait_qs k w)" using w by simp
  show p: "pended_on (threads k t) = Some w" "t \<noteq> idle_thread k" using waitq_member [OF assms(1) m] by auto
  show "wait_qs k' = (wait_qs k)(w := tl (wait_qs k w))" "wait_qs k w = t # wait_qs k' w"
    using k' w unpend_thread_upd [OF p(1)] by (simp_all add: frame_simps)
qed

lemma unpend_first_none: "z_unpend_first_thread w k = (None, k') \<longleftrightarrow> wait_qs k w = [] \<and> k' = k"
  by (auto simp: z_unpend_first_thread_def z_priq_dumb_best_def split: list.splits)

lemma unpend_first_cases:
  obtains "wait_qs k w = []" "z_unpend_first_thread w k = (None, k)"
  | t ts where "wait_qs k w = t # ts"
    "z_unpend_first_thread w k = (Some t, z_abort_thread_timeout t (unpend_thread_no_timeout t k))"
  by (cases "wait_qs k w") (auto simp: z_unpend_first_thread_def z_priq_dumb_best_def)

text \<open>Setting the result of a woken thread and making it ready.\<close>

lemma ready_after_transit:
  assumes "sched_inv (insert t X) k" "t \<noteq> idle_thread k"
  shows "sched_inv (X - {t}) (ready_thread t k)"
  using ready_thread_inv [OF assms] by simp

lemma clear_sleeping_inv:
  assumes "sched_inv X k" "t \<in> X" "ThreadTimeout t \<notin> set (timeout_list k)"
  shows "sched_inv X (upd_thread t (clear_state THREAD_SLEEPING) k)"
proof -
  note i = sched_invD [OF assms(1)]
  let ?k = "upd_thread t (clear_state THREAD_SLEEPING) k"
  have p: "prio_of ?k = prio_of k" by (auto simp: frame_simps flag_ops)
  have rdy: "z_is_thread_ready th \<Longrightarrow> z_is_thread_ready (clear_state THREAD_SLEEPING th)" for th by (auto simp: flag_simps)
  have "runq_inv ?k" using i(1) unfolding runq_inv_def p by (auto simp: frame_simps flag_ops)
  moreover have "ready_inv X ?k" using i(2) assms(2) by (auto simp: ready_inv_def frame_simps flag_ops rdy)
  moreover have "waitq_inv ?k" using i(3) by (auto simp: waitq_inv_def frame_simps flag_ops)
  moreover have "timer_inv ?k" using i(4) assms(3) by (auto simp: timer_inv_def clock_ok_def frame_simps flag_ops)
  moreover have "cache_inv ?k" using i(5) by (auto simp: cache_inv_def frame_simps flag_ops rdy)
  ultimately show ?thesis by (rule sched_invI)
qed

lemma clear_suspended_inv:
  assumes "sched_inv X k" "t \<in> X"
  shows "sched_inv X (upd_thread t (clear_state THREAD_SUSPENDED) k)"
proof -
  note i = sched_invD [OF assms(1)]
  let ?k = "upd_thread t (clear_state THREAD_SUSPENDED) k"
  have p: "prio_of ?k = prio_of k" by (auto simp: frame_simps flag_ops)
  have rdy: "z_is_thread_ready th \<Longrightarrow> z_is_thread_ready (clear_state THREAD_SUSPENDED th)" for th by (auto simp: flag_simps)
  have "runq_inv ?k" using i(1) unfolding runq_inv_def p by (auto simp: frame_simps flag_ops)
  moreover have "ready_inv X ?k" using i(2) assms(2) by (auto simp: ready_inv_def frame_simps flag_ops rdy)
  moreover have "waitq_inv ?k" using i(3) by (auto simp: waitq_inv_def frame_simps flag_ops)
  moreover have "timer_inv ?k" using i(4) by (auto simp: timer_inv_def clock_ok_def frame_simps flag_ops)
  moreover have "cache_inv ?k" using i(5) by (auto simp: cache_inv_def frame_simps flag_ops rdy)
  ultimately show ?thesis by (rule sched_invI)
qed

lemma sched_wake_thread_inv:
  assumes "sched_inv X k" "t \<noteq> idle_thread k" "ThreadTimeout t \<notin> set (timeout_list k)"
  shows "sched_inv X (z_sched_wake_thread t is_timeout k)"
proof -
  let ?k1 = "upd_thread t (no_wake_on_timeout_update (\<lambda>_. False)) k"
  let ?k2 = "if pended_on (threads ?k1 t) \<noteq> None then unpend_thread_no_timeout t ?k1 else ?k1"
  have k1: "sched_inv X ?k1" "ThreadTimeout t \<notin> set (timeout_list ?k1)" using assms by (simp_all add: frame_simps)
  have "sched_inv (insert t X) ?k2"
    using unpend_inv [OF k1] sched_inv_mono [OF k1(1), of "insert t X"] by auto
  moreover have "ThreadTimeout t \<notin> set (timeout_list ?k2)" using assms(3) by (auto simp: frame_simps)
  ultimately have "sched_inv (insert t X) (upd_thread t (clear_state THREAD_SLEEPING) ?k2)"
    by (intro clear_sleeping_inv) auto
  from ready_thread_inv [OF this, of t] assms(2)
  have "sched_inv X (ready_thread t (upd_thread t (clear_state THREAD_SLEEPING) ?k2))"
    by (auto simp: frame_simps split: if_splits intro: sched_inv_mono)
  then show ?thesis using k1(1) by (simp add: z_sched_wake_thread_def Let_def flag_marks)
qed

section \<open>Draining a wait queue\<close>

locale drain_loop =
  fixes body :: "tid \<Rightarrow> kernel \<Rightarrow> kernel" and w :: wqid and I :: "kernel \<Rightarrow> bool"
  assumes body_inv: "I k \<Longrightarrow> wait_qs k w = t # ts \<Longrightarrow> I (body t k)"
    and body_pops: "I k \<Longrightarrow> wait_qs k w = t # ts \<Longrightarrow> wait_qs (body t k) w = ts"
begin

lemma drain_returns:
  "I k \<Longrightarrow> drain body w k = Some (fold body (wait_qs k w) k) \<and> I (fold body (wait_qs k w) k) \<and>
     wait_qs (fold body (wait_qs k w) k) w = []"
proof (induction "wait_qs k w" arbitrary: k)
  case Nil
  then show ?case by (subst drain.simps) (simp add: z_waitq_head_def z_priq_dumb_best_def)
next
  case (Cons t ts)
  have w: "wait_qs k w = t # ts" using Cons.hyps(2) by simp
  have "wait_qs (body t k) w = ts" "I (body t k)" using body_pops [OF Cons.prems w] body_inv [OF Cons.prems w] by auto
  with Cons.hyps(1) [of "body t k"] w show ?case
    by (subst drain.simps) (simp add: z_waitq_head_def z_priq_dumb_best_def)
qed

end

lemma sched_wake_body_step:
  assumes "sched_inv X k" "wait_qs k w = t # ts"
  shows "sched_inv X (sched_wake_body v d t k)" "wait_qs (sched_wake_body v d t k) = (wait_qs k)(w := ts)"
    "idle_thread (sched_wake_body v d t k) = idle_thread k"
proof -
  have t: "pended_on (threads k t) = Some w" "t \<noteq> idle_thread k" using waitq_member [OF assms(1), of t w] assms(2) by auto
  let ?k = "z_thread_return_value_set_with_data t v d k"
  have k: "sched_inv X ?k" "pended_on (threads ?k t) = Some w" "wait_qs ?k = wait_qs k" "idle_thread ?k = idle_thread k"
    using assms(1) t(1) by (simp_all add: frame_simps z_thread_return_value_set_with_data_def arch_thread_return_value_set_def)
  from ready_thread_inv [OF unpend_abort_inv [OF k(1)], of t t] t(2) k(4) show "sched_inv X (sched_wake_body v d t k)"
    by (auto simp: sched_wake_body_def frame_simps intro: sched_inv_mono)
  show "wait_qs (sched_wake_body v d t k) = (wait_qs k)(w := ts)" "idle_thread (sched_wake_body v d t k) = idle_thread k"
    using unpend_thread_upd [OF k(2)] assms(2) k(3,4) by (simp_all add: sched_wake_body_def frame_simps)
qed

lemma z_unpend_all_body_step:
  assumes "sched_inv X k" "wait_qs k w = t # ts"
  shows "sched_inv X (z_unpend_all_body t k)" "wait_qs (z_unpend_all_body t k) = (wait_qs k)(w := ts)"
    "idle_thread (z_unpend_all_body t k) = idle_thread k"
proof -
  have t: "pended_on (threads k t) = Some w" "t \<noteq> idle_thread k" using waitq_member [OF assms(1), of t w] assms(2) by auto
  have b: "z_unpend_all_body t k = ready_thread t (z_abort_thread_timeout t (unpend_thread_no_timeout t k))"
    using t(1) by (simp add: z_unpend_all_body_def z_ready_thread_def z_unpend_thread_def z_unpend_thread_no_timeout_def)
  from ready_thread_inv [OF unpend_abort_inv [OF assms(1)], of t t] t(2) show "sched_inv X (z_unpend_all_body t k)"
    by (auto simp: b frame_simps intro: sched_inv_mono)
  show "wait_qs (z_unpend_all_body t k) = (wait_qs k)(w := ts)" "idle_thread (z_unpend_all_body t k) = idle_thread k"
    using unpend_thread_upd [OF t(1)] assms(2) by (simp_all add: b frame_simps)
qed

interpretation sched_wake_all: drain_loop "sched_wake_body v d" w "sched_inv X" for v d w X
  by unfold_locales (auto simp: sched_wake_body_step)

interpretation z_unpend_all: drain_loop z_unpend_all_body w "sched_inv X" for w X
  by unfold_locales (auto simp: z_unpend_all_body_step)


section \<open>The invariant without the cache\<close>

text \<open>Halting a thread leaves the cache stale until its last step recomputes it.\<close>

definition sched_core :: "tid set \<Rightarrow> kernel \<Rightarrow> bool" where
  "sched_core X k \<longleftrightarrow> runq_inv k \<and> ready_inv X k \<and> waitq_inv k \<and> timer_inv k"

lemma inv_core: "sched_inv X k \<Longrightarrow> sched_core X k"
  by (simp add: sched_inv_def sched_core_def)

lemma core_cache: "sched_core X (k\<lparr>ready_cache := c\<rparr>) = sched_core X k"
  by (simp add: sched_core_def runq_inv_def ready_inv_def waitq_inv_def timer_inv_def clock_ok_def frame_simps)

lemma core_fix: "sched_core X k \<Longrightarrow> sched_inv X (k\<lparr>ready_cache := next_up k\<rparr>)"
  using core_cache [where X = X and k = k and c = "next_up k"] by (auto simp: sched_core_def sched_inv_def cache_inv_def frame_simps)

lemma core_update_cache: "sched_core X k \<Longrightarrow> sched_inv X (update_cache p k)"
  by (auto simp: sched_core_def intro: sched_inv_update_cache)

lemma unpend_cache: "unpend_thread_no_timeout t (k\<lparr>ready_cache := c\<rparr>) = (unpend_thread_no_timeout t k)\<lparr>ready_cache := c\<rparr>"
  by (simp add: unpend_thread_no_timeout_def upd_thread_def Let_def split: option.split)

lemma abort_cache: "z_abort_thread_timeout t (k\<lparr>ready_cache := c\<rparr>) = (z_abort_thread_timeout t k)\<lparr>ready_cache := c\<rparr>"
  by (simp add: z_abort_thread_timeout_def z_abort_timeout_def remove_timeout_def next_of_def first_timeout_def
      next_timeout_def elapsed_def sys_clock_set_timeout_def Let_def split: option.splits)

lemma core_unpend_abort:
  assumes "sched_core X k"
  shows "sched_core (insert t X) (z_abort_thread_timeout t (unpend_thread_no_timeout t k))"
  using unpend_abort_inv [OF core_fix [OF assms], of t] by (auto dest: inv_core simp: unpend_cache abort_cache core_cache)

lemma core_ready:
  assumes "sched_core X k" "t \<noteq> idle_thread k"
  shows "sched_core (X - {t}) (ready_thread t k)"
proof (cases "\<not> z_is_thread_queued (threads k t) \<and> z_is_thread_ready (threads k t)")
  case True
  then show ?thesis using assms ready_thread_queues [of k X t] by (auto simp: sched_core_def sched_inv_def)
next
  case False
  then show ?thesis using assms by (auto simp: ready_thread_def sched_core_def ready_inv_def)
qed

lemma core_iff: "sched_core X k \<longleftrightarrow> sched_inv X (k\<lparr>ready_cache := next_up k\<rparr>)"
  using core_fix inv_core core_cache by blast

lemma core_retval: "sched_core X (arch_thread_return_value_set t v k) = sched_core X k"
proof -
  have "(arch_thread_return_value_set t v k)\<lparr>ready_cache := c\<rparr> = arch_thread_return_value_set t v (k\<lparr>ready_cache := c\<rparr>)" for c
    by (simp add: arch_thread_return_value_set_def upd_thread_def)
  then show ?thesis by (simp add: core_iff frame_simps) (simp add: arch_thread_return_value_set_def frame_simps)
qed

lemma core_waiter: "sched_core X k \<Longrightarrow> t \<in> set (wait_qs k w) \<Longrightarrow> pended_on (threads k t) = Some w \<and> t \<noteq> idle_thread k"
  using waitq_member [OF core_fix [of X k], of t w] by simp

lemma unpend_all_body_step:
  assumes "sched_core X k" "wait_qs k w = t # ts"
  shows "sched_core X (unpend_all_body t k)" "wait_qs (unpend_all_body t k) = (wait_qs k)(w := ts)"
proof -
  have t: "pended_on (threads k t) = Some w" "t \<noteq> idle_thread k" using core_waiter [OF assms(1), of t w] assms(2) by auto
  let ?k0 = "z_abort_thread_timeout t (unpend_thread_no_timeout t k)"
  have "sched_core (insert t X) (arch_thread_return_value_set t 0 ?k0)"
    using core_unpend_abort [OF assms(1)] by (simp add: core_retval)
  from core_ready [OF this, of t] t(2) show "sched_core X (unpend_all_body t k)"
    by (auto simp: unpend_all_body_def frame_simps arch_thread_return_value_set_def sched_core_def ready_inv_def)
  show "wait_qs (unpend_all_body t k) = (wait_qs k)(w := ts)"
    using unpend_thread_upd [OF t(1)] assms(2)
    by (simp add: unpend_all_body_def frame_simps arch_thread_return_value_set_def)
qed

interpretation unpend_all: drain_loop unpend_all_body w "sched_core X" for w X
  by unfold_locales (auto simp: unpend_all_body_step)

section \<open>Halting\<close>

lemma dequeue_unqueued:
  assumes "runq_inv k" "\<not> z_is_thread_queued (threads k t)"
  shows "dequeue_thread t k = k"
proof -
  have "t \<notin> set (runq k)" using assms by (simp add: runq_inv_def)
  moreover have "thread_state (threads k t) AND NOT THREAD_QUEUED = thread_state (threads k t)"
    using assms(2) by (intro bit_word_eqI) (auto simp: bit_and_iff bit_not_iff flag_simps)
  ultimately show ?thesis
    by (simp add: dequeue_thread_def runq_remove_def upd_thread_def flag_marks clear_state_def z_priq_dumb_remove_def
        remove1_idem fun_upd_idem)
qed

lemma halt_core:
  assumes "sched_core X k" "t \<noteq> idle_thread k" and s: "s = THREAD_SUSPENDED \<or> s = THREAD_DEAD"
  shows "sched_core (X - {t}) (dequeue_thread t (upd_thread t (set_state s) k))"
proof -
  note i = assms(1) [unfolded sched_core_def]
  let ?k1 = "upd_thread t (set_state s) k" and ?k = "dequeue_thread t (upd_thread t (set_state s) k)"
  have p: "prio_of ?k1 = prio_of k" by (auto simp: frame_simps flag_ops)
  have f: "z_is_thread_queued (set_state s th) = z_is_thread_queued th" "\<not> z_is_thread_ready (set_state s th)"
    "z_is_thread_pending th \<Longrightarrow> z_is_thread_pending (set_state s th)"
    "z_is_thread_sleeping th \<Longrightarrow> z_is_thread_sleeping (set_state s th)" for th
    using s by (auto simp: flag_ops)
  have "runq_inv ?k1" using i unfolding runq_inv_def p by (auto simp: frame_simps f)
  then have "runq_inv ?k" by (rule runq_inv_dequeue)
  moreover have "ready_inv (X - {t}) ?k" using i assms(2) by (auto simp: ready_inv_def frame_simps f flag_ops)
  moreover have "waitq_inv ?k" using i by (auto simp: waitq_inv_def frame_simps flag_ops f)
  moreover have "timer_inv ?k" using i by (auto simp: timer_inv_def clock_ok_def frame_simps flag_ops f)
  ultimately show ?thesis by (simp add: sched_core_def)
qed

end
