(* ===== verification/Sched_Halt.thy ===== *)
theory Sched_Halt
  imports Sched_Ops
begin

text \<open>
  The thread operations keep the invariant of theory \<open>Sched_Inv\<close>: suspending, aborting, joining,
  sleeping, priorities, scheduler locking, time slicing and creation.
\<close>

section \<open>Which thread runs\<close>

text \<open>In thread context with interrupts unlocked, the running thread can run, and it is the best ready
  thread unless it is cooperative or has locked the scheduler.\<close>

definition runs_best :: "kernel \<Rightarrow> bool" where
  "runs_best k \<longleftrightarrow> (resched k \<longrightarrow> z_is_thread_ready (threads k (current k)) \<and>
     (current k = next_up k \<or> \<not> thread_is_preemptible (threads k (current k))))"

lemma next_up_cases: "next_up k = (case runq k of [] \<Rightarrow> idle_thread k | t # ts \<Rightarrow> t)"
  by (simp add: next_up_def runq_best_def z_priq_dumb_best_def split: list.split)

lemma next_up_ready: "sched_inv X k \<Longrightarrow> z_is_thread_ready (threads k (next_up k))"
  by (auto simp: sched_inv_def ready_inv_def runq_inv_def next_up_cases split: list.splits)

lemma settled_runs_best: "sched_inv X k \<Longrightarrow> settled k \<Longrightarrow> runs_best k"
  using next_up_ready [of X k] by (auto simp: runs_best_def settled_def sched_inv_def cache_inv_def)

lemma next_up_highest:
  assumes "sched_inv {} k" "z_is_thread_ready (threads k t)" "t \<noteq> idle_thread k"
  shows "prio_of k (next_up k) \<le> prio_of k t \<and> next_up k \<noteq> idle_thread k"
proof -
  have "t \<in> set (runq k)" using assms by (auto simp: sched_inv_def ready_inv_def runq_inv_def)
  then obtain u us where r: "runq k = u # us" by (cases "runq k") auto
  have "sorted (map (prio_of k) (runq k))" "idle_thread k \<notin> set (runq k)" using assms(1) by (auto simp: sched_inv_def runq_inv_def)
  with r \<open>t \<in> set (runq k)\<close> show ?thesis by (auto simp: next_up_cases)
qed

lemma z_swap_runs_best: "sched_inv X k \<Longrightarrow> runs_best (z_swap k)"
  using settled_runs_best [OF z_swap_inv z_swap_settled] .

lemma z_reschedule_runs_best: "sched_inv X k \<Longrightarrow> runs_best (z_reschedule k)"
  using settled_runs_best [OF z_reschedule_inv z_reschedule_settled] .

lemma in_isr_runs_best: "in_isr k \<Longrightarrow> runs_best k"
  by (simp add: runs_best_def resched_def)

section \<open>Halting a thread\<close>

lemma drop_transit: "sched_core (insert t X) k \<Longrightarrow> \<not> z_is_thread_ready (threads k t) \<Longrightarrow> sched_core X k"
  by (auto simp: sched_core_def ready_inv_def)

lemma dummy_init_inv:
  assumes "sched_inv X k" "ready_cache k = next_up k"
  shows "sched_inv X (z_dummy_thread_init k)"
proof -
  note i = sched_invD [OF assms(1)]
  let ?k = "z_dummy_thread_init k" and ?d = "dummy_thread k"
  have d: "is_thread_dummy (threads k ?d)" using i(2) by (simp add: ready_inv_def)
  then have nr: "\<not> z_is_thread_ready (threads k ?d)" using ready_not_dummy by blast
  then have nq: "\<not> z_is_thread_queued (threads k ?d)" and ni: "?d \<noteq> idle_thread k" using i(2) by (auto simp: ready_inv_def)
  let ?th = "\<lambda>th. th\<lparr>thread_state := THREAD_DUMMY, user_options := K_ESSENTIAL\<rparr>"
  have f: "\<not> z_is_thread_queued (?th th)" "\<not> z_is_thread_ready (?th th)" "is_thread_dummy (?th th)" for th
    by (simp_all add: flag_simps)
  have p: "prio_of ?k = prio_of k" by (auto simp: z_dummy_thread_init_def Let_def frame_simps)
  have "runq_inv ?k" using i(1) nq unfolding runq_inv_def p by (auto simp: z_dummy_thread_init_def Let_def frame_simps f)
  moreover have "ready_inv X ?k" using i(2) ni by (auto simp: ready_inv_def z_dummy_thread_init_def Let_def frame_simps f)
  moreover have "waitq_inv ?k" using i(3) by (auto simp: waitq_inv_def z_dummy_thread_init_def Let_def frame_simps)
  moreover have "timer_inv ?k" using i(4) by (auto simp: timer_inv_def clock_ok_def z_dummy_thread_init_def Let_def frame_simps)
  moreover have "cache_inv ?k" using assms(2) by (simp add: cache_inv_def z_dummy_thread_init_def Let_def frame_simps)
  ultimately show ?thesis by (rule sched_invI)
qed

lemma unpend_all_fields:
  "current (unpend_all_body t k) = current k" "idle_thread (unpend_all_body t k) = idle_thread k"
  "dummy_thread (unpend_all_body t k) = dummy_thread k" "in_isr (unpend_all_body t k) = in_isr k"
  "irq_unlocked (unpend_all_body t k) = irq_unlocked k" "u \<noteq> t \<Longrightarrow> threads (unpend_all_body t k) u = threads k u"
  by (simp_all add: unpend_all_body_def arch_thread_return_value_set_def frame_simps)

lemma fold_unpend_fields:
  "current (fold unpend_all_body ts k) = current k" "idle_thread (fold unpend_all_body ts k) = idle_thread k"
  "dummy_thread (fold unpend_all_body ts k) = dummy_thread k" "in_isr (fold unpend_all_body ts k) = in_isr k"
  "irq_unlocked (fold unpend_all_body ts k) = irq_unlocked k"
  "u \<notin> set ts \<Longrightarrow> threads (fold unpend_all_body ts k) u = threads k u"
  by (induction ts arbitrary: k) (simp_all add: unpend_all_fields)

lemma halt_dead_core:
  assumes "sched_core X k" "\<not> z_is_thread_ready (threads k t)" "z_is_thread_dead (threads k t)"
  shows "\<exists>k'. halt_dead t k = Some k' \<and> sched_core X k' \<and> wait_qs k' (JoinQ t) = [] \<and>
     current k' = current k \<and> idle_thread k' = idle_thread k \<and> dummy_thread k' = dummy_thread k \<and> in_isr k' = in_isr k \<and>
     irq_unlocked k' = irq_unlocked k"
proof -
  let ?k1 = "z_abort_thread_timeout t (unpend_thread_no_timeout t k)"
  have e: "(if pended_on (threads k t) \<noteq> None then unpend_thread_no_timeout t k else k) = unpend_thread_no_timeout t k"
    by (auto simp: unpend_thread_no_timeout_def)
  have "\<not> z_is_thread_ready (threads ?k1 t)" using assms(3)
    by (cases "pended_on (threads k t)") (auto simp: frame_simps unpend_thread_upd flag_simps unpend_thread_no_timeout_def)
  with core_unpend_abort [OF assms(1), of t] have c: "sched_core X ?k1" by (rule drop_transit)
  from unpend_all.drain_returns [OF this, of "JoinQ t"] show ?thesis unfolding halt_dead_def e
    by (auto simp: Let_def unpend_all_def fold_unpend_fields frame_simps)
qed

text \<open>\<open>halt_thread\<close> returns and keeps the invariant; the halted thread is no longer in transit.\<close>

lemma cond_dequeue: "runq_inv k \<Longrightarrow> (if z_is_thread_queued (threads k t) then dequeue_thread t k else k) = dequeue_thread t k"
  by (auto simp: dequeue_unqueued)

lemma runq_inv_set_state:
  assumes "runq_inv k" "s = THREAD_SUSPENDED \<or> s = THREAD_DEAD"
  shows "runq_inv (upd_thread t (set_state s) k)"
proof -
  have p: "prio_of (upd_thread t (set_state s) k) = prio_of k" by (auto simp: frame_simps flag_ops)
  have q: "z_is_thread_queued (set_state s th) = z_is_thread_queued th" for th using assms(2) by (auto simp: flag_ops)
  show ?thesis using assms(1) unfolding runq_inv_def p by (auto simp: frame_simps q)
qed

lemma halted_states [simp]: "THREAD_DEAD \<noteq> THREAD_SUSPENDED" "THREAD_SUSPENDED \<noteq> THREAD_DEAD"
  by (simp_all add: state_defs)

lemma halt_thread_inv:
  assumes inv: "sched_inv X k" and "t \<noteq> idle_thread k" and s: "s = THREAD_SUSPENDED \<or> s = THREAD_DEAD"
  shows "\<exists>k'. halt_thread t s k = Some k' \<and> sched_inv (X - {t}) k' \<and> in_isr k' = in_isr k \<and>
     irq_unlocked k' = irq_unlocked k \<and> current k' \<in> {current k, dummy_thread k} \<and>
     (current k' \<noteq> current k \<longrightarrow> in_isr k)"
proof (cases "thread_state (threads k t) AND s = 0")
  case False
  have "\<not> z_is_thread_ready (threads k t)" using False s by (auto simp: flag_simps)
  then have "sched_inv (X - {t}) k" using inv by (auto simp: sched_inv_def ready_inv_def)
  with False show ?thesis by (simp add: halt_thread_def)
next
  case True
  let ?k2 = "dequeue_thread t (upd_thread t (set_state s) k)"
  have e: "(if z_is_thread_queued (threads (upd_thread t (set_state s) k) t) then dequeue_thread t (upd_thread t (set_state s) k)
      else upd_thread t (set_state s) k) = ?k2"
    using cond_dequeue [OF runq_inv_set_state [OF sched_invD(1) [OF inv] s], of t t] .
  have c: "sched_core (X - {t}) ?k2" using halt_core [OF inv_core [OF inv] assms(2) s] .
  have "\<exists>k3. (if s = THREAD_DEAD then halt_dead t ?k2 else Some ?k2) = Some k3 \<and> sched_core (X - {t}) k3 \<and>
      current k3 = current k \<and> dummy_thread k3 = dummy_thread k \<and> in_isr k3 = in_isr k \<and> irq_unlocked k3 = irq_unlocked k"
  proof (cases "s = THREAD_DEAD")
    case True
    then have "\<not> z_is_thread_ready (threads ?k2 t)" "z_is_thread_dead (threads ?k2 t)" by (simp_all add: frame_simps flag_ops)
    from halt_dead_core [OF c this] True show ?thesis by (auto simp: frame_simps)
  qed (simp add: c frame_simps)
  then obtain k3 where k3: "(if s = THREAD_DEAD then halt_dead t ?k2 else Some ?k2) = Some k3" "sched_core (X - {t}) k3"
    "current k3 = current k" "dummy_thread k3 = dummy_thread k" "in_isr k3 = in_isr k" "irq_unlocked k3 = irq_unlocked k" by blast
  let ?d = "s \<noteq> THREAD_SUSPENDED \<and> s = THREAD_DEAD \<and> t = current k3 \<and> in_isr k3"
  let ?k' = "if ?d then z_dummy_thread_init (update_cache True k3) else update_cache True k3"
  have "halt_thread t s k = Some ?k'"
    unfolding halt_thread_def Let_def e k3(1) using True by simp
  moreover have "sched_inv (X - {t}) ?k'"
    using core_update_cache [OF k3(2)]
    by (auto intro!: dummy_init_inv simp: update_cache_cache should_preempt_def frame_simps)
  ultimately show ?thesis using k3 by (auto simp: z_dummy_thread_init_def Let_def frame_simps)
qed

lemma z_thread_halt_inv:
  assumes "sched_inv X k" "t \<noteq> idle_thread k"
  shows "\<exists>k'. z_thread_halt t terminate k = Some k' \<and> sched_inv (X - {t}) k' \<and> in_isr k' = in_isr k \<and>
     irq_unlocked k' = irq_unlocked k \<and> (t = current k \<and> \<not> in_isr k \<longrightarrow> runs_best k')"
proof -
  have "(if terminate then THREAD_DEAD else THREAD_SUSPENDED) = THREAD_SUSPENDED \<or>
      (if terminate then THREAD_DEAD else THREAD_SUSPENDED) = THREAD_DEAD" by auto
  from halt_thread_inv [OF assms this] obtain k1 where
    "halt_thread t (if terminate then THREAD_DEAD else THREAD_SUSPENDED) k = Some k1" "sched_inv (X - {t}) k1"
    "in_isr k1 = in_isr k" "irq_unlocked k1 = irq_unlocked k" "current k1 \<noteq> current k \<longrightarrow> in_isr k" by auto
  moreover from this(2) have "sched_inv (X - {t}) (z_swap k1)" "sched_inv (X - {t}) (z_swap (k_panic k1))"
    by (auto intro!: z_swap_inv simp: k_panic_def frame_simps)
  moreover have "runs_best (z_swap k1)" "runs_best (z_swap (k_panic k1))"
    using calculation(2) by (auto intro!: z_swap_runs_best simp: k_panic_def frame_simps)
  moreover have "in_isr (k_panic k1) = in_isr k1" "irq_unlocked (k_panic k1) = irq_unlocked k1" by (simp_all add: k_panic_def)
  ultimately show ?thesis by (auto simp: z_thread_halt_def frame_simps)
qed

lemma runs_best_panic: "runs_best (k_panic k) = runs_best k"
  by (simp add: runs_best_def k_panic_def resched_def frame_simps)

lemma z_thread_abort_inv:
  assumes "sched_inv X k" "t \<noteq> idle_thread k" "X \<subseteq> {t}"
  shows "\<exists>k'. z_thread_abort t k = Some k' \<and> sched_inv {} k' \<and> in_isr k' = in_isr k \<and> irq_unlocked k' = irq_unlocked k \<and>
     (t = current k \<and> \<not> in_isr k \<and> \<not> z_is_thread_dead (threads k t) \<longrightarrow> runs_best k')"
proof (cases "z_is_thread_dead (threads k t)")
  case True
  then have "\<not> z_is_thread_ready (threads k t)" by (simp add: flag_simps)
  then have "sched_inv {} k" using assms by (auto simp: sched_inv_def ready_inv_def)
  with True show ?thesis by (simp add: z_thread_abort_def z_is_thread_dead_def)
next
  case False
  have "X - {t} = {}" using assms(3) by auto
  with z_thread_halt_inv [OF assms(1,2), of True] obtain k1 where k1: "z_thread_halt t True k = Some k1" "sched_inv {} k1"
    "in_isr k1 = in_isr k" "irq_unlocked k1 = irq_unlocked k" "t = current k \<and> \<not> in_isr k \<longrightarrow> runs_best k1" by auto
  let ?k = "if z_is_thread_essential (threads k t) then k_panic k1 else k1"
  have "z_thread_abort t k = Some ?k" using False k1(1) by (simp add: z_thread_abort_def z_is_thread_dead_def)
  moreover have "sched_inv {} ?k \<and> in_isr ?k = in_isr k \<and> irq_unlocked ?k = irq_unlocked k"
    using k1 by (simp add: k_panic_def frame_simps)
  moreover have "runs_best ?k = runs_best k1" by (simp add: runs_best_panic)
  ultimately show ?thesis using k1(5) by blast
qed

section \<open>Suspending and resuming\<close>

lemma k_thread_suspend_inv:
  assumes "sched_inv {} k" "t \<noteq> idle_thread k"
  shows "\<exists>k'. k_thread_suspend t k = Some k' \<and> sched_inv {} k' \<and> in_isr k' = in_isr k \<and> irq_unlocked k' = irq_unlocked k"
proof (cases "t = current k \<and> \<not> in_isr k")
  case True
  let ?k = "update_cache True (dequeue_thread t (upd_thread t (set_state THREAD_SUSPENDED) k))"
  have "sched_inv {} ?k" using core_update_cache [OF halt_core [OF inv_core [OF assms(1)] assms(2)], of THREAD_SUSPENDED] by simp
  then have "sched_inv {} (z_swap ?k)" by (rule z_swap_inv)
  with True show ?thesis by (simp add: k_thread_suspend_def flag_marks frame_simps)
next
  case False
  with z_thread_halt_inv [OF assms, of False] assms(1) show ?thesis by (auto simp: k_thread_suspend_def)
qed

lemma k_thread_suspend_self_runs_best:
  assumes "sched_inv {} k" "current k \<noteq> idle_thread k" "\<not> in_isr k" "k_thread_suspend (current k) k = Some k'"
  shows "runs_best k'"
proof -
  let ?k = "update_cache True (dequeue_thread (current k) (upd_thread (current k) (set_state THREAD_SUSPENDED) k))"
  have "sched_inv {} ?k" using core_update_cache [OF halt_core [OF inv_core [OF assms(1)] assms(2)], of THREAD_SUSPENDED] by simp
  from z_swap_runs_best [OF this] assms(3,4) show ?thesis by (simp add: k_thread_suspend_def flag_marks)
qed

lemma idle_ready: "sched_inv X k \<Longrightarrow> z_is_thread_ready (threads k (idle_thread k))"
  by (simp add: sched_inv_def ready_inv_def)

lemma not_ready:
  "z_is_thread_sleeping th \<Longrightarrow> \<not> z_is_thread_ready th" "z_is_thread_suspended th \<Longrightarrow> \<not> z_is_thread_ready th"
  "z_is_thread_pending th \<Longrightarrow> \<not> z_is_thread_ready th" "z_is_thread_dead th \<Longrightarrow> \<not> z_is_thread_ready th"
  by (simp_all add: flag_simps)

lemma k_thread_resume_inv:
  assumes "sched_inv {} k"
  shows "sched_inv {} (k_thread_resume t k)"
    "z_is_thread_suspended (threads k t) \<Longrightarrow> runs_best (k_thread_resume t k)"
proof -
  have "sched_inv {} (ready_thread t (upd_thread t (clear_state THREAD_SUSPENDED) k))" if s: "z_is_thread_suspended (threads k t)"
  proof -
    have "t \<noteq> idle_thread k" using idle_ready [OF assms] s not_ready(2) by metis
    with ready_thread_inv [OF clear_suspended_inv [OF sched_inv_mono [OF assms, of "{t}"]], of t t] show ?thesis
      by (simp add: frame_simps)
  qed
  then show "sched_inv {} (k_thread_resume t k)" "z_is_thread_suspended (threads k t) \<Longrightarrow> runs_best (k_thread_resume t k)"
    using assms by (auto simp: k_thread_resume_def flag_marks intro: z_reschedule_inv z_reschedule_runs_best)
qed

lemma k_thread_resume_fields [frame_simps]:
  "in_isr (k_thread_resume t k) = in_isr k" "irq_unlocked (k_thread_resume t k) = irq_unlocked k"
  "idle_thread (k_thread_resume t k) = idle_thread k"
  by (simp_all add: k_thread_resume_def frame_simps)

section \<open>Joining\<close>

lemma k_thread_join_inv:
  assumes "sched_inv {} k" "can_block k" "ticks_ok n"
  shows "sched_inv {} (snd (k_thread_join t n k))" "fst (k_thread_join t n k) = Blocked \<Longrightarrow> runs_best (snd (k_thread_join t n k))"
proof -
  let ?k = "add_thread_timeout (current k) n (add_to_waitq_locked (current k) (Some (JoinQ t)) k)"
  have "?k = pend_locked (current k) (Some (JoinQ t)) n k" by (simp add: pend_locked_def)
  moreover have "sched_inv ({} - {current k}) (pend_locked (current k) (Some (JoinQ t)) n k)"
    using assms ready_not_pended [OF assms(1), of "current k"] ready_dummy [OF assms(1), of "current k"]
    by (intro pend_locked_inv) (auto simp: can_block_def)
  ultimately have "sched_inv {} ?k" by simp
  then show "sched_inv {} (snd (k_thread_join t n k))" "fst (k_thread_join t n k) = Blocked \<Longrightarrow> runs_best (snd (k_thread_join t n k))"
    using assms(1) by (auto simp: k_thread_join_def intro: z_swap_inv z_swap_runs_best split: if_splits)
qed

end
