(* ===== verification/Sched_Api.thy ===== *)
theory Sched_Api
  imports Sched_Halt
begin

text \<open>
  Sleeping, yielding, priorities, scheduler locking, time slicing and thread creation keep the
  scheduler invariant and end with the right thread running.
\<close>

section \<open>Sleeping and waking\<close>

lemma add_timeout_thread: "z_add_thread_timeout t n (upd_thread u f k) = upd_thread u f (z_add_thread_timeout t n k)"
  by (simp add: z_add_thread_timeout_def z_add_timeout_def upd_thread_def timeout_dticks_def first_timeout_def next_timeout_def
      elapsed_def sys_clock_set_timeout_def Let_def split: option.splits prod.splits)

lemma can_block_facts:
  assumes "sched_inv X k" "can_block k"
  shows "pended_on (threads k (current k)) = None" "ThreadTimeout (current k) \<notin> set (timeout_list k)"
    "current k \<noteq> dummy_thread k" "current k \<noteq> idle_thread k"
  using assms ready_not_pended [OF assms(1), of "current k"] ready_dummy [OF assms(1), of "current k"]
  by (auto simp: can_block_def)

lemma sleep_inv:
  assumes "sched_inv {} k" "can_block k" "ticks_ok n"
  shows "sched_inv {} (upd_thread (current k) z_mark_thread_as_sleeping (z_add_thread_timeout (current k) n (unready_thread (current k) k)))"
proof -
  let ?c = "current k" and ?k1 = "upd_thread (current k) (set_state THREAD_SLEEPING) (unready_thread (current k) k)"
  note c = can_block_facts [OF assms(1,2)]
  have "sched_inv ({?c} - {?c}) ?k1"
    by (rule sched_inv_set_blocked [OF unready_thread_inv [OF assms(1)]])
      (simp_all add: unready_not_queued, simp_all add: frame_simps unready_current_cache c(4))
  then have "sched_inv {} ?k1" by simp
  moreover have "ThreadTimeout ?c \<notin> set (timeout_list ?k1)"
    using c(2) unready_thread_timeouts [OF sched_invD(4) [OF assms(1)], of "ThreadTimeout ?c" ?c] by (simp add: frame_simps)
  ultimately have "sched_inv {} (z_add_thread_timeout ?c n ?k1)"
    using assms(3) c by (intro sched_inv_add_timeout) (auto simp: frame_simps flag_ops)
  then show ?thesis by (simp add: add_timeout_thread flag_marks)
qed

lemma yield_order:
  fixes q :: "tid list"
  assumes "distinct q" "sorted (map pr q)" "c \<in> set q"
  shows "distinct (z_priq_dumb_yield pr c q)" "sorted (map pr (z_priq_dumb_yield pr c q))"
    "set (z_priq_dumb_yield pr c q) = set q"
proof -
  obtain xs ys where q: "q = xs @ c # ys" "c \<notin> set xs" using assms(3) by (meson split_list_first)
  have c: "c \<notin> set ys" using assms(1) q by simp
  have y: "z_priq_dumb_yield pr c q = xs @ z_priq_dumb_add pr c ys" using q yield_split by simp
  have ys: "distinct ys \<and> sorted (map pr ys)" using assms(1,2) q(1) by (simp add: sorted_append)
  then have a: "distinct (z_priq_dumb_add pr c ys)" "sorted (map pr (z_priq_dumb_add pr c ys))"
    "z_priq_dumb_add pr c ys = ins_before (\<lambda>u. pr c < pr u) c ys"
    using dumb.add_law [OF ys _ c] by auto
  then have s: "set (z_priq_dumb_add pr c ys) = insert c (set ys)" by simp
  show "distinct (z_priq_dumb_yield pr c q)" "set (z_priq_dumb_yield pr c q) = set q"
    using a(1) assms(1) q s y by auto
  show "sorted (map pr (z_priq_dumb_yield pr c q))" using a(2) assms(2) q(1) unfolding y by (auto simp: sorted_append s)
qed

lemma k_yield_inv:
  assumes "sched_inv {} k" "can_block k"
  shows "sched_inv {} (k_yield k)" "runs_best (k_yield k)"
proof -
  have "current k \<in> set (runq k)" using assms by (auto simp: can_block_def sched_inv_def ready_inv_def runq_inv_def)
  moreover note i = sched_invD [OF assms(1)]
  ultimately have "runq_inv (runq_yield k)"
    using yield_order [of "runq k" "prio_of k" "current k"] by (auto simp: runq_inv_def runq_yield_def)
  moreover have "ready_inv {} (runq_yield k)" "waitq_inv (runq_yield k)" "timer_inv (runq_yield k)"
    using i by (auto simp: ready_inv_def waitq_inv_def timer_inv_def clock_ok_def runq_yield_def frame_simps)
  ultimately have "sched_inv {} (update_cache True (runq_yield k))" by (intro sched_inv_update_cache)
  then show "sched_inv {} (k_yield k)" "runs_best (k_yield k)" by (auto simp: k_yield_def intro: z_swap_inv z_swap_runs_best)
qed

lemma z_tick_sleep_inv:
  assumes "sched_inv {} k" "can_block k" "ticks_ok n"
  shows "sched_inv {} (snd (z_tick_sleep n k))" "runs_best (snd (z_tick_sleep n k))"
  using k_yield_inv [OF assms(1,2)] z_swap_inv [OF sleep_inv [OF assms]] z_swap_runs_best [OF sleep_inv [OF assms]]
  by (auto simp: z_tick_sleep_def Let_def)

lemma k_sleep_snd: "snd (k_sleep conv n k) = snd (z_tick_sleep n k)"
  by (simp add: k_sleep_def split: prod.splits outcome.splits)

lemma k_wakeup_inv:
  assumes "sched_inv {} k"
  shows "sched_inv {} (k_wakeup t k)" "z_is_thread_sleeping (threads k t) \<Longrightarrow> runs_best (k_wakeup t k)"
proof -
  have "sched_inv {} (ready_thread t (upd_thread t (clear_state THREAD_SLEEPING) (z_abort_thread_timeout t k)))"
    if "z_is_thread_sleeping (threads k t)"
  proof -
    have t: "t \<noteq> idle_thread k" using idle_ready [OF assms] that not_ready(1) by metis
    have "ThreadTimeout t \<notin> set (timeout_list (z_abort_thread_timeout t k))"
      using sched_invD(4) [OF assms] by (simp add: timer_inv_def abort_thread_timeout_set)
    from clear_sleeping_inv [OF sched_inv_mono [OF sched_inv_abort_timeout [OF assms], of "{t}"] _ this]
    have "sched_inv {t} (upd_thread t (clear_state THREAD_SLEEPING) (z_abort_thread_timeout t k))" by simp
    from ready_thread_inv [OF this, of t] t show ?thesis by (simp add: frame_simps)
  qed
  then show "sched_inv {} (k_wakeup t k)" "z_is_thread_sleeping (threads k t) \<Longrightarrow> runs_best (k_wakeup t k)"
    using assms by (auto simp: k_wakeup_def flag_marks intro: z_reschedule_inv z_reschedule_runs_best)
qed

section \<open>Priorities\<close>

lemma prio_update_out_of_queue:
  assumes "runq_inv k" "\<not> z_is_thread_queued (threads k t)"
  shows "runq_inv (upd_thread t (prio_update g) k)"
proof -
  have "t \<notin> set (runq k)" using assms by (simp add: runq_inv_def)
  then have "map (prio_of (upd_thread t (prio_update g) k)) (runq k) = map (prio_of k) (runq k)"
    by (auto simp: frame_simps)
  with assms(1) show ?thesis by (auto simp: runq_inv_def frame_simps flag_ops simp del: map_eq_conv)
qed

lemma prio_update_rest:
  assumes "ready_inv X k" "waitq_inv k" "timer_inv k"
  shows "ready_inv X (upd_thread t (prio_update g) k)" "waitq_inv (upd_thread t (prio_update g) k)"
    "timer_inv (upd_thread t (prio_update g) k)"
  using assms by (auto simp: ready_inv_def waitq_inv_def timer_inv_def clock_ok_def frame_simps flag_ops)

lemma dequeue_rest:
  assumes "ready_inv X k" "waitq_inv k" "timer_inv k"
  shows "ready_inv (insert t X) (dequeue_thread t k)" "waitq_inv (dequeue_thread t k)" "timer_inv (dequeue_thread t k)"
  using assms by (auto simp: ready_inv_def waitq_inv_def timer_inv_def clock_ok_def frame_simps flag_ops)

lemma queue_rest:
  assumes "ready_inv X k" "waitq_inv k" "timer_inv k" "z_is_thread_ready (threads k t)"
  shows "ready_inv (X - {t}) (queue_thread t k)" "waitq_inv (queue_thread t k)" "timer_inv (queue_thread t k)"
  using assms by (auto simp: ready_inv_def waitq_inv_def timer_inv_def clock_ok_def frame_simps flag_ops)

lemma z_thread_prio_set_inv:
  assumes "sched_inv {} k" "t \<noteq> idle_thread k"
  shows "sched_inv {} (snd (z_thread_prio_set t p k))"
proof (cases "z_is_thread_ready (threads k t)")
  case True
  note i = sched_invD [OF assms(1)]
  let ?k1 = "dequeue_thread t k" let ?k2 = "upd_thread t (\<lambda>th. th\<lparr>prio := i8 p\<rparr>) ?k1"
  have q1: "\<not> z_is_thread_queued (threads ?k1 t)" "z_is_thread_ready (threads ?k1 t)"
    using True by (simp_all add: frame_simps flag_ops)
  have r2: "runq_inv ?k2" by (rule prio_update_out_of_queue [OF runq_inv_dequeue [OF i(1)] q1(1)])
  note p2 = prio_update_rest [OF dequeue_rest [OF i(2-4), of t], of t "\<lambda>_. i8 p"]
  have q2: "\<not> z_is_thread_queued (threads ?k2 t)" "z_is_thread_ready (threads ?k2 t)" "t \<noteq> idle_thread ?k2"
    using q1 assms(2) by (simp_all add: frame_simps flag_ops)
  have "sched_inv ({t} - {t}) (update_cache True (queue_thread t ?k2))"
    by (rule sched_inv_update_cache [OF runq_inv_queue [OF r2 q2(1,3)] queue_rest [OF p2 q2(2)]])
  then show ?thesis using True by (simp add: z_thread_prio_set_def Let_def)
next
  case False
  note i = sched_invD [OF assms(1)]
  have "\<not> z_is_thread_queued (threads k t)" using False i(2) by (auto simp: ready_inv_def)
  from prio_update_out_of_queue [OF i(1) this] prio_update_rest [OF i(2-4)]
  have "sched_core {} (upd_thread t (\<lambda>th. th\<lparr>prio := i8 p\<rparr>) k)" by (simp add: sched_core_def)
  moreover have "cache_inv (upd_thread t (\<lambda>th. th\<lparr>prio := i8 p\<rparr>) k)"
    using i(5) False by (auto simp: cache_inv_def frame_simps flag_ops)
  ultimately show ?thesis using False by (simp add: z_thread_prio_set_def Let_def sched_core_def sched_inv_def)
qed

lemma preemptible_unlocked: "thread_is_preemptible th \<Longrightarrow> sched_locked th = 0"
proof (rule ccontr)
  assume a: "thread_is_preemptible th" "sched_locked th \<noteq> 0"
  then have "1 \<le> uint (sched_locked th)" by (metis uint_0_iff int_one_le_iff_zero_less less_le uint_ge_0)
  then have "256 \<le> uint (sched_locked th) * 256" by simp
  moreover have "0 \<le> prio th mod 256" by simp
  ultimately have "256 \<le> preempt th" unfolding preempt_def by linarith
  then show False using a(1) by (simp add: thread_is_preemptible_def)
qed

lemma k_thread_priority_set_inv:
  assumes "sched_inv {} k" "t \<noteq> idle_thread k"
  shows "sched_inv {} (k_thread_priority_set t p k)"
  using z_thread_prio_set_inv [OF assms] by (auto simp: k_thread_priority_set_def Let_def split_beta intro: z_reschedule_inv)

lemma z_thread_prio_set_fields [frame_simps]:
  "current (snd (z_thread_prio_set t p k)) = current k" "in_isr (snd (z_thread_prio_set t p k)) = in_isr k"
  "irq_unlocked (snd (z_thread_prio_set t p k)) = irq_unlocked k" "idle_thread (snd (z_thread_prio_set t p k)) = idle_thread k"
  "wait_qs (snd (z_thread_prio_set t p k)) = wait_qs k" "memory (snd (z_thread_prio_set t p k)) = memory k"
  "fst (z_thread_prio_set t p k) = z_is_thread_ready (threads k t)"
  "sched_locked (threads (snd (z_thread_prio_set t p k)) u) = sched_locked (threads k u)"
  "pended_on (threads (snd (z_thread_prio_set t p k)) u) = pended_on (threads k u)"
  "swap_retval (threads (snd (z_thread_prio_set t p k)) u) = swap_retval (threads k u)"
  "swap_data (threads (snd (z_thread_prio_set t p k)) u) = swap_data (threads k u)"
  "prio (threads (snd (z_thread_prio_set t p k)) u) = (if u = t then i8 p else prio (threads k u))"
  "z_is_thread_ready (threads (snd (z_thread_prio_set t p k)) u) = z_is_thread_ready (threads k u)"
  by (simp_all add: z_thread_prio_set_def Let_def frame_simps flag_ops)

lemma k_thread_priority_set_runs_best:
  assumes "sched_inv {} k" "t \<noteq> idle_thread k" "runs_best k"
  shows "runs_best (k_thread_priority_set t p k)"
proof (cases "z_is_thread_ready (threads k t) \<and> sched_locked (threads k (current k)) = 0")
  case True
  with z_reschedule_runs_best [OF z_thread_prio_set_inv [OF assms(1,2)]] show ?thesis
    by (simp add: k_thread_priority_set_def Let_def split_beta frame_simps)
next
  case False
  let ?k = "snd (z_thread_prio_set t p k)"
  have k: "k_thread_priority_set t p k = ?k" using False by (auto simp: k_thread_priority_set_def Let_def split_beta frame_simps)
  have "runs_best ?k"
  proof (cases "z_is_thread_ready (threads k t)")
    case True
    with False have "\<not> thread_is_preemptible (threads ?k (current ?k))" using preemptible_unlocked [of "threads ?k (current ?k)"] by (auto simp: frame_simps)
    with assms(3) show ?thesis by (auto simp: runs_best_def resched_def frame_simps)
  next
    case nr: False
    then have "?k = upd_thread t (\<lambda>th. th\<lparr>prio := i8 p\<rparr>) k" by (simp add: z_thread_prio_set_def)
    with nr assms(3) show ?thesis by (auto simp: runs_best_def resched_def frame_simps flag_ops)
  qed
  with k show ?thesis by simp
qed

section \<open>Locking the scheduler\<close>

lemma sched_locked_upd:
  "(\<lambda>th. th\<lparr>sched_locked := sched_locked th - 1\<rparr>) = sched_locked_update (\<lambda>n. n - 1)"
  "(\<lambda>th. th\<lparr>sched_locked := sched_locked th + 1\<rparr>) = sched_locked_update (\<lambda>n. n + 1)"
  by (rule ext, rule k_thread.equality; simp)+

lemma sched_locked_core:
  assumes "sched_core X k"
  shows "sched_core X (upd_thread t (sched_locked_update g) k)"
proof -
  note i = assms [unfolded sched_core_def]
  have p: "prio_of (upd_thread t (sched_locked_update g) k) = prio_of k" by (auto simp: frame_simps)
  have "runq_inv (upd_thread t (sched_locked_update g) k)"
    using i unfolding runq_inv_def p by (auto simp: frame_simps flag_ops)
  moreover have "ready_inv X (upd_thread t (sched_locked_update g) k)" using i by (auto simp: ready_inv_def frame_simps flag_ops)
  moreover have "waitq_inv (upd_thread t (sched_locked_update g) k)" using i by (auto simp: waitq_inv_def frame_simps flag_ops)
  moreover have "timer_inv (upd_thread t (sched_locked_update g) k)"
    using i by (auto simp: timer_inv_def clock_ok_def frame_simps flag_ops)
  ultimately show ?thesis by (simp add: sched_core_def)
qed

lemma sched_lock_not_preemptible:
  assumes "sched_locked th \<noteq> 1"
  shows "\<not> thread_is_preemptible (sched_locked_update (\<lambda>n. n - 1) th)"
  using assms preemptible_unlocked [of "sched_locked_update (\<lambda>n. n - 1) th"] by auto

lemma k_sched_lock_inv:
  assumes "sched_inv {} k" "sched_locked (threads k (current k)) \<noteq> 1"
  shows "sched_inv {} (k_sched_lock k)" "runs_best k \<Longrightarrow> runs_best (k_sched_lock k)"
    "\<not> thread_is_preemptible (threads (k_sched_lock k) (current k))"
proof -
  have e: "k_sched_lock k = upd_thread (current k) (sched_locked_update (\<lambda>n. n - 1)) k"
    by (simp add: k_sched_lock_def sched_locked_upd)
  note np = sched_lock_not_preemptible [OF assms(2)]
  then show n: "\<not> thread_is_preemptible (threads (k_sched_lock k) (current k))" by (simp add: e frame_simps)
  have "sched_core {} (k_sched_lock k)" using inv_core [OF assms(1)] by (simp add: e sched_locked_core)
  moreover have "cache_inv (k_sched_lock k)" using sched_invD(5) [OF assms(1)] np by (auto simp: cache_inv_def e frame_simps flag_ops)
  ultimately show "sched_inv {} (k_sched_lock k)" by (simp add: sched_core_def sched_inv_def)
  show "runs_best k \<Longrightarrow> runs_best (k_sched_lock k)" using np by (auto simp: runs_best_def resched_def e frame_simps flag_ops)
qed

lemma k_sched_unlock_inv:
  assumes "sched_inv {} k"
  shows "sched_inv {} (k_sched_unlock k)" "runs_best (k_sched_unlock k)"
proof -
  have "sched_core {} (upd_thread (current k) (sched_locked_update (\<lambda>n. n + 1)) k)"
    using inv_core [OF assms] by (simp add: sched_locked_core)
  from core_update_cache [OF this] show "sched_inv {} (k_sched_unlock k)" "runs_best (k_sched_unlock k)"
    by (auto simp: k_sched_unlock_def sched_locked_upd intro: z_reschedule_inv z_reschedule_runs_best)
qed

lemma k_reschedule_inv:
  assumes "sched_inv {} k"
  shows "sched_inv {} (k_reschedule k)" "runs_best (k_reschedule k)"
  using core_update_cache [OF inv_core [OF assms]] by (auto simp: k_reschedule_def intro: z_reschedule_inv z_reschedule_runs_best)

section \<open>Time slices\<close>

lemma move_to_end_inv:
  assumes "sched_inv {} k" "z_is_thread_ready (threads k t)" "t \<noteq> idle_thread k"
  shows "sched_inv {} (move_thread_to_end_of_prio_q t k)"
proof -
  note i = sched_invD [OF assms(1)]
  let ?k1 = "dequeue_thread t k"
  have e: "move_thread_to_end_of_prio_q t k = update_cache (t = current k) (queue_thread t ?k1)"
    using cond_dequeue [OF i(1), of t] by (simp add: move_thread_to_end_of_prio_q_def Let_def frame_simps)
  have q: "\<not> z_is_thread_queued (threads ?k1 t)" "z_is_thread_ready (threads ?k1 t)" "t \<noteq> idle_thread ?k1"
    using assms by (simp_all add: frame_simps flag_ops)
  have "sched_inv ({t} - {t}) (update_cache (t = current k) (queue_thread t ?k1))"
    by (rule sched_inv_update_cache [OF runq_inv_queue [OF runq_inv_dequeue [OF i(1)] q(1,3)] queue_rest [OF dequeue_rest [OF i(2-4)] q(2)]])
  then show ?thesis by (simp add: e)
qed

lemma z_time_slice_inv:
  assumes "sched_inv {} k"
  shows "sched_inv {} (z_time_slice k)"
  using assms by (auto simp: z_time_slice_def Let_def thread_is_sliceable_def z_is_thread_ready_def z_is_idle_thread_object_def
      intro!: sched_inv_reset_slice move_to_end_inv)

lemma z_time_slice_fields [frame_simps]:
  "in_isr (z_time_slice k) = in_isr k" "irq_unlocked (z_time_slice k) = irq_unlocked k" "current (z_time_slice k) = current k"
  "idle_thread (z_time_slice k) = idle_thread k" "wait_qs (z_time_slice k) = wait_qs k"
  by (simp_all add: z_time_slice_def move_thread_to_end_of_prio_q_def Let_def frame_simps)

section \<open>Interrupt exit\<close>

lemma switch_handle_inv: "sched_inv X k \<Longrightarrow> sched_inv X (z_get_next_switch_handle k)"
  by (simp add: z_get_next_switch_handle_def sched_inv_current)

section \<open>Creating threads\<close>

text \<open>A thread object that may be given to \<open>k_thread_create\<close>: it is in no queue and has no timeout.\<close>

definition unused_thread :: "kernel \<Rightarrow> tid \<Rightarrow> bool" where
  "unused_thread k t \<longleftrightarrow> \<not> z_is_thread_ready (threads k t) \<and> pended_on (threads k t) = None \<and>
     ThreadTimeout t \<notin> set (timeout_list k) \<and> wait_qs k (JoinQ t) = [] \<and> t \<noteq> idle_thread k \<and> t \<noteq> dummy_thread k"

lemma setup_new_thread_inv:
  assumes "sched_inv {} k" "unused_thread k t"
  shows "sched_inv {} (z_setup_new_thread t p opts k)"
proof -
  note i = sched_invD [OF assms(1)] and u = assms(2) [unfolded unused_thread_def]
  let ?new = "\<lambda>th. (z_init_thread_base p THREAD_SLEEPING opts th)\<lparr>no_wake_on_timeout := False\<rparr>"
  let ?k = "z_setup_new_thread t p opts k"
  have th: "threads ?k = (threads k)(t := ?new (threads k t))" "wait_qs ?k = wait_qs k"
    using u by (auto simp: z_setup_new_thread_def Let_def frame_simps)
  have f: "runq ?k = runq k" "idle_thread ?k = idle_thread k" "dummy_thread ?k = dummy_thread k" "current ?k = current k"
    "ready_cache ?k = ready_cache k" "timeout_list ?k = timeout_list k" "timeout_q_ok ?k = timeout_q_ok k"
    "clock_ok ?k = clock_ok k" "next_up ?k = next_up k"
    by (simp_all add: z_setup_new_thread_def Let_def frame_simps clock_ok_def)
  have n: "\<not> z_is_thread_ready (?new th)" "\<not> z_is_thread_queued (?new th)" "pended_on (?new th) = None" for th
    by (simp_all add: z_init_thread_base_def flag_simps)
  have nq: "\<not> z_is_thread_queued (threads k t)" using i(2) u by (auto simp: ready_inv_def)
  then have "t \<notin> set (runq k)" using i(1) by (simp add: runq_inv_def)
  then have m: "map (prio_of ?k) (runq k) = map (prio_of k) (runq k)" by (auto simp: th)
  have "runq_inv ?k" using i(1) nq unfolding runq_inv_def f m by (auto simp: th n)
  moreover have "ready_inv {} ?k" using i(2) u by (auto simp: ready_inv_def f th n)
  moreover have "waitq_inv ?k" using i(3) u by (auto simp: waitq_inv_def f th n)
  moreover have "timer_inv ?k" using i(4) u by (auto simp: timer_inv_def f th)
  moreover have "cache_inv ?k" using i(5) u by (auto simp: cache_inv_def f th)
  ultimately show ?thesis by (rule sched_invI)
qed

lemma k_thread_create_inv:
  assumes "sched_inv {} k" "unused_thread k t" "ticks_ok delay"
  shows "sched_inv {} (k_thread_create t p opts delay k)"
proof -
  let ?k = "z_setup_new_thread t p opts k"
  have inv: "sched_inv {} ?k" using setup_new_thread_inv [OF assms(1,2)] .
  have s: "z_is_thread_sleeping (threads ?k t)" "pended_on (threads ?k t) = None" "timeout_list ?k = timeout_list k"
    "dummy_thread ?k = dummy_thread k"
    by (simp_all add: z_setup_new_thread_def Let_def frame_simps z_init_thread_base_def flag_simps)
  have "sched_inv {} (z_add_thread_timeout t delay ?k)"
    using inv s assms(2,3) by (intro sched_inv_add_timeout) (auto simp: unused_thread_def)
  then show ?thesis using inv k_wakeup_inv(1) [OF inv]
    by (simp add: k_thread_create_def thread_schedule_new_def Let_def)
qed

lemma k_thread_create_runs_best:
  assumes "sched_inv {} k" "unused_thread k t" "runs_best k"
  shows "runs_best (k_thread_create t p opts delay k)"
proof -
  let ?k = "z_setup_new_thread t p opts k"
  have s: "z_is_thread_sleeping (threads ?k t)"
    by (simp add: z_setup_new_thread_def Let_def frame_simps z_init_thread_base_def flag_simps)
  have "current k \<noteq> t \<longrightarrow> threads ?k (current k) = threads k (current k)" "next_up ?k = next_up k" "current ?k = current k"
    "resched ?k = resched k"
    by (simp_all add: z_setup_new_thread_def Let_def frame_simps resched_def)
  then have "runs_best ?k" using assms(2,3) by (auto simp: runs_best_def unused_thread_def)
  moreover from this have "runs_best (z_add_thread_timeout t delay ?k)" by (simp add: runs_best_def resched_def frame_simps)
  ultimately show ?thesis using k_wakeup_inv(2) [OF setup_new_thread_inv [OF assms(1,2)] s]
    by (simp add: k_thread_create_def thread_schedule_new_def Let_def)
qed

text \<open>Suspending another thread does not reschedule: a preemptible running thread stays the best one.\<close>

lemma suspend_other_runs_best:
  assumes "sched_inv {} k" "runs_best k" "t \<noteq> current k" "k_thread_suspend t k = Some k'"
  shows "runs_best k'"
proof (cases "in_isr k \<or> z_is_thread_suspended (threads k t)")
  case True
  show ?thesis
  proof (cases "z_is_thread_suspended (threads k t)")
    case True
    then show ?thesis using assms by (simp add: k_thread_suspend_def)
  next
    case False
    with assms(3,4) True have "z_thread_halt t False k = Some k'" "in_isr k" by (auto simp: k_thread_suspend_def)
    then have "in_isr k'" by (auto simp: z_thread_halt_def halt_thread_def Let_def frame_simps split: if_splits)
    then show ?thesis by (rule in_isr_runs_best)
  qed
next
  case False
  let ?k2 = "dequeue_thread t (upd_thread t (set_state THREAD_SUSPENDED) k)"
  have e: "(if z_is_thread_queued (threads (upd_thread t (set_state THREAD_SUSPENDED) k) t)
      then dequeue_thread t (upd_thread t (set_state THREAD_SUSPENDED) k)
      else upd_thread t (set_state THREAD_SUSPENDED) k) = ?k2"
    using cond_dequeue [OF runq_inv_set_state [OF sched_invD(1) [OF assms(1)]], of THREAD_SUSPENDED t t] by blast
  have k': "k' = update_cache True ?k2"
    using assms(3,4) False e by (auto simp: k_thread_suspend_def z_thread_halt_def halt_thread_def Let_def z_is_thread_suspended_def frame_simps
        split: if_splits)
  have "next_up k' = next_up k" if "current k = next_up k"
    using that assms(3) by (auto simp: k' next_up_cases frame_simps split: list.splits)
  moreover have "threads k' (current k) = threads k (current k)" "current k' = current k" "resched k' = resched k"
    using assms(3) by (simp_all add: k' frame_simps resched_def)
  ultimately show ?thesis using assms(2) by (auto simp: runs_best_def)
qed

end
