(* ===== verification/Timer.thy ===== *)
theory Timer
  imports Sched_Api
begin

text \<open>
  Kernel timers (\<open>kernel/timer.c\<close>) and the dispatch of timeouts: what \<open>sys_clock_announce\<close> calls for
  a thread timeout, the time slice and a timer. A timer's expiry and stop functions belong to the
  application; they are the parameters \<open>expiry\<close> and \<open>stop\<close>, and the locale \<open>timer_callbacks\<close>
  states what the kernel relies on when it calls the expiry function from the clock interrupt.
\<close>

section \<open>Operations\<close>

definition K_TIMEOUT_ABS_TICKS :: "int \<Rightarrow> k_timeout" where
  "K_TIMEOUT_ABS_TICKS t = Z_TICK_ABS (max t 0)"

definition upd_timer :: "nat \<Rightarrow> (k_timer \<Rightarrow> k_timer) \<Rightarrow> kernel \<Rightarrow> kernel" where
  "upd_timer i f k = k\<lparr>timers := (timers k)(i := f (timers k i))\<rparr>"

definition next_period :: "k_timeout \<Rightarrow> kernel \<Rightarrow> k_timeout" where
  "next_period per k = K_TIMEOUT_ABS_TICKS (i64 (k_uptime_ticks k + 1 + max (per - 1) 0))"

definition z_timer_expiration_handler :: "(nat \<Rightarrow> kernel \<Rightarrow> kernel) \<Rightarrow> nat \<Rightarrow> kernel \<Rightarrow> kernel" where
  "z_timer_expiration_handler expiry i k =
     (if TimerTimeout i \<in> set (timeout_list k) then k
      else let per = period (timers k i);
               k1 = (if per \<noteq> K_NO_WAIT \<and> per \<noteq> K_FOREVER
                     then z_add_timeout (TimerTimeout i) Z_timer_expiration_handler (next_period per k) k else k);
               k2 = upd_timer i (\<lambda>tm. tm\<lparr>tm_status := tm_status tm + 1\<rparr>) k1;
               k3 = (if has_expiry_fn (timers k2 i) then expiry i k2 else k2)
           in case z_waitq_head (TimerQ i) k3 of
                None \<Rightarrow> k3
              | Some t \<Rightarrow> z_ready_thread t (arch_thread_return_value_set t 0 (z_unpend_thread_no_timeout t k3)))"

definition k_timer_init :: "nat \<Rightarrow> bool \<Rightarrow> bool \<Rightarrow> kernel \<Rightarrow> kernel" where
  "k_timer_init i ef sf k =
     (let k1 = upd_timer i (\<lambda>tm. tm\<lparr>has_expiry_fn := ef, has_stop_fn := sf, tm_status := 0\<rparr>) k
      in k1\<lparr>wait_qs := (wait_qs k1)(TimerQ i := [])\<rparr>)"

definition k_timer_start :: "nat \<Rightarrow> k_timeout \<Rightarrow> k_timeout \<Rightarrow> kernel \<Rightarrow> kernel" where
  "k_timer_start i duration per k =
     (if duration = K_FOREVER then k
      else let d = (if Z_TICK_ABS duration < 0 then max (duration - 1) 0 else duration);
               k1 = snd (z_abort_timeout (TimerTimeout i) k);
               k2 = upd_timer i (\<lambda>tm. tm\<lparr>period := per, tm_status := 0\<rparr>) k1
           in z_add_timeout (TimerTimeout i) Z_timer_expiration_handler d k2)"

definition k_timer_stop :: "(nat \<Rightarrow> kernel \<Rightarrow> kernel) \<Rightarrow> nat \<Rightarrow> kernel \<Rightarrow> kernel" where
  "k_timer_stop stop i k =
     (let (r, k1) = z_abort_timeout (TimerTimeout i) k
      in if r \<noteq> 0 then k1
         else let k2 = (if has_stop_fn (timers k1 i) then stop i k1 else k1)
              in case z_unpend1_no_timeout (TimerQ i) k2 of
                   (None, k3) \<Rightarrow> k3
                 | (Some t, k3) \<Rightarrow> z_reschedule_unlocked (z_ready_thread t k3))"

definition k_timer_status_get :: "nat \<Rightarrow> kernel \<Rightarrow> u32 \<times> kernel" where
  "k_timer_status_get i k = (tm_status (timers k i), upd_timer i (\<lambda>tm. tm\<lparr>tm_status := 0\<rparr>) k)"

definition k_timer_status_sync :: "nat \<Rightarrow> kernel \<Rightarrow> u32 outcome \<times> kernel" where
  "k_timer_status_sync i k =
     (let result = tm_status (timers k i)
      in if result = 0 \<and> \<not> z_is_inactive_timeout k (TimerTimeout i)
         then (Blocked, z_pend_curr (Some (TimerQ i)) K_FOREVER k)
         else (Done result, upd_timer i (\<lambda>tm. tm\<lparr>tm_status := 0\<rparr>) k))"

text \<open>What the woken thread runs behind the switch.\<close>

definition k_timer_status_sync_resume :: "nat \<Rightarrow> kernel \<Rightarrow> u32 \<times> kernel" where
  "k_timer_status_sync_resume i k = (tm_status (timers k i), upd_timer i (\<lambda>tm. tm\<lparr>tm_status := 0\<rparr>) k)"

text \<open>The call \<open>t->fn(t)\<close> of \<open>sys_clock_announce\<close>: the function is fixed by the kind of timeout.\<close>

definition timeout_dispatch ::
  "(nat \<Rightarrow> kernel \<Rightarrow> kernel) \<Rightarrow> (nat \<Rightarrow> kernel \<Rightarrow> kernel) \<Rightarrow> timeout_id \<Rightarrow> kernel \<Rightarrow> kernel" where
  "timeout_dispatch expiry work to k =
     (case to of
        ThreadTimeout t \<Rightarrow> z_thread_timeout t k
      | SliceTimeout \<Rightarrow> slice_timeout k
      | TimerTimeout i \<Rightarrow> z_timer_expiration_handler expiry i k
      | WorkTimeout i \<Rightarrow> work i k)"

definition clock_announce ::
  "(nat \<Rightarrow> kernel \<Rightarrow> kernel) \<Rightarrow> (nat \<Rightarrow> kernel \<Rightarrow> kernel) \<Rightarrow> int \<Rightarrow> kernel \<Rightarrow> kernel option" where
  "clock_announce expiry work ticks k = sys_clock_announce (timeout_dispatch expiry work) z_time_slice ticks k"

text \<open>What the timeout of a delayable work item does to threads: it wakes the thread of a work queue, which waits
  on the given object, or nothing.\<close>

definition work_notify :: "(nat \<Rightarrow> nat option) \<Rightarrow> nat \<Rightarrow> kernel \<Rightarrow> kernel" where
  "work_notify notifyq i k = (case notifyq i of None \<Rightarrow> k | Some n \<Rightarrow> snd (z_sched_wake (ObjQ n) 0 0 k))"

section \<open>New timeouts lie in the future\<close>

text \<open>\<open>later k k'\<close>: every timeout of \<open>k'\<close> is one of \<open>k\<close> with its deadline, or expires in the future.\<close>

definition later :: "kernel \<Rightarrow> kernel \<Rightarrow> bool" where
  "later k k' \<longleftrightarrow> (\<forall>p \<in> set (rem_q k'). p \<in> set (rem_q k) \<or> 0 < snd p)"

lemma later_refl [simp]: "later k k"
  by (simp add: later_def)

lemma later_trans: "later k k' \<Longrightarrow> later k' k'' \<Longrightarrow> later k k''"
  by (auto simp: later_def)

lemma later_eq: "rem_q k' = rem_q k \<Longrightarrow> later k k'"
  by (simp add: later_def)

lemma rem_q_kernel [frame_simps]:
  "rem_q (threads_update f1 k) = rem_q k" "rem_q (runq_update f2 k) = rem_q k" "rem_q (ready_cache_update f3 k) = rem_q k"
  "rem_q (current_update f3 k) = rem_q k" "rem_q (wait_qs_update f4 k) = rem_q k" "rem_q (slice_expired_update f5 k) = rem_q k"
  "rem_q (timers_update f6 k) = rem_q k" "rem_q (memory_update f7 k) = rem_q k" "rem_q (panicked_update f5 k) = rem_q k"
  "rem_q (upd_thread t g k) = rem_q k" "rem_q (upd_timer i h k) = rem_q k"
  by (simp_all add: rem_q_def upd_thread_def upd_timer_def)

lemma abort_later: "timeout_q_ok k \<Longrightarrow> later k (snd (z_abort_timeout to k))"
  by (auto simp: later_def abort_timeout_rem_q)

lemma add_later:
  assumes "timeout_q_ok k" "to \<notin> set (timeout_list k)" "valid_timeout k n"
  shows "later k (z_add_timeout to fn n k)"
proof (cases "n = K_FOREVER")
  case False
  show ?thesis using timeout_dticks_bounds [OF assms(3) False] by (auto simp: later_def add_timeout_rem_q [OF assms(1,2) False])
qed simp

lemma reset_slice_later:
  assumes "timeout_q_ok k" "clock_ok k"
  shows "later k (z_reset_time_slice t k)"
proof -
  let ?k1 = "(snd (z_abort_timeout SliceTimeout k))\<lparr>slice_expired := False\<rparr>"
  have k1: "timeout_q_ok ?k1" "SliceTimeout \<notin> set (timeout_list ?k1)" "later k ?k1" "clock_ok ?k1"
    using assms abort_timeout_ok [OF assms(1), of SliceTimeout] abort_timeout_set [OF assms(1), of SliceTimeout]
      abort_later [OF assms(1), of SliceTimeout]
    by (auto simp: frame_simps later_def clock_ok_def)
  have "valid_timeout ?k1 (slice_time ?k1 t - 1)"
    using k1(4) by (intro valid_timeoutI) (auto simp: ticks_ok_def clock_ok_def slice_time_def)
  from add_later [OF k1(1,2) this] later_trans [OF k1(3)] k1(3) show ?thesis
    by (auto simp: z_reset_time_slice_def Let_def)
qed

lemma update_cache_later: "timeout_q_ok k \<Longrightarrow> clock_ok k \<Longrightarrow> later k (update_cache p k)"
  using reset_slice_later [of k] by (auto simp: update_cache_def Let_def later_def frame_simps)

lemma ready_thread_later: "timeout_q_ok k \<Longrightarrow> clock_ok k \<Longrightarrow> later k (ready_thread t k)"
  using update_cache_later [of "queue_thread t k" False]
  by (auto simp: ready_thread_def later_def queue_thread_def runq_add_def frame_simps clock_ok_def)

lemma unpend_rem_q [frame_simps]: "rem_q (unpend_thread_no_timeout t k) = rem_q k"
  by (simp add: unpend_thread_no_timeout_def Let_def frame_simps split: option.split)

lemma wake_thread_later:
  assumes "timeout_q_ok k" "clock_ok k"
  shows "later k (z_sched_wake_thread t b k)"
proof -
  have *: "later k (ready_thread t k1)" if "rem_q k1 = rem_q k" "hw_elapsed k1 = hw_elapsed k" "slice_ticks k1 = slice_ticks k" for k1
    using ready_thread_later [of k1 t] ok_cong [OF that(1)] clock_ok_cong [OF that(2,3)] assms that(1) by (simp add: later_def)
  have "later k (upd_thread t f k)" for f by (rule later_eq) (simp add: frame_simps)
  then show ?thesis by (auto simp: z_sched_wake_thread_def Let_def frame_simps intro!: *)
qed

section \<open>The handlers keep the invariant\<close>

lemma sched_inv_fewer_timeouts:
  fixes k k' :: kernel
  assumes "sched_inv X k" "timeout_q.more k' = timeout_q.more k" "hw_elapsed k' = hw_elapsed k"
    "set (timeout_list k') \<subseteq> set (timeout_list k)" "timeout_q_ok k'"
  shows "sched_inv X k'"
proof -
  note i = sched_invD [OF assms(1)]
  have f: "threads k' = threads k" "runq k' = runq k" "ready_cache k' = ready_cache k" "current k' = current k"
    "idle_thread k' = idle_thread k" "dummy_thread k' = dummy_thread k" "wait_qs k' = wait_qs k" "slice_ticks k' = slice_ticks k"
    using assms(2) by (cases k; cases k'; simp)+
  have n: "next_up k' = next_up k" using f by (intro next_up_cong)
  have "runq_inv k'" "ready_inv X k'" "waitq_inv k'" "cache_inv k'"
    using i(1,2,3,5) unfolding runq_inv_def ready_inv_def waitq_inv_def cache_inv_def f n .
  moreover have "timer_inv k'" using i(4) assms(3-5) by (auto simp: timer_inv_def clock_ok_def f)
  ultimately show ?thesis by (intro sched_invI)
qed

lemma upd_timer_inv [frame_simps]: "sched_inv X (upd_timer i f k) = sched_inv X k"
  by (simp add: upd_timer_def frame_simps)

lemma sched_inv_slice_expired: "sched_inv X k \<Longrightarrow> sched_inv X (slice_timeout k)"
  by (auto simp: slice_timeout_def sched_inv_def runq_inv_def ready_inv_def waitq_inv_def timer_inv_def cache_inv_def clock_ok_def
      frame_simps)

lemma sched_inv_add_other:
  assumes "sched_inv X k" "to \<notin> set (timeout_list k)" "valid_timeout k n" "\<And>t. to \<noteq> ThreadTimeout t"
  shows "sched_inv X (z_add_timeout to fn n k)"
proof (cases "n = K_FOREVER")
  case False
  note i = sched_invD [OF assms(1)]
  have q: "timeout_q_ok k" using i(4) by (simp add: timer_inv_def)
  have "timer_inv (z_add_timeout to fn n k)"
    using i(4) add_timeout_ok [OF q assms(2,3)] assms(4) add_timeout_set [OF q assms(2) False]
    by (auto simp: timer_inv_def clock_ok_def frame_simps)
  then show ?thesis using i
    by (auto simp: sched_inv_def runq_inv_def ready_inv_def waitq_inv_def cache_inv_def frame_simps)
qed (simp add: assms)

lemma sched_inv_abort_other: "sched_inv X k \<Longrightarrow> sched_inv X (snd (z_abort_timeout to k))"
  using abort_timeout_set [of k to] abort_timeout_ok [of k to]
  by (auto simp: sched_inv_def runq_inv_def ready_inv_def waitq_inv_def timer_inv_def cache_inv_def clock_ok_def frame_simps)

text \<open>Waking the first thread that waits for a timer.\<close>

lemma timer_waiter:
  assumes "sched_inv X k" "t \<in> set (wait_qs k (TimerQ i))"
  shows "pended_on (threads k t) = Some (TimerQ i)" "ThreadTimeout t \<notin> set (timeout_list k)" "t \<noteq> idle_thread k"
  using waitq_member [OF assms] sched_invD(4) [OF assms(1)] by (auto simp: timer_inv_def)

lemma timer_wake_inv:
  assumes "sched_inv {} k" "t \<in> set (wait_qs k (TimerQ i))"
  shows "sched_inv {} (ready_thread t (arch_thread_return_value_set t 0 (unpend_thread_no_timeout t k)))"
    "sched_inv {} (ready_thread t (unpend_thread_no_timeout t k))"
proof -
  note t = timer_waiter [OF assms]
  have "sched_inv {t} (unpend_thread_no_timeout t k)" using unpend_inv [OF assms(1) t(2)] .
  with ready_thread_inv [of "{t}" _ t] t(3)
  show "sched_inv {} (ready_thread t (arch_thread_return_value_set t 0 (unpend_thread_no_timeout t k)))"
    "sched_inv {} (ready_thread t (unpend_thread_no_timeout t k))"
    by (auto simp: frame_simps arch_thread_return_value_set_def)
qed

lemma next_period_valid: "valid_timeout k (next_period per k)"
  unfolding valid_timeout_def next_period_def K_TIMEOUT_ABS_TICKS_def Z_TICK_ABS_def by linarith

locale timer_callbacks =
  fixes expiry work :: "nat \<Rightarrow> kernel \<Rightarrow> kernel"
  assumes expiry_inv: "sched_inv {} k \<Longrightarrow> in_isr k \<Longrightarrow> sched_inv {} (expiry i k)"
    and expiry_isr: "in_isr (expiry i k) = in_isr k"
    and expiry_remaining: "announce_remaining (expiry i k) = announce_remaining k"
    and expiry_tick: "curr_tick (expiry i k) = curr_tick k"
    and expiry_later: "sched_inv {} k \<Longrightarrow> in_isr k \<Longrightarrow> later k (expiry i k)"
    and work_inv: "sched_inv {} k \<Longrightarrow> in_isr k \<Longrightarrow> sched_inv {} (work i k)"
    and work_fields: "in_isr (work i k) = in_isr k" "announce_remaining (work i k) = announce_remaining k" "curr_tick (work i k) = curr_tick k"
    and work_later: "sched_inv {} k \<Longrightarrow> in_isr k \<Longrightarrow> later k (work i k)"
begin

lemma handler_fields:
  "in_isr (z_timer_expiration_handler expiry i k) = in_isr k"
  "announce_remaining (z_timer_expiration_handler expiry i k) = announce_remaining k"
  "curr_tick (z_timer_expiration_handler expiry i k) = curr_tick k"
  by (auto simp: z_timer_expiration_handler_def Let_def z_ready_thread_def arch_thread_return_value_set_def
      z_unpend_thread_no_timeout_def upd_timer_def frame_simps expiry_isr expiry_remaining expiry_tick split: option.splits)

lemma handler_before_wake:
  assumes "sched_inv {} k" "in_isr k" "TimerTimeout i \<notin> set (timeout_list k)"
    and k1: "k1 = (if period (timers k i) \<noteq> K_NO_WAIT \<and> period (timers k i) \<noteq> K_FOREVER
        then z_add_timeout (TimerTimeout i) Z_timer_expiration_handler (next_period (period (timers k i)) k) k else k)"
    and k2: "k2 = upd_timer i f k1" and k3: "k3 = (if b then expiry i k2 else k2)"
  shows "sched_inv {} k3 \<and> in_isr k3 \<and> later k k3"
proof -
  have q: "timeout_q_ok k" using sched_invD(4) [OF assms(1)] by (simp add: timer_inv_def)
  have "sched_inv {} k1" "later k k1" "in_isr k1"
    using assms(1,2) sched_inv_add_other [OF assms(1,3) next_period_valid] add_later [OF q assms(3) next_period_valid]
    by (auto simp: k1 frame_simps)
  then have *: "sched_inv {} k2" "later k k2" "in_isr k2" by (auto simp: k2 frame_simps later_def upd_timer_def)
  then show ?thesis using expiry_inv expiry_isr later_trans [OF *(2) expiry_later [OF *(1,3)]] by (simp add: k3)
qed

lemma handler_inv:
  assumes "sched_inv {} k" "in_isr k" "TimerTimeout i \<notin> set (timeout_list k)"
  shows "sched_inv {} (z_timer_expiration_handler expiry i k) \<and> later k (z_timer_expiration_handler expiry i k)"
proof -
  define k1 where "k1 = (if period (timers k i) \<noteq> K_NO_WAIT \<and> period (timers k i) \<noteq> K_FOREVER
      then z_add_timeout (TimerTimeout i) Z_timer_expiration_handler (next_period (period (timers k i)) k) k else k)"
  define k2 where "k2 = upd_timer i (\<lambda>tm. tm\<lparr>tm_status := tm_status tm + 1\<rparr>) k1"
  define k3 where "k3 = (if has_expiry_fn (timers k2 i) then expiry i k2 else k2)"
  have *: "sched_inv {} k3" "in_isr k3" "later k k3" using handler_before_wake [OF assms k1_def k2_def k3_def] by auto
  have h: "z_timer_expiration_handler expiry i k = (case z_waitq_head (TimerQ i) k3 of None \<Rightarrow> k3
      | Some t \<Rightarrow> z_ready_thread t (arch_thread_return_value_set t 0 (z_unpend_thread_no_timeout t k3)))"
    using assms(3) unfolding z_timer_expiration_handler_def Let_def k1_def [symmetric] k2_def [symmetric] k3_def [symmetric]
    by (simp only: if_False)
  show ?thesis
  proof (cases "wait_qs k3 (TimerQ i)")
    case Nil
    then show ?thesis using * h by (simp add: z_waitq_head_def z_priq_dumb_best_def)
  next
    case (Cons t ts)
    then have t: "t \<in> set (wait_qs k3 (TimerQ i))" by simp
    let ?k4 = "arch_thread_return_value_set t 0 (unpend_thread_no_timeout t k3)"
    have e: "z_timer_expiration_handler expiry i k = ready_thread t ?k4"
      using h Cons timer_waiter(1) [OF *(1) t]
      by (simp add: z_waitq_head_def z_priq_dumb_best_def z_ready_thread_def z_unpend_thread_no_timeout_def)
    have "timeout_q_ok k3" "clock_ok k3" using sched_invD(4) [OF *(1)] by (simp_all add: timer_inv_def)
    then have "later ?k4 (ready_thread t ?k4)" "rem_q ?k4 = rem_q k3"
      by (auto intro!: ready_thread_later simp: arch_thread_return_value_set_def frame_simps clock_ok_def)
    then have "later k (ready_thread t ?k4)" using *(3) by (auto simp: later_def)
    then show ?thesis using timer_wake_inv(1) [OF *(1) t] e by simp
  qed
qed

end

lemma waking_not_idle:
  assumes "sched_inv X k" "ThreadTimeout t \<in> set (timeout_list k)"
  shows "t \<noteq> idle_thread k"
  using assms not_ready(1,3) [of "threads k t"] idle_ready [OF assms(1)] by (auto simp: sched_inv_def timer_inv_def)

lemma wake_thread_fields [frame_simps]:
  "in_isr (z_sched_wake_thread t b k) = in_isr k" "announce_remaining (z_sched_wake_thread t b k) = announce_remaining k"
  "curr_tick (z_sched_wake_thread t b k) = curr_tick k" "idle_thread (z_sched_wake_thread t b k) = idle_thread k"
  "irq_unlocked (z_sched_wake_thread t b k) = irq_unlocked k" "current (z_sched_wake_thread t b k) = current k"
  by (simp_all add: z_sched_wake_thread_def Let_def frame_simps)

sublocale timer_callbacks \<subseteq> announcing: timeout_callbacks "timeout_dispatch expiry work" "\<lambda>k. sched_inv {} k \<and> in_isr k"
proof -
  have step: "sched_inv {} (timeout_dispatch expiry work t (fire t k)) \<and> in_isr (timeout_dispatch expiry work t (fire t k)) \<and>
      later (fire t k) (timeout_dispatch expiry work t (fire t k))"
    if "timeout_q_ok k" "sched_inv {} k \<and> in_isr k" "first_timeout k = Some t" for t k
  proof -
    have l: "t \<in> set (timeout_list k)" using that(3) by (auto simp: first_timeout_def split: list.splits)
    have m: "timeout_q.more (fire t k) = timeout_q.more k" by (rule fire_fields)
    have f: "sched_inv {} (fire t k)" "in_isr (fire t k)" "t \<notin> set (timeout_list (fire t k))" "idle_thread (fire t k) = idle_thread k"
      using that sched_inv_fewer_timeouts [OF _ m, of "{}"] fire_ok [OF that(1,3)] set_remove1_subset [of t "timeout_list k"] m
      by (auto simp: fire_list) (cases k; cases "fire t k"; simp)+
    have q: "timeout_q_ok (fire t k)" "clock_ok (fire t k)" using sched_invD(4) [OF f(1)] by (simp_all add: timer_inv_def)
    show ?thesis
    proof (cases t)
      case (ThreadTimeout u)
      with f l waking_not_idle [of "{}" k u] that(2) q show ?thesis
        by (auto simp: timeout_dispatch_def z_thread_timeout_def frame_simps intro: sched_wake_thread_inv wake_thread_later)
    next
      case SliceTimeout
      with f show ?thesis by (auto simp: timeout_dispatch_def sched_inv_slice_expired later_def) (auto simp: slice_timeout_def frame_simps)
    next
      case (TimerTimeout i)
      with f handler_inv [OF f(1,2)] handler_fields(1) show ?thesis by (simp add: timeout_dispatch_def)
    next
      case (WorkTimeout i)
      with f show ?thesis by (simp add: timeout_dispatch_def work_inv work_fields work_later)
    qed
  qed
  show "timeout_callbacks (timeout_dispatch expiry work) (\<lambda>k. sched_inv {} k \<and> in_isr k)"
  proof (unfold_locales, goal_cases)
    case (1 q t)
    then show ?case using step [of q t] by (auto simp: sched_inv_def timer_inv_def)
  next
    case (2 q t)
    then show ?case using step [of q t] by blast
  next
    case (3 t q)
    then show ?case by (cases t) (auto simp: timeout_dispatch_def z_thread_timeout_def slice_timeout_def frame_simps handler_fields work_fields)
  next
    case (4 t q)
    then show ?case by (cases t) (auto simp: timeout_dispatch_def z_thread_timeout_def slice_timeout_def frame_simps handler_fields work_fields)
  next
    case (5 q t p)
    then show ?case using step [of q t] by (auto simp: later_def)
  next
    case (6 q q')
    moreover from 6 have "in_isr q' = in_isr q" by (cases q; cases q'; simp)
    ultimately show ?case using sched_inv_fewer_timeouts by blast
  qed
qed

text \<open>An expiry function that wakes the timer's owner with \<open>k_wakeup\<close> meets the contract.\<close>

lemma reschedule_in_isr: "in_isr k \<Longrightarrow> z_reschedule k = k"
  by (simp add: z_reschedule_def resched_def)

lemma k_wakeup_fields [frame_simps]:
  "in_isr (k_wakeup t k) = in_isr k" "announce_remaining (k_wakeup t k) = announce_remaining k"
  "curr_tick (k_wakeup t k) = curr_tick k" "idle_thread (k_wakeup t k) = idle_thread k"
  "irq_unlocked (k_wakeup t k) = irq_unlocked k"
  by (simp_all add: k_wakeup_def frame_simps)

lemma k_wakeup_later:
  assumes "sched_inv {} k" "in_isr k"
  shows "later k (k_wakeup t k)"
proof -
  have q: "timeout_q_ok k" "clock_ok k" using sched_invD(4) [OF assms(1)] by (simp_all add: timer_inv_def)
  let ?k1 = "z_abort_thread_timeout t k"
  have "later k ?k1" using abort_later [OF q(1)] by (simp add: z_abort_thread_timeout_def)
  moreover have "later ?k1 (ready_thread t (upd_thread t f ?k1))" for f
    using ready_thread_later [of "upd_thread t f ?k1" t] q
    by (auto simp: later_def frame_simps abort_thread_timeout_ok clock_ok_def)
  ultimately show ?thesis using assms(2) by (auto simp: k_wakeup_def reschedule_in_isr frame_simps intro: later_trans)
qed

lemma sched_wake_cases:
  assumes "sched_inv {} k"
  obtains (none) "wait_qs k w = []" "z_sched_wake w v d k = (False, k)"
  | (some) t ts k1 where "wait_qs k w = t # ts" "z_sched_wake w v d k = (True, ready_thread t (z_abort_thread_timeout t (unpend_thread_no_timeout t k1)))"
    "k1 = z_thread_return_value_set_with_data t v d k" "sched_inv {} k1" "t \<noteq> idle_thread k" "pended_on (threads k1 t) = Some w"
proof (cases "wait_qs k w")
  case Nil
  then show ?thesis using none by (simp add: z_sched_wake_def z_priq_dumb_best_def)
next
  case (Cons t ts)
  let ?k1 = "z_thread_return_value_set_with_data t v d k"
  have "sched_inv {} ?k1" using assms by (simp add: z_thread_return_value_set_with_data_def arch_thread_return_value_set_def frame_simps)
  moreover have "t \<noteq> idle_thread k" "pended_on (threads k t) = Some w" using waitq_member [OF assms, of t w] Cons by auto
  moreover have "pended_on (threads ?k1 t) = pended_on (threads k t)"
    by (simp add: z_thread_return_value_set_with_data_def arch_thread_return_value_set_def frame_simps)
  ultimately show ?thesis using some [OF Cons _ refl] Cons by (simp add: z_sched_wake_def z_priq_dumb_best_def Let_def)
qed

lemma sched_wake_fields [frame_simps]:
  "in_isr (snd (z_sched_wake w v d k)) = in_isr k" "announce_remaining (snd (z_sched_wake w v d k)) = announce_remaining k"
  "curr_tick (snd (z_sched_wake w v d k)) = curr_tick k" "idle_thread (snd (z_sched_wake w v d k)) = idle_thread k"
  "irq_unlocked (snd (z_sched_wake w v d k)) = irq_unlocked k" "current (snd (z_sched_wake w v d k)) = current k"
  by (simp_all add: z_sched_wake_def Let_def z_thread_return_value_set_with_data_def arch_thread_return_value_set_def frame_simps split: option.split)

lemma sched_wake_inv:
  assumes "sched_inv {} k"
  shows "sched_inv {} (snd (z_sched_wake w v d k))" "later k (snd (z_sched_wake w v d k))"
proof -
  have "sched_inv {} (snd (z_sched_wake w v d k)) \<and> later k (snd (z_sched_wake w v d k))"
  using assms proof (cases rule: sched_wake_cases [of _ w v d])
    case none
    then show ?thesis using assms by simp
  next
    case (some t ts k1)
    let ?k2 = "z_abort_thread_timeout t (unpend_thread_no_timeout t k1)"
    have k2: "sched_inv {t} ?k2" "idle_thread ?k2 = idle_thread k"
      using unpend_abort_inv [OF some(4), of t] some(3)
      by (auto simp: frame_simps z_thread_return_value_set_with_data_def arch_thread_return_value_set_def)
    have q: "timeout_q_ok (unpend_thread_no_timeout t k1)" "rem_q k1 = rem_q k"
      using sched_invD(4) [OF some(4)] some(3)
      by (auto simp: timer_inv_def frame_simps z_thread_return_value_set_with_data_def arch_thread_return_value_set_def)
    have "later (unpend_thread_no_timeout t k1) ?k2" using abort_later [OF q(1)] by (simp add: z_abort_thread_timeout_def)
    moreover have "later ?k2 (ready_thread t ?k2)" using sched_invD(4) [OF k2(1)] by (auto simp: timer_inv_def intro: ready_thread_later)
    ultimately have "later (unpend_thread_no_timeout t k1) (ready_thread t ?k2)" by (rule later_trans)
    then have "later k (ready_thread t ?k2)" using q(2) by (simp add: later_def frame_simps)
    then show ?thesis using ready_thread_inv [OF k2(1), of t] k2(2) some(2,5) by simp
  qed
  then show "sched_inv {} (snd (z_sched_wake w v d k))" "later k (snd (z_sched_wake w v d k))" by simp_all
qed

lemma work_notify_inv:
  "sched_inv {} k \<Longrightarrow> sched_inv {} (work_notify q i k)" "sched_inv {} k \<Longrightarrow> later k (work_notify q i k)"
  "in_isr (work_notify q i k) = in_isr k" "announce_remaining (work_notify q i k) = announce_remaining k"
  "curr_tick (work_notify q i k) = curr_tick k"
  by (auto simp: work_notify_def sched_wake_inv frame_simps split: option.split)

interpretation wakeup_timer: timer_callbacks "\<lambda>i. k_wakeup (owner i)" "work_notify q" for owner q
  by unfold_locales (auto simp: frame_simps work_notify_inv intro: k_wakeup_inv(1) k_wakeup_later)

section \<open>Timer operations keep the invariant\<close>

lemma inv_q_ok: "sched_inv X k \<Longrightarrow> timeout_q_ok k" and inv_clock_ok: "sched_inv X k \<Longrightarrow> clock_ok k"
  by (simp_all add: sched_inv_def timer_inv_def)

lemma k_timer_start_inv:
  assumes "sched_inv X k" "ticks_ok duration"
  shows "sched_inv X (k_timer_start i duration per k)"
proof -
  let ?k1 = "snd (z_abort_timeout (TimerTimeout i) k)"
  have k1: "sched_inv X ?k1" "TimerTimeout i \<notin> set (timeout_list ?k1)"
    using sched_inv_abort_other [OF assms(1)] abort_timeout_set [OF inv_q_ok [OF assms(1)], of "TimerTimeout i"] by auto
  let ?k2 = "upd_timer i (\<lambda>tm. tm\<lparr>period := per, tm_status := 0\<rparr>) ?k1"
  have k2: "sched_inv X ?k2" "TimerTimeout i \<notin> set (timeout_list ?k2)" using k1 by (auto simp: frame_simps upd_timer_def)
  have "ticks_ok (if Z_TICK_ABS duration < 0 then max (duration - 1) 0 else duration)"
    using assms(2) by (auto simp: ticks_ok_def)
  with k2(1) have "valid_timeout ?k2 (if Z_TICK_ABS duration < 0 then max (duration - 1) 0 else duration)"
    by (intro valid_timeoutI inv_clock_ok)
  from sched_inv_add_other [OF k2 this] assms(1) show ?thesis by (simp add: k_timer_start_def Let_def)
qed

lemma k_timer_stop_inv:
  assumes "sched_inv {} k" and stop: "\<And>k. sched_inv {} k \<Longrightarrow> sched_inv {} (stop i k)"
  shows "sched_inv {} (k_timer_stop stop i k)"
proof -
  let ?k1 = "snd (z_abort_timeout (TimerTimeout i) k)"
  let ?k2 = "if has_stop_fn (timers ?k1 i) then stop i ?k1 else ?k1"
  have k1: "sched_inv {} ?k1" using assms(1) by (rule sched_inv_abort_other)
  then have k2: "sched_inv {} ?k2" using stop by simp
  have w: "sched_inv {} (z_reschedule (ready_thread t (unpend_thread_no_timeout t ?k2)))"
    if "wait_qs ?k2 (TimerQ i) = t # ts" for t ts
    using timer_wake_inv(2) [OF k2, of t i] that by (intro z_reschedule_inv) simp
  show ?thesis
  proof (cases "wait_qs ?k2 (TimerQ i)")
    case Nil
    then show ?thesis using k1 k2
      by (auto simp: k_timer_stop_def Let_def case_prod_unfold z_unpend1_no_timeout_def z_priq_dumb_best_def)
  next
    case (Cons t ts)
    then show ?thesis using k1 w [OF Cons]
      by (auto simp: k_timer_stop_def Let_def case_prod_unfold z_unpend1_no_timeout_def z_priq_dumb_best_def z_ready_thread_def)
  qed
qed

lemma k_timer_status_sync_inv:
  assumes "sched_inv {} k" "can_block k"
  shows "sched_inv {} (snd (k_timer_status_sync i k))"
  using z_pend_curr_inv [OF assms, of K_FOREVER "Some (TimerQ i)"] assms(1)
  by (auto simp: k_timer_status_sync_def Let_def frame_simps ticks_ok_def K_FOREVER_def)

end
