(* ===== verification/Waiting.thy ===== *)
theory Waiting
  imports Timer
begin

text \<open>
  How kernel objects use their wait queues: wake the first waiter with a result, wake all of them in a
  loop, or block the running thread. The kernel objects of the other theories (semaphores, mutexes,
  condition variables, message queues, stacks, memory slabs, events) rest on the lemmas of this theory.
\<close>

section \<open>Counters\<close>

lemma u32_inc:
  fixes x y :: u32
  assumes "x \<noteq> y" "x \<le> y"
  shows "x + 1 \<le> y" "unat (x + 1) = unat x + 1"
proof -
  have l: "unat x < unat y" using assms by (metis le_less_trans order_le_less word_less_nat_alt unat_mono)
  moreover have "unat y < 2 ^ 32" using unsigned_less [of y] by simp
  ultimately have "unat x + 1 < 2 ^ 32" by simp
  then show u: "unat (x + 1) = unat x + 1" by (simp add: unat_word_ariths)
  show "x + 1 \<le> y" using l u by (simp add: word_le_nat_alt)
qed

section \<open>Waking the first waiter\<close>

text \<open>\<open>arch_thread_return_value_set(thread, v); z_ready_thread(thread)\<close> after \<open>z_unpend_first_thread\<close>.\<close>

definition wake_with :: "int \<Rightarrow> tid \<Rightarrow> kernel \<Rightarrow> kernel" where
  "wake_with v t k = z_ready_thread t (arch_thread_return_value_set t v k)"

definition wake_data :: "int \<Rightarrow> nat \<Rightarrow> tid \<Rightarrow> kernel \<Rightarrow> kernel" where
  "wake_data v d t k = z_ready_thread t (z_thread_return_value_set_with_data t v d k)"

text \<open>The state after the first waiter \<open>t\<close> of \<open>w\<close> has been woken with result \<open>v\<close>.\<close>

definition woken :: "wqid \<Rightarrow> tid \<Rightarrow> int \<Rightarrow> kernel \<Rightarrow> kernel \<Rightarrow> bool" where
  "woken w t v k k' \<longleftrightarrow> wait_qs k = (wait_qs k')(w := t # wait_qs k' w) \<and> pended_on (threads k' t) = None \<and>
     swap_retval (threads k' t) = v \<and> ThreadTimeout t \<notin> set (timeout_list k') \<and>
     \<not> z_is_thread_pending (threads k' t) \<and> prio_of k' t = prio_of k t \<and> (\<forall>u. u \<noteq> t \<longrightarrow> threads k' u = threads k u) \<and>
     current k' = current k \<and> idle_thread k' = idle_thread k \<and> in_isr k' = in_isr k \<and> irq_unlocked k' = irq_unlocked k \<and>
     memory k' = memory k"

lemma woken_not_current:
  "woken w t v k k' \<Longrightarrow> sched_inv X k \<Longrightarrow> z_is_thread_ready (threads k (current k)) \<Longrightarrow> t \<noteq> current k"
  using ready_not_pended(5) [of X k "current k" w] by (auto simp: woken_def)

lemma unpend_first_facts:
  assumes "sched_inv X k" "z_unpend_first_thread w k = (Some t, k1)"
  shows "pended_on (threads k1 t) = None" "ThreadTimeout t \<notin> set (timeout_list k1)" "\<not> z_is_thread_pending (threads k1 t)"
    "\<And>u. u \<noteq> t \<Longrightarrow> threads k1 u = threads k u" "prio_of k1 t = prio_of k t" "wait_qs k = (wait_qs k1)(w := t # wait_qs k1 w)"
    "current k1 = current k" "idle_thread k1 = idle_thread k" "in_isr k1 = in_isr k" "irq_unlocked k1 = irq_unlocked k"
    "memory k1 = memory k" "swap_data (threads k1 u) = swap_data (threads k u)"
proof -
  note f = unpend_first_inv [OF assms]
  have p: "threads k1 = (threads k)(t := (clear_state THREAD_PENDING (threads k t))\<lparr>pended_on := None\<rparr>)"
    using unpend_thread_upd [OF f(3)] f(5) by (simp add: frame_simps)
  have "timeout_q_ok (unpend_thread_no_timeout t k)" using inv_q_ok [OF assms(1)] by (simp add: frame_simps)
  then show "ThreadTimeout t \<notin> set (timeout_list k1)" unfolding f(5) by (simp add: abort_thread_timeout_set)
  show "pended_on (threads k1 t) = None" "\<not> z_is_thread_pending (threads k1 t)" "\<And>u. u \<noteq> t \<Longrightarrow> threads k1 u = threads k u"
    "prio_of k1 t = prio_of k t" "swap_data (threads k1 u) = swap_data (threads k u)" by (simp_all add: p flag_ops)
  show "wait_qs k = (wait_qs k1)(w := t # wait_qs k1 w)" using f(2,6) by auto
qed (use unpend_first_inv(5) [OF assms] in \<open>simp_all add: frame_simps\<close>)

lemma wake_first:
  assumes "sched_inv {} k" "z_unpend_first_thread w k = (Some t, k1)"
  shows "sched_inv {} (wake_with v t k1)" "woken w t v k (wake_with v t k1)"
    "sched_inv {} (wake_data v d t k1)" "woken w t v k (wake_data v d t k1)" "swap_data (threads (wake_data v d t k1) t) = d"
proof -
  note f = unpend_first_inv [OF assms] and g = unpend_first_facts [OF assms]
  have q: "timeout_q_ok k1" "clock_ok k1" using sched_invD(4) [OF f(1)] by (simp_all add: timer_inv_def)
  have id: "t \<noteq> idle_thread k1" using f(4) g by simp
  show "sched_inv {} (wake_with v t k1)" "sched_inv {} (wake_data v d t k1)"
    using ready_thread_inv [of "{t}" _ t] f(1) id
    by (auto simp: wake_with_def wake_data_def z_ready_thread_def frame_simps arch_thread_return_value_set_def
        z_thread_return_value_set_with_data_def)
  have r: "ThreadTimeout t \<notin> set (timeout_list (ready_thread t (upd_thread t h k1)))" for h
  proof -
    have "timeout_q_ok (queue_thread t (upd_thread t h k1))" "clock_ok (queue_thread t (upd_thread t h k1))"
      using q by (simp_all add: frame_simps clock_ok_def)
    from update_cache_timeouts(2) [OF this] g(2) show ?thesis by (simp add: ready_thread_def frame_simps)
  qed
  have c: "upd_thread t h' (upd_thread t h k1) = upd_thread t (h' \<circ> h) k1" for h h' by (simp add: upd_thread_def)
  show "woken w t v k (wake_with v t k1)" "woken w t v k (wake_data v d t k1)" "swap_data (threads (wake_data v d t k1) t) = d"
    using g r unfolding woken_def wake_with_def wake_data_def z_ready_thread_def z_thread_return_value_set_with_data_def
      arch_thread_return_value_set_def c by (simp_all add: frame_simps flag_ops)
qed

text \<open>The waiters of a queue to which only \<open>pend\<close> adds are in priority order, so the first one has
  the highest priority and among its equals has waited longest.\<close>

lemma waitq_insert:
  assumes "sorted (map (prio_of k) (wait_qs k w))" "distinct (wait_qs k w)" "current k \<notin> set (wait_qs k w)"
  shows "sorted (map (prio_of k) (wait_qs (z_pend_curr (Some w) n k) w))"
    "filter (\<lambda>u. prio_of k u = prio_of k (current k)) (wait_qs (z_pend_curr (Some w) n k) w) =
       filter (\<lambda>u. prio_of k u = prio_of k (current k)) (wait_qs k w) @ [current k]"
proof -
  have ok: "distinct (wait_qs k w) \<and> sorted (map (prio_of k) (wait_qs k w))" using assms by simp
  show "sorted (map (prio_of k) (wait_qs (z_pend_curr (Some w) n k) w))"
    using conjunct2 [OF conjunct1 [OF dumb.add_law [OF ok TrueI assms(3)]]] by (simp add: frame_simps)
  show "filter (\<lambda>u. prio_of k u = prio_of k (current k)) (wait_qs (z_pend_curr (Some w) n k) w) =
       filter (\<lambda>u. prio_of k u = prio_of k (current k)) (wait_qs k w) @ [current k]"
    using dumb.add_keeps_equals [OF ok TrueI assms(3)] by (simp add: frame_simps)
qed

section \<open>Waking every waiter\<close>

text \<open>The loop \<open>while ((thread = z_unpend_first_thread(w)) != NULL) body(thread)\<close>.\<close>

partial_function (option) wake_loop :: "(tid \<Rightarrow> kernel \<Rightarrow> kernel) \<Rightarrow> wqid \<Rightarrow> kernel \<Rightarrow> kernel option" where
  "wake_loop body w k =
     (case z_unpend_first_thread w k of
        (None, k1) \<Rightarrow> Some k1
      | (Some t, k1) \<Rightarrow> wake_loop body w (body t k1))"

definition wake_next :: "int \<Rightarrow> wqid \<Rightarrow> tid \<Rightarrow> kernel \<Rightarrow> kernel" where
  "wake_next v w t k = wake_with v t (snd (z_unpend_first_thread w k))"

lemma wake_next_step:
  assumes "sched_inv {} k" "wait_qs k w = t # ts"
  shows "sched_inv {} (wake_next v w t k)" "woken w t v k (wake_next v w t k)" "wait_qs (wake_next v w t k) w = ts"
proof -
  obtain k1 where u: "z_unpend_first_thread w k = (Some t, k1)"
    using assms(2) by (simp add: z_unpend_first_thread_def z_priq_dumb_best_def)
  show "sched_inv {} (wake_next v w t k)" "woken w t v k (wake_next v w t k)"
    using wake_first(1,2) [OF assms(1) u] by (simp_all add: wake_next_def u)
  then show "wait_qs (wake_next v w t k) w = ts" using assms(2) by (auto simp: woken_def dest: fun_cong [of _ _ w])
qed

interpretation wake_all: drain_loop "wake_next v w" w "sched_inv {}" for v w
  by unfold_locales (auto simp: wake_next_step)

lemma wake_loop_drain:
  "sched_inv {} k \<Longrightarrow> wake_loop (wake_with v) w k = drain (wake_next v w) w k"
proof (induction "wait_qs k w" arbitrary: k)
  case Nil
  then show ?case
    by (subst wake_loop.simps, subst drain.simps) (simp add: z_unpend_first_thread_def z_waitq_head_def z_priq_dumb_best_def)
next
  case (Cons t ts)
  have w: "wait_qs k w = t # ts" using Cons.hyps(2) by simp
  have e: "wake_next v w t k = wake_with v t (z_abort_thread_timeout t (unpend_thread_no_timeout t k))"
    by (simp add: wake_next_def w z_unpend_first_thread_def z_priq_dumb_best_def)
  have "wake_loop (wake_with v) w (wake_next v w t k) = drain (wake_next v w) w (wake_next v w t k)"
    using Cons.hyps(1) [of "wake_next v w t k"] wake_next_step [OF Cons.prems w] by simp
  then show ?case unfolding e
    by (subst wake_loop.simps, subst drain.simps) (simp add: w z_unpend_first_thread_def z_waitq_head_def z_priq_dumb_best_def e)
qed

text \<open>The state after all waiters of \<open>w\<close> have been woken with result \<open>v\<close>.\<close>

definition all_woken :: "wqid \<Rightarrow> int \<Rightarrow> kernel \<Rightarrow> kernel \<Rightarrow> bool" where
  "all_woken w v k k' \<longleftrightarrow> wait_qs k' = (wait_qs k)(w := []) \<and>
     (\<forall>t \<in> set (wait_qs k w). pended_on (threads k' t) = None \<and> swap_retval (threads k' t) = v \<and>
        \<not> z_is_thread_pending (threads k' t)) \<and>
     (\<forall>u. u \<notin> set (wait_qs k w) \<longrightarrow> threads k' u = threads k u) \<and>
     current k' = current k \<and> idle_thread k' = idle_thread k \<and> in_isr k' = in_isr k \<and> irq_unlocked k' = irq_unlocked k \<and>
     memory k' = memory k"

lemma fold_wake_all:
  "sched_inv {} k \<Longrightarrow> all_woken w v k (fold (wake_next v w) (wait_qs k w) k)"
proof (induction "wait_qs k w" arbitrary: k)
  case Nil
  then have "wait_qs k w = []" by simp
  then have "wait_qs k = (wait_qs k)(w := [])" by auto
  with \<open>wait_qs k w = []\<close> show ?case by (simp add: all_woken_def)
next
  case (Cons t ts)
  have w: "wait_qs k w = t # ts" using Cons.hyps(2) by simp
  note st = wake_next_step [OF Cons.prems w, of v]
  have "t \<notin> set ts" using sched_invD(3) [OF Cons.prems] w by (metis distinct.simps(2) waitq_inv_def)
  moreover have "all_woken w v (wake_next v w t k) (fold (wake_next v w) ts (wake_next v w t k))"
    using Cons.hyps(1) [of "wake_next v w t k"] st by simp
  ultimately show ?case using st(2,3) w by (auto simp: all_woken_def woken_def fun_upd_idem)
qed

lemma wake_loop_returns:
  assumes "sched_inv {} k"
  shows "\<exists>k'. wake_loop (wake_with v) w k = Some k' \<and> sched_inv {} k' \<and> all_woken w v k k'"
  using wake_loop_drain [OF assms] wake_all.drain_returns [OF assms, where v = v and w = w] fold_wake_all [OF assms] by simp

end
