(* ===== verification/Boot.thy ===== *)
theory Boot
  imports Sched_Api
begin

text \<open>
  Concrete kernel states: the state after boot, in which only the idle thread exists, and a state with a
  running thread and two threads waiting on a kernel object. They satisfy the scheduler invariant.
\<close>

definition thread_with :: "int \<Rightarrow> u8 \<Rightarrow> wqid option \<Rightarrow> k_thread" where
  "thread_with p st w = \<lparr>prio = p, sched_locked = 0, thread_state = st, user_options = 0, pended_on = w, swap_retval = 0,
     swap_data = 0, events = 0, event_options = 0, no_wake_on_timeout = False\<rparr>"

text \<open>Thread 0 is the idle thread, thread 1 the dummy thread; the others have not been created.\<close>

definition boot_threads :: "tid \<Rightarrow> k_thread" where
  "boot_threads = (\<lambda>_. thread_with 0 THREAD_DEAD None)(0 := thread_with 15 0 None, 1 := thread_with 0 THREAD_DUMMY None)"

definition boot_kernel :: kernel where
  "boot_kernel = \<lparr>curr_tick = 0, timeout_list = [], dticks = (\<lambda>_. 0), to_fn = (\<lambda>_. Z_thread_timeout),
     announce_remaining = 0, hw_elapsed = 0, hw_timeout = 0, threads = boot_threads, runq = [], ready_cache = 0, current = 0,
     idle_thread = 0, dummy_thread = 1, wait_qs = (\<lambda>_. []), in_isr = False, irq_unlocked = True, slice_ticks = 0,
     slice_max_prio = 0, slice_expired = False,
     timers = (\<lambda>_. \<lparr>has_expiry_fn = False, has_stop_fn = False, period = 0, tm_status = 0\<rparr>),
     memory = (\<lambda>_. 0), panicked = False\<rparr>"

text \<open>Thread 2 runs; threads 3 and 4 wait on object queue 7 without a timeout.\<close>

definition waiting_kernel :: kernel where
  "waiting_kernel = boot_kernel\<lparr>threads := boot_threads(2 := thread_with 5 THREAD_QUEUED None,
     3 := thread_with 3 THREAD_PENDING (Some (ObjQ 7)), 4 := thread_with 4 THREAD_PENDING (Some (ObjQ 7))),
     runq := [2], ready_cache := 2, current := 2, wait_qs := (\<lambda>_. [])(ObjQ 7 := [3, 4])\<rparr>"

lemma thread_with_flags [simp]:
  "prio (thread_with p st w) = p" "pended_on (thread_with p st w) = w" "sched_locked (thread_with p st w) = 0"
  "z_is_thread_queued (thread_with p st w) = bit st 7" "z_is_thread_pending (thread_with p st w) = bit st 1"
  "z_is_thread_sleeping (thread_with p st w) = bit st 2" "is_thread_dummy (thread_with p st w) = bit st 0"
  "z_is_thread_ready (thread_with p st w) = (\<not> bit st 0 \<and> \<not> bit st 1 \<and> \<not> bit st 2 \<and> \<not> bit st 3 \<and> \<not> bit st 4)"
  "z_is_thread_dead (thread_with p st w) = bit st 3" "z_is_thread_suspended (thread_with p st w) = bit st 4"
  by (simp_all add: flag_simps) (simp_all add: thread_with_def)

lemma boot_kernel_inv: "sched_inv {} boot_kernel"
  by (auto simp: sched_inv_def runq_inv_def ready_inv_def waitq_inv_def timer_inv_def cache_inv_def clock_ok_def
      timeout_q_ok_def rem_q_def next_up_cases boot_kernel_def boot_threads_def state_bits)

lemma waiting_kernel_inv: "sched_inv {} waiting_kernel"
proof (rule sched_invI)
  show "runq_inv waiting_kernel" by (auto simp: runq_inv_def waiting_kernel_def boot_kernel_def boot_threads_def state_bits)
  show "ready_inv {} waiting_kernel" by (auto simp: ready_inv_def waiting_kernel_def boot_kernel_def boot_threads_def state_bits)
  show "waitq_inv waiting_kernel" by (auto simp: waitq_inv_def waiting_kernel_def boot_kernel_def boot_threads_def state_bits)
  show "timer_inv waiting_kernel"
    by (auto simp: timer_inv_def clock_ok_def timeout_q_ok_def rem_q_def waiting_kernel_def boot_kernel_def)
  show "cache_inv waiting_kernel" by (auto simp: cache_inv_def next_up_cases waiting_kernel_def)
qed

lemma waiting_kernel_fields [simp]:
  "current waiting_kernel = 2" "wait_qs waiting_kernel = (\<lambda>_. [])(ObjQ 7 := [3, 4])" "idle_thread waiting_kernel = 0"
  "in_isr waiting_kernel = False" "irq_unlocked waiting_kernel = True" "runq waiting_kernel = [2]" "dummy_thread waiting_kernel = 1"
  "timeout_list waiting_kernel = []" "prio_of waiting_kernel 2 = 5" "prio_of waiting_kernel 3 = 3" "prio_of waiting_kernel 4 = 4"
  by (simp_all add: waiting_kernel_def boot_kernel_def)

lemma waiting_kernel_can_block: "can_block waiting_kernel" "runs_best waiting_kernel" "resched waiting_kernel"
  by (simp_all add: can_block_def runs_best_def resched_def next_up_cases) (simp_all add: waiting_kernel_def state_bits)

text \<open>Thread 2 runs at an inherited priority, with thread 3 ready at the same one.\<close>

definition boosted_kernel :: kernel where
  "boosted_kernel = boot_kernel\<lparr>threads := boot_threads(2 := thread_with 3 THREAD_QUEUED None, 3 := thread_with 3 THREAD_QUEUED None),
     runq := [2, 3], ready_cache := 2, current := 2\<rparr>"

lemma boosted_kernel_inv: "sched_inv {} boosted_kernel"
proof (rule sched_invI)
  show "runq_inv boosted_kernel" by (auto simp: runq_inv_def boosted_kernel_def boot_kernel_def boot_threads_def state_bits)
  show "ready_inv {} boosted_kernel" by (auto simp: ready_inv_def boosted_kernel_def boot_kernel_def boot_threads_def state_bits)
  show "waitq_inv boosted_kernel" by (auto simp: waitq_inv_def boosted_kernel_def boot_kernel_def boot_threads_def state_bits)
  show "timer_inv boosted_kernel"
    by (auto simp: timer_inv_def clock_ok_def timeout_q_ok_def rem_q_def boosted_kernel_def boot_kernel_def)
  show "cache_inv boosted_kernel" by (auto simp: cache_inv_def next_up_cases boosted_kernel_def)
qed

end
