(* ===== verification/Sem.thy ===== *)
theory Sem
  imports Waiting Boot
begin

text \<open>
  Counting semaphores (\<open>kernel/sem.c\<close>, polling disabled). A call that blocks returns \<open>Blocked\<close>; the
  woken thread's result is the value left in its \<open>swap_retval\<close>.
\<close>

section \<open>Operations\<close>

record k_sem =
  sem_q :: nat
  count :: u32
  limit :: u32

abbreviation sem_wq :: "k_sem \<Rightarrow> wqid" where
  "sem_wq s \<equiv> ObjQ (sem_q s)"

definition k_sem_init :: "u32 \<Rightarrow> u32 \<Rightarrow> k_sem \<Rightarrow> kernel \<Rightarrow> int \<times> k_sem \<times> kernel" where
  "k_sem_init initial_count lim s k =
     (if lim = 0 \<or> initial_count > lim then (- EINVAL, s, k)
      else (0, s\<lparr>count := initial_count, limit := lim\<rparr>, k\<lparr>wait_qs := (wait_qs k)(sem_wq s := [])\<rparr>))"

definition k_sem_give :: "k_sem \<Rightarrow> kernel \<Rightarrow> k_sem \<times> kernel" where
  "k_sem_give s k =
     (case z_unpend_first_thread (sem_wq s) k of
        (Some t, k1) \<Rightarrow> (s, z_reschedule (wake_with 0 t k1))
      | (None, k1) \<Rightarrow> (s\<lparr>count := count s + (if count s \<noteq> limit s then 1 else 0)\<rparr>, k1))"

definition k_sem_take :: "k_timeout \<Rightarrow> k_sem \<Rightarrow> kernel \<Rightarrow> int outcome \<times> k_sem \<times> kernel" where
  "k_sem_take timeout s k =
     (if count s > 0 then (Done 0, s\<lparr>count := count s - 1\<rparr>, k)
      else if timeout = K_NO_WAIT then (Done (- EBUSY), s, k)
      else (Blocked, s, z_pend_curr (Some (sem_wq s)) timeout k))"

definition k_sem_reset :: "k_sem \<Rightarrow> kernel \<Rightarrow> (k_sem \<times> kernel) option" where
  "k_sem_reset s k =
     map_option (\<lambda>k1. (s\<lparr>count := 0\<rparr>, if wait_qs k (sem_wq s) \<noteq> [] then z_reschedule k1 else k1))
       (wake_loop (wake_with (- EAGAIN)) (sem_wq s) k)"

definition k_sem_count_get :: "k_sem \<Rightarrow> u32" where
  "k_sem_count_get s = count s"

section \<open>Invariant\<close>

text \<open>The count stays within the limit, and threads wait only while it is zero.\<close>

definition sem_ok :: "k_sem \<Rightarrow> kernel \<Rightarrow> bool" where
  "sem_ok s k \<longleftrightarrow> 0 < limit s \<and> count s \<le> limit s \<and> (wait_qs k (sem_wq s) \<noteq> [] \<longrightarrow> count s = 0)"

lemma sem_give_waiter:
  assumes "sched_inv {} k" "wait_qs k (sem_wq s) = t # ts"
  obtains k1 where "k_sem_give s k = (s, z_reschedule k1)" "sched_inv {} k1" "woken (sem_wq s) t 0 k k1"
proof -
  obtain k1 where u: "z_unpend_first_thread (sem_wq s) k = (Some t, k1)"
    using assms(2) by (simp add: z_unpend_first_thread_def z_priq_dumb_best_def)
  show thesis using that [of "wake_with 0 t k1"] wake_first(1,2) [OF assms(1) u] by (simp add: k_sem_give_def u)
qed

lemma sem_give_free:
  "wait_qs k (sem_wq s) = [] \<Longrightarrow> k_sem_give s k = (s\<lparr>count := count s + (if count s \<noteq> limit s then 1 else 0)\<rparr>, k)"
  by (simp add: k_sem_give_def z_unpend_first_thread_def z_priq_dumb_best_def)

lemma sem_give_ok:
  assumes "sched_inv {} k" "sem_ok s k" "k_sem_give s k = (s', k')"
  shows "sched_inv {} k'" "sem_ok s' k'" "limit s' = limit s" "sem_q s' = sem_q s"
proof -
  have "sched_inv {} k' \<and> sem_ok s' k' \<and> limit s' = limit s \<and> sem_q s' = sem_q s"
  proof (cases "wait_qs k (sem_wq s)")
    case Nil
    then show ?thesis using assms sem_give_free [OF Nil] u32_inc [of "count s" "limit s"] by (auto simp: sem_ok_def)
  next
    case (Cons t ts)
    with assms(1) obtain k1 where k1: "k_sem_give s k = (s, z_reschedule k1)" "sched_inv {} k1" "woken (sem_wq s) t 0 k k1"
      by (rule sem_give_waiter)
    have "count s = 0" using assms(2) Cons by (simp add: sem_ok_def)
    with k1 assms(2,3) show ?thesis by (auto simp: sem_ok_def frame_simps intro: z_reschedule_inv)
  qed
  then show "sched_inv {} k'" "sem_ok s' k'" "limit s' = limit s" "sem_q s' = sem_q s" by auto
qed

lemma sem_take_ok:
  assumes "sched_inv {} k" "sem_ok s k" "ticks_ok n" "n \<noteq> K_NO_WAIT \<Longrightarrow> can_block k" "k_sem_take n s k = (r, s', k')"
  shows "sched_inv {} k'" "sem_ok s' k'" "limit s' = limit s" "sem_q s' = sem_q s"
    "unat (count s) = unat (count s') + (if r = Done 0 then 1 else 0)"
proof -
  have "sched_inv {} (z_pend_curr (Some (sem_wq s)) n k)" if "n \<noteq> K_NO_WAIT"
    using z_pend_curr_inv [OF assms(1) assms(4) [OF that] assms(3), of "Some (sem_wq s)"] by simp
  moreover have "unat (count s) = Suc (unat (count s - 1))" "count s - 1 \<le> limit s" if "0 < count s"
  proof -
    have "1 \<le> unat (count s)" using that by (simp add: word_less_nat_alt)
    then have u: "unat (count s - 1) = unat (count s) - 1" by (simp add: unat_sub word_le_nat_alt)
    then show "unat (count s) = Suc (unat (count s - 1))" using \<open>1 \<le> unat (count s)\<close> by simp
    show "count s - 1 \<le> limit s" using u assms(2) by (auto simp: sem_ok_def word_le_nat_alt)
  qed
  ultimately show "sched_inv {} k'" "sem_ok s' k'" "limit s' = limit s" "sem_q s' = sem_q s"
    "unat (count s) = unat (count s') + (if r = Done 0 then 1 else 0)"
    using assms by (auto simp: k_sem_take_def sem_ok_def EBUSY_def word_gt_0 split: if_splits)
qed

lemma sem_reset_ok:
  assumes "sched_inv {} k" "sem_ok s k"
  shows "\<exists>k1. k_sem_reset s k = Some (s\<lparr>count := 0\<rparr>, if wait_qs k (sem_wq s) \<noteq> [] then z_reschedule k1 else k1) \<and>
     sched_inv {} k1 \<and> all_woken (sem_wq s) (- EAGAIN) k k1 \<and> sem_ok (s\<lparr>count := 0\<rparr>) k1"
proof -
  from wake_loop_returns [OF assms(1)] obtain k1 where
    "wake_loop (wake_with (- EAGAIN)) (sem_wq s) k = Some k1" "sched_inv {} k1" "all_woken (sem_wq s) (- EAGAIN) k k1" by blast
  then show ?thesis using assms(2) by (auto simp: k_sem_reset_def sem_ok_def)
qed

section \<open>Histories\<close>

text \<open>A run of the semaphore: \<open>given\<close> counts the gives that were not lost at the limit, \<open>taken\<close> the
  takes that succeeded at once and the waiters that were woken with result 0. Between two calls the
  rest of the system may change the kernel, but only take waiters off the queue (a timeout, an abort).\<close>

inductive sem_run :: "k_sem \<Rightarrow> kernel \<Rightarrow> nat \<Rightarrow> nat \<Rightarrow> k_sem \<Rightarrow> kernel \<Rightarrow> bool" for s0 k0 where
  start: "sem_run s0 k0 0 0 s0 k0"
| give: "sem_run s0 k0 given taken s k \<Longrightarrow> k_sem_give s k = (s', k') \<Longrightarrow>
    sem_run s0 k0 (given + (if wait_qs k (sem_wq s) = [] \<and> count s = limit s then 0 else 1))
      (taken + (if wait_qs k (sem_wq s) = [] then 0 else 1)) s' k'"
| take: "sem_run s0 k0 given taken s k \<Longrightarrow> ticks_ok n \<Longrightarrow> n = K_NO_WAIT \<or> can_block k \<Longrightarrow> k_sem_take n s k = (r, s', k') \<Longrightarrow>
    sem_run s0 k0 given (taken + (if r = Done 0 then 1 else 0)) s' k'"
| env: "sem_run s0 k0 given taken s k \<Longrightarrow> sched_inv {} k' \<Longrightarrow> set (wait_qs k' (sem_wq s)) \<subseteq> set (wait_qs k (sem_wq s)) \<Longrightarrow>
    sem_run s0 k0 given taken s k'"

lemma sem_run_balance:
  assumes "sem_run s0 k0 given taken s k" "sched_inv {} k0" "sem_ok s0 k0"
  shows "sched_inv {} k \<and> sem_ok s k \<and> limit s = limit s0 \<and> sem_q s = sem_q s0 \<and> unat (count s0) + given = unat (count s) + taken"
  using assms
proof (induction rule: sem_run.induct)
  case (give given taken s k s' k')
  then have i: "sched_inv {} k" "sem_ok s k" by auto
  note g = sem_give_ok [OF i give.hyps(2)]
  show ?case
  proof (cases "wait_qs k (sem_wq s)")
    case Nil
    then have "s' = s\<lparr>count := count s + (if count s \<noteq> limit s then 1 else 0)\<rparr>" using give.hyps(2) sem_give_free by auto
    moreover have "unat (count s + 1) = unat (count s) + 1" if "count s \<noteq> limit s"
      using u32_inc [OF that] i(2) by (simp add: sem_ok_def)
    ultimately show ?thesis using give g Nil by auto
  next
    case (Cons t ts)
    with i(1) obtain k1 where "k_sem_give s k = (s, z_reschedule k1)" by (rule sem_give_waiter)
    then show ?thesis using give g Cons by auto
  qed
next
  case (take given taken s k n r s' k')
  then have i: "sched_inv {} k" "sem_ok s k" by auto
  have "n \<noteq> K_NO_WAIT \<Longrightarrow> can_block k" using take.hyps(3) by auto
  from sem_take_ok [OF i take.hyps(2) this take.hyps(4)] take show ?case by auto
next
  case (env given taken s k k')
  then show ?case by (auto simp: sem_ok_def)
qed simp

section \<open>Properties\<close>



text \<open>\<open>k_sem_give\<close> with waiters hands the unit to the first one: it is woken with result 0, its timeout is
  cancelled, the other waiters and the count stay as they are, and the best ready thread runs.\<close>

theorem k_sem_give_wakes_first:
  assumes "sched_inv {} k" "z_is_thread_ready (threads k (current k))" "wait_qs k (ObjQ (sem_q s)) = t # ts"
  shows "fst (k_sem_give s k) = s \<and> wait_qs (snd (k_sem_give s k)) = (wait_qs k)(ObjQ (sem_q s) := ts) \<and>
     swap_retval (threads (snd (k_sem_give s k)) t) = 0 \<and> pended_on (threads (snd (k_sem_give s k)) t) = None \<and>
     sched_inv {} (snd (k_sem_give s k)) \<and> runs_best (snd (k_sem_give s k))"
proof -
  from assms(1,3) obtain k1 where k1: "k_sem_give s k = (s, z_reschedule k1)" "sched_inv {} k1" "woken (sem_wq s) t 0 k k1"
    by (rule sem_give_waiter)
  have "t \<noteq> current k1" using woken_not_current [OF k1(3) assms(1,2)] k1(3) by (simp add: woken_def)
  then have th: "threads (z_reschedule k1) t = threads k1 t" by (simp add: frame_simps)
  have "wait_qs k1 = (wait_qs k)(sem_wq s := ts)" using k1(3) assms(3) by (auto simp: woken_def)
  with k1 th show ?thesis by (simp add: frame_simps z_reschedule_inv z_reschedule_runs_best) (simp add: woken_def)
qed

theorem k_sem_give_wakes_first_witness:
  "swap_retval (threads (snd (k_sem_give \<lparr>sem_q = 7, count = 0, limit = 3\<rparr> waiting_kernel)) 3) = 0 \<and>
   wait_qs (snd (k_sem_give \<lparr>sem_q = 7, count = 0, limit = 3\<rparr> waiting_kernel)) (ObjQ 7) = [4]"
  using k_sem_give_wakes_first [OF waiting_kernel_inv, of "\<lparr>sem_q = 7, count = 0, limit = 3\<rparr>" 3 "[4]"] waiting_kernel_can_block(1)
  by (simp add: can_block_def)

text \<open>\<open>k_sem_reset\<close> ends: it sets the count to 0 and wakes every waiter with \<open>-EAGAIN\<close>.\<close>

theorem k_sem_reset_releases_all:
  assumes "sched_inv {} k" "sem_ok s k"
  shows "\<exists>k1. k_sem_reset s k = Some (s\<lparr>count := 0\<rparr>, if wait_qs k (ObjQ (sem_q s)) \<noteq> [] then z_reschedule k1 else k1) \<and>
     sched_inv {} k1 \<and> wait_qs k1 = (wait_qs k)(ObjQ (sem_q s) := []) \<and>
     (\<forall>t \<in> set (wait_qs k (ObjQ (sem_q s))). swap_retval (threads k1 t) = - EAGAIN \<and> pended_on (threads k1 t) = None)"
  using sem_reset_ok [OF assms] by (auto simp: all_woken_def)

theorem k_sem_reset_releases_all_witness:
  "\<exists>k1. k_sem_reset \<lparr>sem_q = 7, count = 0, limit = 3\<rparr> waiting_kernel = Some (\<lparr>sem_q = 7, count = 0, limit = 3\<rparr>, z_reschedule k1) \<and>
     swap_retval (threads k1 4) = - EAGAIN"
  using k_sem_reset_releases_all [OF waiting_kernel_inv, of "\<lparr>sem_q = 7, count = 0, limit = 3\<rparr>"] by (auto simp: sem_ok_def)

end
