(* ===== verification/Mutex.thy ===== *)
theory Mutex
  imports Waiting Boot
begin

text \<open>
  Mutexes with priority inheritance (\<open>kernel/mutex.c\<close>) and condition variables (\<open>kernel/condvar.c\<close>).
  A thread that blocks in \<open>k_mutex_lock\<close> continues with \<open>k_mutex_lock_resume\<close> when it runs again.
\<close>

section \<open>Operations\<close>

record k_mutex =
  mutex_q :: nat
  owner :: "tid option"
  lock_count :: u32
  owner_orig_prio :: int

abbreviation mutex_wq :: "k_mutex \<Rightarrow> wqid" where
  "mutex_wq m \<equiv> ObjQ (mutex_q m)"

text \<open>\<open>CONFIG_PRIORITY_CEILING\<close> has its default value.\<close>

definition PRIORITY_CEILING :: int where "PRIORITY_CEILING = - 127"

definition z_is_under_prio_ceiling :: "int \<Rightarrow> bool" where
  "z_is_under_prio_ceiling p \<longleftrightarrow> p \<ge> PRIORITY_CEILING"

definition z_get_new_prio_with_ceiling :: "int \<Rightarrow> int" where
  "z_get_new_prio_with_ceiling p = (if z_is_under_prio_ceiling p then p else PRIORITY_CEILING)"

definition k_mutex_init :: "k_mutex \<Rightarrow> kernel \<Rightarrow> int \<times> k_mutex \<times> kernel" where
  "k_mutex_init m k = (0, m\<lparr>owner := None, lock_count := 0\<rparr>, k\<lparr>wait_qs := (wait_qs k)(mutex_wq m := [])\<rparr>)"

definition new_prio_for_inheritance :: "int \<Rightarrow> int \<Rightarrow> int" where
  "new_prio_for_inheritance target lim =
     (let new_prio = (if z_is_prio_higher target lim then target else lim) in z_get_new_prio_with_ceiling new_prio)"

definition adjust_owner_prio :: "k_mutex \<Rightarrow> int \<Rightarrow> kernel \<Rightarrow> bool \<times> kernel" where
  "adjust_owner_prio m new_prio k =
     (case owner m of
        Some own \<Rightarrow> if prio_of k own \<noteq> new_prio then z_thread_prio_set own new_prio k else (False, k)
      | None \<Rightarrow> (False, k))"

text \<open>The local variable \<open>resched\<close> of a call that blocks is part of the result, for the continuation.\<close>

definition k_mutex_lock :: "k_timeout \<Rightarrow> k_mutex \<Rightarrow> kernel \<Rightarrow> int outcome \<times> bool \<times> k_mutex \<times> kernel" where
  "k_mutex_lock timeout m k =
     (if lock_count m = 0 \<or> owner m = Some (current k)
      then (Done 0, False,
            m\<lparr>owner_orig_prio := (if lock_count m = 0 then prio_of k (current k) else owner_orig_prio m),
              lock_count := lock_count m + 1, owner := Some (current k)\<rparr>, k)
      else if timeout = K_NO_WAIT then (Done (- EBUSY), False, m, k)
      else let own = the (owner m);
               new_prio = new_prio_for_inheritance (prio_of k (current k)) (prio_of k own);
               (resch, k1) = (if z_is_prio_higher new_prio (prio_of k own) then adjust_owner_prio m new_prio k else (False, k))
           in (Blocked, resch, m, z_pend_curr (Some (mutex_wq m)) timeout k1))"

definition k_mutex_lock_resume :: "bool \<Rightarrow> k_mutex \<Rightarrow> kernel \<Rightarrow> int \<times> k_mutex \<times> kernel" where
  "k_mutex_lock_resume resch m k =
     (if swap_result k = 0 then (0, m, k)
      else let (r, k1) =
                 (if owner m \<noteq> None
                  then let new_prio = (case z_waitq_head (mutex_wq m) k of
                                         Some waiter \<Rightarrow> new_prio_for_inheritance (prio_of k waiter) (owner_orig_prio m)
                                       | None \<Rightarrow> owner_orig_prio m)
                       in adjust_owner_prio m new_prio k
                  else (False, k))
           in (- EAGAIN, m, if r \<or> resch then z_reschedule k1 else k1))"

definition k_mutex_unlock :: "k_mutex \<Rightarrow> kernel \<Rightarrow> int \<times> k_mutex \<times> kernel" where
  "k_mutex_unlock m k =
     (if owner m = None then (- EINVAL, m, k)
      else if owner m \<noteq> Some (current k) then (- EPERM, m, k)
      else if lock_count m > 1 then (0, m\<lparr>lock_count := lock_count m - 1\<rparr>, k)
      else let k1 = snd (adjust_owner_prio m (owner_orig_prio m) k)
           in case z_unpend_first_thread (mutex_wq m) k1 of
                (Some t, k2) \<Rightarrow> (0, m\<lparr>owner := Some t, owner_orig_prio := prio_of k2 t\<rparr>, z_reschedule (wake_with 0 t k2))
              | (None, k2) \<Rightarrow> (0, m\<lparr>owner := None, lock_count := 0\<rparr>, k2))"

section \<open>Condition variables\<close>

definition k_condvar_init :: "nat \<Rightarrow> kernel \<Rightarrow> int \<times> kernel" where
  "k_condvar_init c k = (0, k\<lparr>wait_qs := (wait_qs k)(ObjQ c := [])\<rparr>)"

definition k_condvar_signal :: "nat \<Rightarrow> kernel \<Rightarrow> int \<times> kernel" where
  "k_condvar_signal c k =
     (case z_unpend_first_thread (ObjQ c) k of
        (Some t, k1) \<Rightarrow> (0, z_reschedule (wake_with 0 t k1))
      | (None, k1) \<Rightarrow> (0, k1))"

definition k_condvar_broadcast :: "nat \<Rightarrow> kernel \<Rightarrow> (int \<times> kernel) option" where
  "k_condvar_broadcast c k =
     map_option (\<lambda>k1. let woken = int (length (wait_qs k (ObjQ c)))
                      in (woken, if woken = 0 then k1 else z_reschedule k1))
       (wake_loop (wake_with 0) (ObjQ c) k)"

text \<open>\<open>k_mutex_unlock\<close> is called with the interrupts already locked by \<open>k_spin_lock\<close>, so it does not
  switch; the key of that lock is given back by \<open>z_pend_curr\<close>.\<close>

definition k_condvar_wait :: "nat \<Rightarrow> k_timeout \<Rightarrow> k_mutex \<Rightarrow> kernel \<Rightarrow> k_mutex \<times> kernel" where
  "k_condvar_wait c timeout m k =
     (let unlocked = irq_unlocked k;
          (_, m1, k1) = k_mutex_unlock m (k\<lparr>irq_unlocked := False\<rparr>)
      in (m1, z_pend_curr (Some (ObjQ c)) timeout (k1\<lparr>irq_unlocked := unlocked\<rparr>)))"

definition k_condvar_wait_resume :: "k_mutex \<Rightarrow> kernel \<Rightarrow> int \<times> int outcome \<times> bool \<times> k_mutex \<times> kernel" where
  "k_condvar_wait_resume m k = (swap_result k, k_mutex_lock K_FOREVER m k)"

section \<open>Invariant\<close>

text \<open>The lock count is zero exactly when there is no owner; threads wait only for an owned mutex, and the
  owner is not one of them.\<close>

definition mutex_ok :: "k_mutex \<Rightarrow> kernel \<Rightarrow> bool" where
  "mutex_ok m k \<longleftrightarrow> (lock_count m = 0 \<longleftrightarrow> owner m = None) \<and> (owner m = None \<longrightarrow> wait_qs k (mutex_wq m) = []) \<and>
     (\<forall>t. owner m = Some t \<longrightarrow> t \<notin> set (wait_qs k (mutex_wq m)) \<and> t \<noteq> idle_thread k)"

lemma adjust_prio_inv:
  assumes "sched_inv {} k" "\<forall>t. owner m = Some t \<longrightarrow> t \<noteq> idle_thread k"
  shows "sched_inv {} (snd (adjust_owner_prio m p k))"
  using assms z_thread_prio_set_inv [OF assms(1)] by (auto simp: adjust_owner_prio_def split: option.split)

lemma adjust_prio_fields [frame_simps]:
  "current (snd (adjust_owner_prio m p k)) = current k" "wait_qs (snd (adjust_owner_prio m p k)) = wait_qs k"
  "idle_thread (snd (adjust_owner_prio m p k)) = idle_thread k" "in_isr (snd (adjust_owner_prio m p k)) = in_isr k"
  "irq_unlocked (snd (adjust_owner_prio m p k)) = irq_unlocked k" "memory (snd (adjust_owner_prio m p k)) = memory k"
  "z_is_thread_ready (threads (snd (adjust_owner_prio m p k)) u) = z_is_thread_ready (threads k u)"
  "swap_retval (threads (snd (adjust_owner_prio m p k)) u) = swap_retval (threads k u)"
  by (auto simp: adjust_owner_prio_def frame_simps split: option.split)

lemma adjust_prio_prio:
  "i8 p = p \<Longrightarrow> prio_of (snd (adjust_owner_prio m p k)) u = (if owner m = Some u then p else prio_of k u)"
  by (auto simp: adjust_owner_prio_def frame_simps split: option.split)

lemma lock_blocked:
  assumes "\<not> (lock_count m = 0 \<or> owner m = Some (current k))" "timeout \<noteq> K_NO_WAIT" "owner m = Some own"
    and np: "np = new_prio_for_inheritance (prio_of k (current k)) (prio_of k own)"
    and k1: "k1 = (if z_is_prio_higher np (prio_of k own) then snd (adjust_owner_prio m np k) else k)"
  shows "\<exists>r. k_mutex_lock timeout m k = (Blocked, r, m, z_pend_curr (Some (mutex_wq m)) timeout k1)"
  using assms(1-3) unfolding k_mutex_lock_def Let_def k1 np by (auto split: prod.split)

lemma mutex_lock_ok:
  assumes "sched_inv {} k" "mutex_ok m k" "can_block k" "ticks_ok n" "lock_count m \<noteq> - 1"
    "k_mutex_lock n m k = (r, b, m', k')"
  shows "sched_inv {} k'" "mutex_ok m' k'" "mutex_q m' = mutex_q m"
    "r = Done 0 \<Longrightarrow> owner m' = Some (current k) \<and> (owner m = Some (current k) \<or> lock_count m = 0) \<and> lock_count m' = lock_count m + 1"
    "r \<noteq> Done 0 \<Longrightarrow> m' = m"
proof -
  have nz: "lock_count m + 1 \<noteq> 0" using assms(5) by (metis add.commute add_eq_0_iff)
  have "sched_inv {} k' \<and> mutex_ok m' k' \<and> mutex_q m' = mutex_q m \<and> (r = Done 0 \<longrightarrow> owner m' = Some (current k) \<and>
      (owner m = Some (current k) \<or> lock_count m = 0) \<and> lock_count m' = lock_count m + 1) \<and> (r \<noteq> Done 0 \<longrightarrow> m' = m)"
  proof (cases "lock_count m = 0 \<or> owner m = Some (current k)")
    case True
    with assms nz can_block_facts [OF assms(1,3)] show ?thesis
      by (auto simp: k_mutex_lock_def mutex_ok_def)
  next
    case False
    note fr = this
    then obtain own where o: "owner m = Some own" "own \<noteq> current k" using assms(2) by (auto simp: mutex_ok_def)
    show ?thesis
    proof (cases "n = K_NO_WAIT")
      case True
      with fr assms show ?thesis by (auto simp: k_mutex_lock_def EBUSY_def)
    next
      case False
      define np where "np = new_prio_for_inheritance (prio_of k (current k)) (prio_of k own)"
      define k1 where "k1 = (if z_is_prio_higher np (prio_of k own) then snd (adjust_owner_prio m np k) else k)"
      from lock_blocked [OF fr False o(1) np_def k1_def] assms(6) have e: "r = Blocked" "m' = m"
        "k' = z_pend_curr (Some (mutex_wq m)) n k1" by auto
      have k1: "sched_inv {} k1" "can_block k1" "wait_qs k1 = wait_qs k" "current k1 = current k" "idle_thread k1 = idle_thread k"
        using assms(1,2,3) adjust_prio_inv [of k m np] by (auto simp: k1_def frame_simps mutex_ok_def can_block_def)
      have "sched_inv {} k'" using z_pend_curr_inv [OF k1(1,2) assms(4), of "Some (mutex_wq m)"] by (simp add: e)
      then show ?thesis using assms(2) k1(3-5) o e by (auto simp: mutex_ok_def frame_simps z_priq_dumb_add_def)
    qed
  qed
  then show "sched_inv {} k'" "mutex_ok m' k'" "mutex_q m' = mutex_q m"
    "r = Done 0 \<Longrightarrow> owner m' = Some (current k) \<and> (owner m = Some (current k) \<or> lock_count m = 0) \<and> lock_count m' = lock_count m + 1"
    "r \<noteq> Done 0 \<Longrightarrow> m' = m" by auto
qed

text \<open>Unlocking: the errors, the nested case, and the two ways the last unlock ends.\<close>

lemma mutex_unlock_cases:
  assumes "sched_inv {} k" "mutex_ok m k" "k_mutex_unlock m k = (r, m', k')"
  obtains (err) "owner m \<noteq> Some (current k)" "r = (if owner m = None then - EINVAL else - EPERM)" "m' = m" "k' = k"
  | (nested) "owner m = Some (current k)" "lock_count m > 1" "r = 0" "m' = m\<lparr>lock_count := lock_count m - 1\<rparr>" "k' = k"
  | (free) "owner m = Some (current k)" "lock_count m = 1" "wait_qs k (mutex_wq m) = []" "r = 0"
      "m' = m\<lparr>owner := None, lock_count := 0\<rparr>" "k' = snd (adjust_owner_prio m (owner_orig_prio m) k)" "sched_inv {} k'"
  | (pass) t ts k3 where "owner m = Some (current k)" "lock_count m = 1" "wait_qs k (mutex_wq m) = t # ts" "r = 0"
      "m' = m\<lparr>owner := Some t, owner_orig_prio := prio_of k' t\<rparr>" "k' = z_reschedule k3" "sched_inv {} k3"
      "woken (mutex_wq m) t 0 (snd (adjust_owner_prio m (owner_orig_prio m) k)) k3" "t \<noteq> current k"
proof (cases "owner m = Some (current k)")
  case False
  then show thesis using err assms(3) by (cases "owner m") (auto simp: k_mutex_unlock_def)
next
  case True
  show thesis
  proof (cases "lock_count m > 1")
    case c: True
    then show thesis using nested assms(3) True by (auto simp: k_mutex_unlock_def)
  next
    case False
    have "lock_count m \<noteq> 0" using True assms(2) by (auto simp: mutex_ok_def)
    then have c: "lock_count m = 1" using False by (auto simp: word_less_nat_alt word_unat_eq_iff)
    let ?k1 = "snd (adjust_owner_prio m (owner_orig_prio m) k)"
    have k1: "sched_inv {} ?k1" using assms(1,2) by (auto simp: mutex_ok_def intro: adjust_prio_inv)
    show thesis
    proof (cases "wait_qs k (mutex_wq m)")
      case Nil
      then have "z_unpend_first_thread (mutex_wq m) ?k1 = (None, ?k1)" by (simp add: unpend_first_none frame_simps)
      then show thesis using free assms(3) True c Nil k1 by (auto simp: k_mutex_unlock_def Let_def)
    next
      case (Cons t ts)
      then have "wait_qs ?k1 (mutex_wq m) = t # ts" by (simp add: frame_simps)
      then obtain k2 where k2: "z_unpend_first_thread (mutex_wq m) ?k1 = (Some t, k2)"
        by (simp add: z_unpend_first_thread_def z_priq_dumb_best_def)
      note w = wake_first(1,2) [OF k1 k2, of 0]
      have t: "t \<noteq> current k" using assms(2) True Cons by (auto simp: mutex_ok_def)
      have "prio_of (z_reschedule (wake_with 0 t k2)) t = prio_of k2 t"
        using t w(2) by (simp add: frame_simps woken_def wake_with_def z_ready_thread_def arch_thread_return_value_set_def)
      moreover have "r = 0" "m' = m\<lparr>owner := Some t, owner_orig_prio := prio_of k2 t\<rparr>" "k' = z_reschedule (wake_with 0 t k2)"
        using assms(3) True c k2 by (auto simp: k_mutex_unlock_def Let_def)
      ultimately show thesis using pass [OF True c Cons, of "wake_with 0 t k2"] w t by simp
    qed
  qed
qed

section \<open>Histories\<close>

text \<open>A run of a mutex. \<open>held t\<close> counts the locks thread \<open>t\<close> obtained (a lock that returned 0, or being woken
  with result 0) minus its successful unlocks. Between two calls the rest of the system may change the
  kernel, but only take waiters off the mutex's queue.\<close>

definition after_unlock :: "k_mutex \<Rightarrow> kernel \<Rightarrow> (tid \<Rightarrow> nat) \<Rightarrow> tid \<Rightarrow> nat" where
  "after_unlock m k held =
     (let h = held(current k := held (current k) - 1)
      in if lock_count m > 1 then h
         else case wait_qs k (mutex_wq m) of [] \<Rightarrow> h | t # _ \<Rightarrow> h(t := h t + 1))"

inductive mutex_run :: "k_mutex \<Rightarrow> kernel \<Rightarrow> (tid \<Rightarrow> nat) \<Rightarrow> k_mutex \<Rightarrow> kernel \<Rightarrow> bool" for m0 k0 where
  start: "mutex_run m0 k0 (\<lambda>_. 0) m0 k0"
| lock: "mutex_run m0 k0 held m k \<Longrightarrow> can_block k \<Longrightarrow> ticks_ok n \<Longrightarrow> lock_count m \<noteq> - 1 \<Longrightarrow>
    k_mutex_lock n m k = (r, b, m', k') \<Longrightarrow>
    mutex_run m0 k0 (if r = Done 0 then held(current k := held (current k) + 1) else held) m' k'"
| unlock: "mutex_run m0 k0 held m k \<Longrightarrow> k_mutex_unlock m k = (r, m', k') \<Longrightarrow>
    mutex_run m0 k0 (if r = 0 then after_unlock m k held else held) m' k'"
| env: "mutex_run m0 k0 held m k \<Longrightarrow> sched_inv {} k' \<Longrightarrow> set (wait_qs k' (mutex_wq m)) \<subseteq> set (wait_qs k (mutex_wq m)) \<Longrightarrow>
    idle_thread k' = idle_thread k \<Longrightarrow> mutex_run m0 k0 held m k'"

definition holds :: "k_mutex \<Rightarrow> (tid \<Rightarrow> nat) \<Rightarrow> bool" where
  "holds m held \<longleftrightarrow> (\<forall>t. held t = (if owner m = Some t then unat (lock_count m) else 0))"

lemma unlock_ok:
  assumes "sched_inv {} k" "mutex_ok m k" "holds m held" "k_mutex_unlock m k = (r, m', k')"
  shows "sched_inv {} k' \<and> mutex_ok m' k' \<and> holds m' (if r = 0 then after_unlock m k held else held)"
  using assms(1,2,4)
proof (cases rule: mutex_unlock_cases)
  case err
  then show ?thesis using assms by (auto simp: EINVAL_def EPERM_def)
next
  case nested
  have "1 < unat (lock_count m)" using nested(2) by (simp add: word_less_nat_alt)
  then have "unat (lock_count m - 1) = unat (lock_count m) - 1" "lock_count m - 1 \<noteq> 0"
    by (auto simp: unat_sub word_le_nat_alt word_unat_eq_iff)
  then show ?thesis using nested assms by (auto simp: mutex_ok_def holds_def after_unlock_def)
next
  case free
  then show ?thesis using assms(2,3) by (auto simp: mutex_ok_def holds_def after_unlock_def frame_simps)
next
  case (pass t ts k3)
  have "wait_qs k3 (mutex_wq m) = ts" "idle_thread k3 = idle_thread k"
    using pass(3,8) by (auto simp: woken_def frame_simps dest: fun_cong [of _ _ "mutex_wq m"])
  moreover have "t \<notin> set ts" using sched_invD(3) [OF assms(1)] pass(3) by (metis distinct.simps(2) waitq_inv_def)
  moreover have "t \<noteq> idle_thread k" using waitq_member [OF assms(1), of t "mutex_wq m"] pass(3) by simp
  ultimately show ?thesis using pass assms(2,3)
    by (auto simp: mutex_ok_def holds_def after_unlock_def frame_simps intro: z_reschedule_inv)
qed

lemma mutex_run_ok:
  assumes "mutex_run m0 k0 held m k" "sched_inv {} k0" "mutex_ok m0 k0" "owner m0 = None"
  shows "sched_inv {} k \<and> mutex_ok m k \<and> holds m held"
  using assms
proof (induction rule: mutex_run.induct)
  case start
  then show ?case by (simp add: holds_def)
next
  case (lock held m k n r b m' k')
  then have i: "sched_inv {} k" "mutex_ok m k" "holds m held" by auto
  note l = mutex_lock_ok [OF i(1,2) lock.hyps(2-5)]
  have "unat (lock_count m + 1) = unat (lock_count m) + 1"
    using u32_inc(2) [of "lock_count m" "- 1"] lock.hyps(4) by simp
  moreover have "lock_count m = 0 \<Longrightarrow> owner m = None" using i(2) by (simp add: mutex_ok_def)
  ultimately have "holds m' (if r = Done 0 then held(current k := held (current k) + 1) else held)"
    using l(4,5) i(3) by (cases "r = Done 0") (auto simp: holds_def)
  with l(1,2) show ?case by simp
next
  case (unlock held m k r m' k')
  then have i: "sched_inv {} k" "mutex_ok m k" "holds m held" by auto
  show ?case by (rule unlock_ok [OF i unlock.hyps(2)])
next
  case (env held m k k')
  then show ?case by (auto simp: mutex_ok_def)
qed

section \<open>Condition variables keep the invariant\<close>

lemma irq_flag_inv [frame_simps]: "mutex_ok m (k\<lparr>irq_unlocked := b\<rparr>) = mutex_ok m k" "can_block (k\<lparr>irq_unlocked := b\<rparr>) = can_block k"
  by (simp_all add: mutex_ok_def can_block_def)

lemma reschedule_irq_locked: "\<not> irq_unlocked k \<Longrightarrow> z_reschedule k = k"
  by (simp add: z_reschedule_def resched_def)

lemma condvar_unlock:
  assumes "sched_inv {} k" "mutex_ok m k" "can_block k" "owner m = Some (current k)" "\<not> irq_unlocked k"
    "k_mutex_unlock m k = (r, m', k')"
  shows "r = 0 \<and> sched_inv {} k' \<and> mutex_ok m' k' \<and> can_block k' \<and> current k' = current k \<and> mutex_q m' = mutex_q m \<and>
     (lock_count m = 1 \<longrightarrow> owner m' \<noteq> Some (current k)) \<and> (\<forall>w. w \<noteq> mutex_wq m \<longrightarrow> wait_qs k' w = wait_qs k w)"
  using assms(1,2,6)
proof (cases rule: mutex_unlock_cases)
  case nested
  then show ?thesis using unlock_ok [OF assms(1,2) _ assms(6), of "\<lambda>t. if owner m = Some t then unat (lock_count m) else 0"] assms
    by (auto simp: holds_def)
next
  case free
  then show ?thesis using assms by (auto simp: mutex_ok_def can_block_def frame_simps)
next
  case (pass t ts k3)
  have e: "k' = k3" using pass(6,8) assms(5) by (simp add: reschedule_irq_locked woken_def frame_simps)
  have "threads k3 (current k) = threads (snd (adjust_owner_prio m (owner_orig_prio m) k)) (current k)" "current k3 = current k"
    "idle_thread k3 = idle_thread k" using pass(8,9) by (auto simp: woken_def frame_simps)
  then have cb: "can_block k'" using assms(3) by (simp add: e can_block_def frame_simps)
  have q: "wait_qs k = (wait_qs k3)(mutex_wq m := t # wait_qs k3 (mutex_wq m))" using pass(8) by (simp add: woken_def frame_simps)
  have "sched_inv {} k' \<and> mutex_ok m' k'"
    using unlock_ok [OF assms(1,2) _ assms(6), of "\<lambda>t. if owner m = Some t then unat (lock_count m) else 0"] by (simp add: holds_def)
  with pass q cb \<open>current k3 = current k\<close> show ?thesis by (auto simp: e)
qed (use assms(4) in simp)

section \<open>Properties\<close>



text \<open>\<open>k_mutex_unlock\<close> on every branch: without an owner or by another thread it fails and changes nothing; a
  nested unlock only decrements the count; the last unlock restores the owner's priority and either frees
  the mutex or passes it to the first waiter, which is woken with result 0.\<close>

theorem k_mutex_unlock_branches:
  assumes "sched_inv {} k" "mutex_ok m k" "k_mutex_unlock m k = (r, m', k')" "i8 (owner_orig_prio m) = owner_orig_prio m"
  shows "(owner m = None \<longrightarrow> r = - EINVAL \<and> m' = m \<and> k' = k) \<and>
     (owner m \<noteq> None \<and> owner m \<noteq> Some (current k) \<longrightarrow> r = - EPERM \<and> m' = m \<and> k' = k) \<and>
     (owner m = Some (current k) \<and> lock_count m > 1 \<longrightarrow> r = 0 \<and> m' = m\<lparr>lock_count := lock_count m - 1\<rparr> \<and> k' = k) \<and>
     (owner m = Some (current k) \<and> lock_count m = 1 \<longrightarrow> r = 0 \<and> prio_of k' (current k) = owner_orig_prio m \<and>
        (case wait_qs k (ObjQ (mutex_q m)) of
           [] \<Rightarrow> owner m' = None \<and> lock_count m' = 0
         | t # ts \<Rightarrow> owner m' = Some t \<and> lock_count m' = 1 \<and> owner_orig_prio m' = prio_of k' t \<and>
             wait_qs k' = (wait_qs k)(ObjQ (mutex_q m) := ts) \<and> swap_retval (threads k' t) = 0))"
  using assms(1-3)
proof (cases rule: mutex_unlock_cases)
  case (pass t ts k3)
  have q: "wait_qs k3 = (wait_qs k)(mutex_wq m := ts)" using pass(3,8) by (auto simp: woken_def frame_simps)
  have c: "current k3 = current k" using pass(8) by (simp add: woken_def frame_simps)
  have "swap_retval (threads k' t) = 0" using pass(6,8,9) c by (simp add: woken_def frame_simps)
  moreover have "prio_of k' (current k) = prio_of k3 (current k)" using pass(6) by (simp add: z_reschedule_def z_swap_def Let_def frame_simps)
  moreover have "prio_of k3 (current k) = owner_orig_prio m"
    using pass(1,8,9) adjust_prio_prio [OF assms(4), of m k "current k"] by (auto simp: woken_def)
  ultimately show ?thesis using pass q by (simp add: frame_simps)
qed (auto simp: adjust_prio_prio assms(4))

theorem k_mutex_unlock_branches_witness:
  "\<exists>k'. k_mutex_unlock \<lparr>mutex_q = 7, owner = Some 2, lock_count = 1, owner_orig_prio = 5\<rparr> waiting_kernel =
     (0, \<lparr>mutex_q = 7, owner = Some 3, lock_count = 1, owner_orig_prio = prio_of k' 3\<rparr>, k') \<and> swap_retval (threads k' 3) = 0"
proof -
  let ?m = "\<lparr>mutex_q = 7, owner = Some 2, lock_count = 1, owner_orig_prio = 5\<rparr>"
  obtain r m' k' where u: "k_mutex_unlock ?m waiting_kernel = (r, m', k')" by (cases "k_mutex_unlock ?m waiting_kernel")
  have "mutex_ok ?m waiting_kernel" "i8 5 = 5" by (auto simp: mutex_ok_def i8_def)
  then have "r = 0 \<and> owner m' = Some 3 \<and> lock_count m' = 1 \<and> owner_orig_prio m' = prio_of k' 3 \<and> swap_retval (threads k' 3) = 0"
    using k_mutex_unlock_branches [OF waiting_kernel_inv _ u] by simp
  moreover have "mutex_q m' = 7" using u by (auto simp: k_mutex_unlock_def Let_def split: prod.splits option.splits if_splits)
  ultimately show ?thesis using u by (intro exI [of _ k']) (cases m', simp)
qed



text \<open>C13: The last unlock of a mutex without waiters gives the owner its own priority back and does not reschedule:
  the owner keeps running, also when a ready thread now has a higher priority.\<close>

theorem k_mutex_unlock_keeps_running:
  assumes "sched_inv {} k" "mutex_ok m k" "k_mutex_unlock m k = (r, m', k')" "i8 (owner_orig_prio m) = owner_orig_prio m"
    "owner m = Some (current k)" "lock_count m = 1" "wait_qs k (ObjQ (mutex_q m)) = []" "u \<noteq> current k"
  shows "current k' = current k \<and> prio_of k' (current k) = owner_orig_prio m \<and> prio_of k' u = prio_of k u \<and>
     z_is_thread_ready (threads k' u) = z_is_thread_ready (threads k u)"
  using assms(1-3) by (cases rule: mutex_unlock_cases) (use assms(4-8) in \<open>simp_all add: adjust_prio_prio frame_simps\<close>)

theorem k_mutex_unlock_keeps_running_witness:
  "\<exists>m' k'. k_mutex_unlock \<lparr>mutex_q = 7, owner = Some 2, lock_count = 1, owner_orig_prio = 5\<rparr> boosted_kernel = (0, m', k') \<and>
     current k' = 2 \<and> prio_of k' 2 = 5 \<and> z_is_thread_ready (threads k' 3) \<and> prio_of k' 3 = 3"
proof -
  let ?m = "\<lparr>mutex_q = 7, owner = Some 2, lock_count = 1, owner_orig_prio = 5\<rparr>"
  obtain r m' k' where u: "k_mutex_unlock ?m boosted_kernel = (r, m', k')" by (cases "k_mutex_unlock ?m boosted_kernel")
  have c: "current boosted_kernel = 2" "idle_thread boosted_kernel = 0" "wait_qs boosted_kernel = (\<lambda>_. [])"
    "prio_of boosted_kernel 3 = 3" "z_is_thread_ready (threads boosted_kernel 3)"
    by (simp_all add: boosted_kernel_def boot_kernel_def state_bits)
  have "mutex_ok ?m boosted_kernel" "i8 5 = 5" by (auto simp: mutex_ok_def i8_def c)
  then have "current k' = 2 \<and> prio_of k' 2 = 5 \<and> prio_of k' 3 = 3 \<and> z_is_thread_ready (threads k' 3)"
    using k_mutex_unlock_keeps_running [OF boosted_kernel_inv _ u, of 3] c by simp
  moreover have "r = 0" using u c by (auto simp: k_mutex_unlock_def Let_def split: prod.splits option.splits)
  ultimately show ?thesis using u by blast
qed



text \<open>\<open>k_condvar_broadcast\<close> ends: it wakes every waiter with result 0 and returns how many there were.\<close>

theorem k_condvar_broadcast_wakes_all:
  assumes "sched_inv {} k"
  shows "\<exists>k1. k_condvar_broadcast c k = Some (int (length (wait_qs k (ObjQ c))), if wait_qs k (ObjQ c) = [] then k1 else z_reschedule k1) \<and>
     sched_inv {} k1 \<and> wait_qs k1 = (wait_qs k)(ObjQ c := []) \<and>
     (\<forall>t \<in> set (wait_qs k (ObjQ c)). swap_retval (threads k1 t) = 0 \<and> pended_on (threads k1 t) = None)"
  using wake_loop_returns [OF assms, of 0 "ObjQ c"] by (auto simp: k_condvar_broadcast_def Let_def all_woken_def)

theorem k_condvar_broadcast_wakes_all_witness:
  "\<exists>k1. k_condvar_broadcast 7 waiting_kernel = Some (2, z_reschedule k1) \<and> swap_retval (threads k1 4) = 0"
  using k_condvar_broadcast_wakes_all [OF waiting_kernel_inv, of 7] by auto

end
