(* ===== verification/Kernel_Memory.thy ===== *)
theory Kernel_Memory
  imports Waiting Boot
begin

text \<open>
  The bytes of memory that kernel objects copy: \<open>memcpy\<close>, the contents of an address range, and that
  waking a thread and copying memory do not depend on each other, and facts shared by the
  kernel objects that use it. Addresses are natural numbers.
\<close>

definition memcpy :: "addr \<Rightarrow> addr \<Rightarrow> nat \<Rightarrow> kernel \<Rightarrow> kernel" where
  "memcpy dst src n k = k\<lparr>memory := (\<lambda>a. if dst \<le> a \<and> a < dst + n then memory k (src + (a - dst)) else memory k a)\<rparr>"

definition mem_read :: "kernel \<Rightarrow> addr \<Rightarrow> nat \<Rightarrow> u8 list" where
  "mem_read k a n = map (memory k) [a ..< a + n]"

definition disjoint_ranges :: "addr \<Rightarrow> nat \<Rightarrow> addr \<Rightarrow> nat \<Rightarrow> bool" where
  "disjoint_ranges a m b n \<longleftrightarrow> a + m \<le> b \<or> b + n \<le> a"

lemma mem_read_memcpy [simp]: "mem_read (memcpy dst src n k) dst n = mem_read k src n"
  by (rule nth_equalityI) (auto simp: mem_read_def memcpy_def)

lemma mem_read_other: "disjoint_ranges a m dst n \<Longrightarrow> mem_read (memcpy dst src n k) a m = mem_read k a m"
  by (auto simp: mem_read_def memcpy_def disjoint_ranges_def)

lemma memcpy_fields [frame_simps]:
  "threads (memcpy dst src n k) = threads k" "wait_qs (memcpy dst src n k) = wait_qs k" "current (memcpy dst src n k) = current k"
  "in_isr (memcpy dst src n k) = in_isr k" "irq_unlocked (memcpy dst src n k) = irq_unlocked k"
  "idle_thread (memcpy dst src n k) = idle_thread k" "timeout_list (memcpy dst src n k) = timeout_list k"
  "can_block (memcpy dst src n k) = can_block k" "sched_inv X (memcpy dst src n k) = sched_inv X k"
  by (simp_all add: memcpy_def frame_simps can_block_def)

text \<open>Making a thread ready does not look at memory.\<close>

lemma timeout_memory:
  "z_abort_timeout to (k\<lparr>memory := m\<rparr>) = map_prod id (\<lambda>k'. k'\<lparr>memory := m\<rparr>) (z_abort_timeout to k)"
  "z_add_timeout to fn n (k\<lparr>memory := m\<rparr>) = (z_add_timeout to fn n k)\<lparr>memory := m\<rparr>" for k :: kernel
proof -
  have r: "remove_timeout to (k\<lparr>memory := m\<rparr>) = (remove_timeout to k)\<lparr>memory := m\<rparr>" for k :: kernel
    by (cases "next_of k to") (simp_all add: remove_timeout_def next_of_def Let_def)
  have n: "next_timeout (k\<lparr>memory := m\<rparr>) = next_timeout k" "first_timeout (k\<lparr>memory := m\<rparr>) = first_timeout k"
    "timeout_dticks (k\<lparr>memory := m\<rparr>) n = timeout_dticks k n" for k :: kernel and n
    by (cases "timeout_list k"; simp add: next_timeout_def first_timeout_def elapsed_def timeout_dticks_def)+
  have c: "sys_clock_set_timeout n (k\<lparr>memory := m\<rparr>) = (sys_clock_set_timeout n k)\<lparr>memory := m\<rparr>" for k :: kernel and n
    by (simp add: sys_clock_set_timeout_def)
  show "z_abort_timeout to (k\<lparr>memory := m\<rparr>) = map_prod id (\<lambda>k'. k'\<lparr>memory := m\<rparr>) (z_abort_timeout to k)"
    by (simp add: z_abort_timeout_def Let_def n r c)
  have t: "timeout_dticks (k\<lparr>memory := m, to_fn := f\<rparr>) n = timeout_dticks (k\<lparr>to_fn := f\<rparr>) n" for f
    by (simp add: timeout_dticks_def elapsed_def)
  have x: "next_timeout (k\<lparr>memory := m, to_fn := f, dticks := d, timeout_list := l\<rparr>) =
      next_timeout (k\<lparr>to_fn := f, dticks := d, timeout_list := l\<rparr>)" for f d l
    by (cases l) (simp_all add: next_timeout_def first_timeout_def elapsed_def)
  show "z_add_timeout to fn n (k\<lparr>memory := m\<rparr>) = (z_add_timeout to fn n k)\<lparr>memory := m\<rparr>"
    by (simp add: z_add_timeout_def Let_def case_prod_beta t x first_timeout_def sys_clock_set_timeout_def)
qed

lemma slice_memory: "z_reset_time_slice t (k\<lparr>memory := m\<rparr>) = (z_reset_time_slice t k)\<lparr>memory := m\<rparr>"
proof -
  obtain k1 where k1: "(snd (z_abort_timeout SliceTimeout k))\<lparr>slice_expired := False\<rparr> = k1" by blast
  then have "(snd (z_abort_timeout SliceTimeout (k\<lparr>memory := m\<rparr>)))\<lparr>slice_expired := False\<rparr> = k1\<lparr>memory := m\<rparr>"
    by (auto simp: timeout_memory)
  then show ?thesis unfolding z_reset_time_slice_def k1 Let_def
    by (simp add: timeout_memory thread_is_sliceable_def slice_time_def z_is_idle_thread_object_def)
qed

lemma update_cache_memory: "update_cache p (k\<lparr>memory := m\<rparr>) = (update_cache p k)\<lparr>memory := m\<rparr>"
  by (simp add: update_cache_def Let_def frame_simps should_preempt_def slice_memory)

lemma queue_memory:
  "upd_thread t f (k\<lparr>memory := m\<rparr>) = (upd_thread t f k)\<lparr>memory := m\<rparr>"
  "queue_thread t (k\<lparr>memory := m\<rparr>) = (queue_thread t k)\<lparr>memory := m\<rparr>"
  by (simp_all add: upd_thread_def queue_thread_def runq_add_def)

lemma ready_memory: "ready_thread t (k\<lparr>memory := m\<rparr>) = (ready_thread t k)\<lparr>memory := m\<rparr>"
  by (simp add: ready_thread_def queue_memory update_cache_memory)

lemma wake_memory: "wake_with v t (k\<lparr>memory := m\<rparr>) = (wake_with v t k)\<lparr>memory := m\<rparr>"
  by (simp add: wake_with_def z_ready_thread_def arch_thread_return_value_set_def queue_memory ready_memory)

lemma wake_memcpy: "memory (wake_with v t k) = memory k \<Longrightarrow> wake_with v t (memcpy dst src n k) = memcpy dst src n (wake_with v t k)"
  by (simp add: memcpy_def wake_memory cong: if_cong)

lemma unpend_none: "wait_qs k w = [] \<Longrightarrow> z_unpend_first_thread w k = (None, k)"
  by (simp add: z_unpend_first_thread_def z_priq_dumb_best_def)

lemma unpend_some: "wait_qs k w = t # ts \<Longrightarrow> \<exists>k1. z_unpend_first_thread w k = (Some t, k1)"
  by (simp add: z_unpend_first_thread_def z_priq_dumb_best_def)

text \<open>Multiples of a size are at least that size apart.\<close>

lemma mult_ranges: "i \<noteq> j \<Longrightarrow> i * n + n \<le> j * n \<or> j * n + n \<le> i * (n :: nat)"
  by (metis add.commute linorder_neqE_nat mult_Suc mult_le_mono1 Suc_leI)

lemma u32_below: "i < unat n \<Longrightarrow> i < 2 ^ 32" for n :: u32
proof -
  have "unat n < 2 ^ 32" using unsigned_less [of n] by simp
  then show "i < unat n \<Longrightarrow> i < 2 ^ 32" by simp
qed

end
