(* ===== verification/Msgq.thy ===== *)
theory Msgq
  imports Kernel_Memory Math_Extras
begin

text \<open>
  Message queues (\<open>kernel/msg_q.c\<close>, polling disabled): a ring of fixed-size messages in memory, with one
  wait queue shared by readers (while the ring is empty) and writers (while it is full). A waiting
  thread's \<open>swap_data\<close> is the address of its message buffer. \<open>msgq_contents\<close> is the list of the stored
  messages; the operations act on it as a bounded first-in first-out queue.
\<close>

section \<open>Operations\<close>

record k_msgq =
  msgq_q :: nat
  msg_size :: u32
  max_msgs :: u32
  buffer_start :: addr
  buffer_end :: addr
  read_ptr :: addr
  write_ptr :: addr
  used_msgs :: u32
  msgq_flags :: u8

record k_msgq_attrs =
  attr_msg_size :: u32
  attr_max_msgs :: u32
  attr_used_msgs :: u32

abbreviation msgq_wq :: "k_msgq \<Rightarrow> wqid" where
  "msgq_wq q \<equiv> ObjQ (msgq_q q)"

abbreviation msgq_len :: "k_msgq \<Rightarrow> nat" where
  "msgq_len q \<equiv> unat (msg_size q)"

definition K_MSGQ_FLAG_ALLOC :: u8 where "K_MSGQ_FLAG_ALLOC = push_bit 0 1"

definition k_msgq_init :: "addr \<Rightarrow> u32 \<Rightarrow> u32 \<Rightarrow> k_msgq \<Rightarrow> kernel \<Rightarrow> k_msgq \<times> kernel" where
  "k_msgq_init buffer sz n q k =
     (q\<lparr>msg_size := sz, max_msgs := n, buffer_start := buffer, buffer_end := buffer + unat (n * sz),
        read_ptr := buffer, write_ptr := buffer, used_msgs := 0, msgq_flags := 0\<rparr>,
      k\<lparr>wait_qs := (wait_qs k)(msgq_wq q := [])\<rparr>)"

text \<open>\<open>malloc\<close> is \<open>z_thread_malloc\<close> at the time of the call; \<open>None\<close> is the null pointer.\<close>

definition k_msgq_alloc_init :: "(u32 \<Rightarrow> addr option) \<Rightarrow> u32 \<Rightarrow> u32 \<Rightarrow> k_msgq \<Rightarrow> kernel \<Rightarrow> int \<times> k_msgq \<times> kernel" where
  "k_msgq_alloc_init malloc sz n q k =
     (case size_mul_overflow sz n of
        (True, _) \<Rightarrow> (- EINVAL, q, k)
      | (False, total_size) \<Rightarrow>
          (case malloc total_size of
             Some buffer \<Rightarrow> let (q1, k1) = k_msgq_init buffer sz n q k in (0, q1\<lparr>msgq_flags := K_MSGQ_FLAG_ALLOC\<rparr>, k1)
           | None \<Rightarrow> (- ENOMEM, q, k)))"

text \<open>The second component is the argument of the call of \<open>k_free\<close>, if there is one.\<close>

definition k_msgq_cleanup :: "k_msgq \<Rightarrow> kernel \<Rightarrow> int \<times> addr option \<times> k_msgq" where
  "k_msgq_cleanup q k =
     (if z_waitq_head (msgq_wq q) k \<noteq> None then (- EBUSY, None, q)
      else if msgq_flags q AND K_MSGQ_FLAG_ALLOC \<noteq> 0
      then (0, Some (buffer_start q), q\<lparr>msgq_flags := msgq_flags q AND NOT K_MSGQ_FLAG_ALLOC\<rparr>)
      else (0, None, q))"

definition msgq_advance :: "k_msgq \<Rightarrow> addr \<Rightarrow> addr" where
  "msgq_advance q p = (if p + msgq_len q = buffer_end q then buffer_start q else p + msgq_len q)"

text \<open>Storing a message at the write pointer, the same statements in \<open>k_msgq_put\<close> and \<open>k_msgq_get\<close>.\<close>

definition msgq_store :: "addr \<Rightarrow> k_msgq \<Rightarrow> kernel \<Rightarrow> k_msgq \<times> kernel" where
  "msgq_store data q k =
     (q\<lparr>write_ptr := msgq_advance q (write_ptr q), used_msgs := used_msgs q + 1\<rparr>, memcpy (write_ptr q) data (msgq_len q) k)"

definition k_msgq_put :: "addr \<Rightarrow> k_timeout \<Rightarrow> k_msgq \<Rightarrow> kernel \<Rightarrow> int outcome \<times> k_msgq \<times> kernel" where
  "k_msgq_put data timeout q k =
     (if used_msgs q < max_msgs q
      then (case z_unpend_first_thread (msgq_wq q) k of
              (Some t, k1) \<Rightarrow>
                (Done 0, q, z_reschedule (wake_with 0 t (memcpy (swap_data (threads k1 t)) data (msgq_len q) k1)))
            | (None, k1) \<Rightarrow> (Done 0, msgq_store data q k1))
      else if timeout = K_NO_WAIT then (Done (- ENOMSG), q, k)
      else (Blocked, q, z_pend_curr (Some (msgq_wq q)) timeout (upd_thread (current k) (\<lambda>th. th\<lparr>swap_data := data\<rparr>) k)))"

definition k_msgq_get_attrs :: "k_msgq \<Rightarrow> k_msgq_attrs" where
  "k_msgq_get_attrs q = \<lparr>attr_msg_size = msg_size q, attr_max_msgs = max_msgs q, attr_used_msgs = used_msgs q\<rparr>"

definition k_msgq_get :: "addr \<Rightarrow> k_timeout \<Rightarrow> k_msgq \<Rightarrow> kernel \<Rightarrow> int outcome \<times> k_msgq \<times> kernel" where
  "k_msgq_get data timeout q k =
     (if 0 < used_msgs q
      then (let k1 = memcpy data (read_ptr q) (msgq_len q) k;
                q1 = q\<lparr>read_ptr := msgq_advance q (read_ptr q), used_msgs := used_msgs q - 1\<rparr>
            in case z_unpend_first_thread (msgq_wq q) k1 of
                 (Some t, k2) \<Rightarrow>
                   let (q2, k3) = msgq_store (swap_data (threads k2 t)) q1 k2 in (Done 0, q2, z_reschedule (wake_with 0 t k3))
               | (None, k2) \<Rightarrow> (Done 0, q1, k2))
      else if timeout = K_NO_WAIT then (Done (- ENOMSG), q, k)
      else (Blocked, q, z_pend_curr (Some (msgq_wq q)) timeout (upd_thread (current k) (\<lambda>th. th\<lparr>swap_data := data\<rparr>) k)))"

definition k_msgq_peek :: "addr \<Rightarrow> k_msgq \<Rightarrow> kernel \<Rightarrow> int \<times> kernel" where
  "k_msgq_peek data q k =
     (if 0 < used_msgs q then (0, memcpy data (read_ptr q) (msgq_len q) k) else (- ENOMSG, k))"

text \<open>\<open>bytes_to_end\<close> and \<open>byte_offset\<close> are 32-bit variables of the code.\<close>

definition k_msgq_peek_at :: "addr \<Rightarrow> u32 \<Rightarrow> k_msgq \<Rightarrow> kernel \<Rightarrow> int \<times> kernel" where
  "k_msgq_peek_at data idx q k =
     (if idx < used_msgs q
      then (let bytes_to_end = (word_of_nat (buffer_end q - read_ptr q) :: u32);
                byte_offset = idx * msg_size q;
                (start_addr, off) = (if bytes_to_end \<le> byte_offset then (buffer_start q, byte_offset - bytes_to_end)
                                     else (read_ptr q, byte_offset))
            in (0, memcpy data (start_addr + unat off) (msgq_len q) k))
      else (- ENOMSG, k))"

definition k_msgq_purge :: "k_msgq \<Rightarrow> kernel \<Rightarrow> (k_msgq \<times> kernel) option" where
  "k_msgq_purge q k =
     map_option (\<lambda>k1. (q\<lparr>used_msgs := 0, read_ptr := write_ptr q\<rparr>, if wait_qs k (msgq_wq q) \<noteq> [] then z_reschedule k1 else k1))
       (wake_loop (wake_with (- ENOMSG)) (msgq_wq q) k)"

section \<open>The ring as a list\<close>

text \<open>The ring has room for \<open>max_msgs\<close> messages; \<open>msgq_idx\<close> is the index of the oldest one, and threads
  wait only on an empty or a full ring.\<close>

definition msgq_idx :: "k_msgq \<Rightarrow> nat" where
  "msgq_idx q = (read_ptr q - buffer_start q) div msgq_len q"

definition msgq_slot :: "k_msgq \<Rightarrow> nat \<Rightarrow> addr" where
  "msgq_slot q i = buffer_start q + ((msgq_idx q + i) mod unat (max_msgs q)) * msgq_len q"

definition msgq_shape :: "k_msgq \<Rightarrow> bool" where
  "msgq_shape q \<longleftrightarrow> 0 < msgq_len q \<and> 0 < unat (max_msgs q) \<and> unat (max_msgs q) * msgq_len q < 2 ^ 32 \<and>
     buffer_end q = buffer_start q + unat (max_msgs q) * msgq_len q \<and> used_msgs q \<le> max_msgs q \<and>
     read_ptr q = msgq_slot q 0 \<and> write_ptr q = msgq_slot q (unat (used_msgs q))"

definition msgq_ok :: "k_msgq \<Rightarrow> kernel \<Rightarrow> bool" where
  "msgq_ok q k \<longleftrightarrow> msgq_shape q \<and> (wait_qs k (msgq_wq q) \<noteq> [] \<longrightarrow> used_msgs q = 0 \<or> used_msgs q = max_msgs q)"

definition msgq_contents :: "k_msgq \<Rightarrow> kernel \<Rightarrow> u8 list list" where
  "msgq_contents q k = map (\<lambda>i. mem_read k (msgq_slot q i) (msgq_len q)) [0 ..< unat (used_msgs q)]"

text \<open>An application buffer outside the ring.\<close>

definition msgq_apart :: "k_msgq \<Rightarrow> addr \<Rightarrow> bool" where
  "msgq_apart q a \<longleftrightarrow> disjoint_ranges a (msgq_len q) (buffer_start q) (unat (max_msgs q) * msgq_len q)"

lemma msgq_advance_slot:
  assumes "msgq_shape q"
  shows "msgq_advance q (msgq_slot q i) = msgq_slot q (Suc i)"
proof -
  let ?n = "unat (max_msgs q)" and ?j = "(msgq_idx q + i) mod unat (max_msgs q)"
  have n: "0 < ?n" "0 < msgq_len q" using assms by (auto simp: msgq_shape_def)
  have j: "?j < ?n" using n by simp
  have s: "(msgq_idx q + Suc i) mod ?n = (if Suc ?j = ?n then 0 else Suc ?j)" by (simp add: mod_Suc)
  have "?j * msgq_len q + msgq_len q = ?n * msgq_len q \<longleftrightarrow> Suc ?j = ?n" using n(2) by (metis add.commute mult_Suc mult_cancel2 neq0_conv)
  then show ?thesis using assms s by (auto simp: msgq_advance_def msgq_slot_def msgq_shape_def add.assoc)
qed

text \<open>Slots of different messages do not overlap.\<close>

lemma mod_shift_inj:
  fixes r i j n :: nat
  assumes "(r + i) mod n = (r + j) mod n" "i < n" "j < n"
  shows "i = j"
proof -
  have *: "b - a = 0" if "a \<le> b" "b < n" "(r + a) mod n = (r + b) mod n" for a b
  proof -
    have "n dvd (r + b) - (r + a)" using that by (metis mod_eq_dvd_iff_nat nat_add_left_cancel_le)
    then show ?thesis using that by (auto dest: dvd_imp_le)
  qed
  then show ?thesis using assms by (metis diff_is_0_eq le_antisym nat_le_linear)
qed

lemma msgq_slots_apart:
  assumes "msgq_shape q" "i < unat (max_msgs q)" "j < unat (max_msgs q)" "i \<noteq> j"
  shows "disjoint_ranges (msgq_slot q i) (msgq_len q) (msgq_slot q j) (msgq_len q)"
proof -
  let ?n = "unat (max_msgs q)"
  have "(msgq_idx q + i) mod ?n \<noteq> (msgq_idx q + j) mod ?n"
    using mod_shift_inj [of "msgq_idx q" i ?n j] assms(2-4) by blast
  from mult_ranges [OF this, of "msgq_len q"] show ?thesis by (auto simp: disjoint_ranges_def msgq_slot_def)
qed

lemma slot_in_ring:
  assumes "msgq_shape q" "disjoint_ranges a n (buffer_start q) (unat (max_msgs q) * msgq_len q)"
  shows "disjoint_ranges a n (msgq_slot q i) (msgq_len q)" "disjoint_ranges (msgq_slot q i) (msgq_len q) a n"
proof -
  let ?j = "(msgq_idx q + i) mod unat (max_msgs q)"
  have "?j < unat (max_msgs q)" using assms(1) by (auto simp: msgq_shape_def)
  then have "?j * msgq_len q + msgq_len q \<le> unat (max_msgs q) * msgq_len q" by (metis Suc_leI add.commute mult_Suc mult_le_mono1)
  then show "disjoint_ranges a n (msgq_slot q i) (msgq_len q)" "disjoint_ranges (msgq_slot q i) (msgq_len q) a n"
    using assms(2) by (auto simp: disjoint_ranges_def msgq_slot_def)
qed

text \<open>Contents depend on the bytes of the ring only.\<close>

lemma contents_memcpy_apart:
  "msgq_shape q \<Longrightarrow> msgq_apart q dst \<Longrightarrow> msgq_contents q (memcpy dst src (msgq_len q) k) = msgq_contents q k"
  by (simp add: msgq_contents_def msgq_apart_def mem_read_other slot_in_ring)

lemma contents_memory: "memory k = memory k' \<Longrightarrow> msgq_contents q k = msgq_contents q k'"
  by (simp add: msgq_contents_def mem_read_def)

lemma idx_of_slot: "msgq_shape q \<Longrightarrow> (msgq_slot q i - buffer_start q) div msgq_len q = (msgq_idx q + i) mod unat (max_msgs q)"
  by (simp add: msgq_slot_def msgq_shape_def)

lemma msgq_idx_less: "msgq_shape q \<Longrightarrow> msgq_idx q < unat (max_msgs q)"
  using idx_of_slot [of q 0] by (metis msgq_shape_def msgq_idx_def mod_less_divisor)

text \<open>Storing appends a message; taking removes the first.\<close>

lemma msgq_store_appends:
  assumes "msgq_shape q" "used_msgs q < max_msgs q" "msgq_apart q data" "msgq_store data q k = (q', k')"
  shows "msgq_shape q'" "msgq_contents q' k' = msgq_contents q k @ [mem_read k data (msgq_len q)]"
    "unat (used_msgs q') = unat (used_msgs q) + 1"
proof -
  have u: "unat (used_msgs q + 1) = unat (used_msgs q) + 1" "used_msgs q + 1 \<le> max_msgs q"
    using u32_inc [of "used_msgs q" "max_msgs q"] assms(2) by auto
  have q': "q' = q\<lparr>write_ptr := msgq_slot q (Suc (unat (used_msgs q))), used_msgs := used_msgs q + 1\<rparr>"
    and k': "k' = memcpy (msgq_slot q (unat (used_msgs q))) data (msgq_len q) k"
    using assms(1,4) msgq_advance_slot [OF assms(1)] by (auto simp: msgq_store_def msgq_shape_def)
  have s: "msgq_slot q' = msgq_slot q" by (rule ext) (simp add: q' msgq_slot_def msgq_idx_def)
  show "msgq_shape q'" using assms(1) u s by (simp add: msgq_shape_def q')
  show "unat (used_msgs q') = unat (used_msgs q) + 1" using u by (simp add: q')
  have l: "unat (used_msgs q) < unat (max_msgs q)" using assms(2) by (simp add: word_less_nat_alt)
  have "mem_read k' (msgq_slot q i) (msgq_len q) = mem_read k (msgq_slot q i) (msgq_len q)" if "i < unat (used_msgs q)" for i
    using msgq_slots_apart [OF assms(1), of i "unat (used_msgs q)"] that l by (simp add: k' mem_read_other)
  then show "msgq_contents q' k' = msgq_contents q k @ [mem_read k data (msgq_len q)]"
    using u by (simp add: msgq_contents_def s) (simp add: q' k')
qed

lemma msgq_take_first:
  assumes "msgq_shape q" "0 < used_msgs q"
  defines "q' \<equiv> q\<lparr>read_ptr := msgq_advance q (read_ptr q), used_msgs := used_msgs q - 1\<rparr>"
  shows "msgq_shape q'" "msgq_contents q k = mem_read k (read_ptr q) (msgq_len q) # msgq_contents q' k"
    "unat (used_msgs q) = Suc (unat (used_msgs q'))" "used_msgs q' < max_msgs q'"
proof -
  have "1 \<le> unat (used_msgs q)" using assms(2) by (simp add: word_less_nat_alt)
  then have d: "unat (used_msgs q - 1) = unat (used_msgs q) - 1" by (simp add: unat_sub word_le_nat_alt)
  with \<open>1 \<le> unat (used_msgs q)\<close> show u: "unat (used_msgs q) = Suc (unat (used_msgs q'))" by (simp add: q'_def)
  show lt: "used_msgs q' < max_msgs q'"
    using u assms(1) by (simp add: q'_def msgq_shape_def word_le_nat_alt word_less_nat_alt)
  have r: "read_ptr q = msgq_slot q 0" using assms(1) by (simp add: msgq_shape_def)
  then have q': "q' = q\<lparr>read_ptr := msgq_slot q 1, used_msgs := used_msgs q - 1\<rparr>"
    using msgq_advance_slot [OF assms(1), of 0] by (simp add: q'_def)
  have i: "msgq_idx q' = (msgq_idx q + 1) mod unat (max_msgs q)"
    using idx_of_slot [OF assms(1), of 1] by (simp add: msgq_idx_def q')
  have s: "msgq_slot q' j = msgq_slot q (Suc j)" for j by (simp add: msgq_slot_def i) (simp add: q' mod_simps)
  show "msgq_shape q'" using assms(1) lt s u by (simp add: msgq_shape_def) (simp add: q')
  have "[0 ..< unat (used_msgs q)] = 0 # map Suc [0 ..< unat (used_msgs q')]"
    using u by (simp add: map_Suc_upt upt_conv_Cons del: upt_Suc)
  then show "msgq_contents q k = mem_read k (read_ptr q) (msgq_len q) # msgq_contents q' k"
    by (simp add: msgq_contents_def s r) (simp add: q')
qed

section \<open>Operations on the list\<close>

text \<open>A waiting reader gets the message in its own buffer.\<close>

lemma msgq_put_waiter:
  assumes "sched_inv {} k" "used_msgs q < max_msgs q" "wait_qs k (msgq_wq q) = t # ts"
  obtains k1 where "k_msgq_put data n q k = (Done 0, q, z_reschedule (memcpy (swap_data (threads k t)) data (msgq_len q) k1))"
    "sched_inv {} k1" "woken (msgq_wq q) t 0 k k1"
proof -
  from unpend_some [OF assms(3)] obtain k1 where u: "z_unpend_first_thread (msgq_wq q) k = (Some t, k1)" by blast
  note w = wake_first(1,2) [OF assms(1) u, of 0] and f = unpend_first_facts [OF assms(1) u]
  have "memory (wake_with 0 t k1) = memory k1" using w(2) f(11) by (simp add: woken_def)
  then show thesis using that [OF _ w] assms(2) by (simp add: k_msgq_put_def u wake_memcpy f(12))
qed

lemma msgq_put_free:
  "used_msgs q < max_msgs q \<Longrightarrow> wait_qs k (msgq_wq q) = [] \<Longrightarrow> k_msgq_put data n q k = (Done 0, msgq_store data q k)"
  by (simp add: k_msgq_put_def unpend_none)

text \<open>A reader takes the oldest message, and the first waiting writer's message is stored.\<close>

lemma msgq_get_free:
  assumes "0 < used_msgs q" "wait_qs k (msgq_wq q) = []"
  shows "k_msgq_get data n q k = (Done 0, q\<lparr>read_ptr := msgq_advance q (read_ptr q), used_msgs := used_msgs q - 1\<rparr>,
     memcpy data (read_ptr q) (msgq_len q) k)"
  using assms by (simp add: k_msgq_get_def unpend_none frame_simps)

lemma msgq_get_waiter:
  assumes "sched_inv {} k" "0 < used_msgs q" "wait_qs k (msgq_wq q) = t # ts"
  obtains k1 q1 where "k_msgq_get data n q k = (Done 0, q1, z_reschedule k1)" "sched_inv {} k1"
    "woken (msgq_wq q) t 0 k (k1\<lparr>memory := memory k\<rparr>)"
    "(q1, memcpy (write_ptr q) (swap_data (threads k t)) (msgq_len q) (memcpy data (read_ptr q) (msgq_len q) k)) =
       msgq_store (swap_data (threads k t)) (q\<lparr>read_ptr := msgq_advance q (read_ptr q), used_msgs := used_msgs q - 1\<rparr>)
         (memcpy data (read_ptr q) (msgq_len q) k)"
    "memory k1 = memory (memcpy (write_ptr q) (swap_data (threads k t)) (msgq_len q) (memcpy data (read_ptr q) (msgq_len q) k))"
proof -
  let ?k = "memcpy data (read_ptr q) (msgq_len q) k"
    and ?q = "q\<lparr>read_ptr := msgq_advance q (read_ptr q), used_msgs := used_msgs q - 1\<rparr>"
  have i: "sched_inv {} ?k" using assms(1) by (simp add: frame_simps)
  have "wait_qs ?k (msgq_wq q) = t # ts" using assms(3) by (simp add: frame_simps)
  from unpend_some [OF this] obtain k1 where u: "z_unpend_first_thread (msgq_wq q) ?k = (Some t, k1)" by blast
  note w = wake_first(1,2) [OF i u, of 0] and f = unpend_first_facts [OF i u]
  have m: "memory (wake_with 0 t k1) = memory k1" using w(2) f(11) by (simp add: woken_def)
  let ?k2 = "memcpy (write_ptr q) (swap_data (threads k t)) (msgq_len q) (wake_with 0 t k1)"
  let ?q1 = "fst (msgq_store (swap_data (threads k t)) ?q ?k)"
  have sd: "swap_data (threads k1 t) = swap_data (threads k t)" using f(12) by (simp add: frame_simps)
  show thesis
  proof (rule that [of ?q1 ?k2])
    show "k_msgq_get data n q k = (Done 0, ?q1, z_reschedule ?k2)" using assms(2)
      by (simp add: k_msgq_get_def u msgq_store_def sd wake_memcpy [OF m])
    show "sched_inv {} ?k2" using w(1) by (simp add: frame_simps)
    show "woken (msgq_wq q) t 0 k (?k2\<lparr>memory := memory k\<rparr>)" using w(2) by (simp add: woken_def frame_simps)
    show "(?q1, memcpy (write_ptr q) (swap_data (threads k t)) (msgq_len q) ?k) = msgq_store (swap_data (threads k t)) ?q ?k"
      by (simp add: msgq_store_def)
    show "memory ?k2 = memory (memcpy (write_ptr q) (swap_data (threads k t)) (msgq_len q) ?k)"
      using m f(11) by (simp add: memcpy_def cong: if_cong)
  qed
qed

text \<open>What a call leaves of the configuration of the queue.\<close>

definition same_ring :: "k_msgq \<Rightarrow> k_msgq \<Rightarrow> bool" where
  "same_ring q q' \<longleftrightarrow> msgq_q q' = msgq_q q \<and> msg_size q' = msg_size q \<and> max_msgs q' = max_msgs q \<and>
     buffer_start q' = buffer_start q \<and> buffer_end q' = buffer_end q"

lemma contents_empty: "used_msgs q = 0 \<Longrightarrow> msgq_contents q k = []"
  by (simp add: msgq_contents_def)

lemma msgq_block_ok:
  assumes "sched_inv {} k" "msgq_ok q k" "can_block k" "ticks_ok n" "used_msgs q = 0 \<or> used_msgs q = max_msgs q"
  shows "sched_inv {} (z_pend_curr (Some (msgq_wq q)) n (upd_thread (current k) (\<lambda>th. th\<lparr>swap_data := d\<rparr>) k))"
    "msgq_ok q (z_pend_curr (Some (msgq_wq q)) n (upd_thread (current k) (\<lambda>th. th\<lparr>swap_data := d\<rparr>) k))"
    "memory (z_pend_curr (Some (msgq_wq q)) n (upd_thread (current k) (\<lambda>th. th\<lparr>swap_data := d\<rparr>) k)) = memory k"
proof -
  let ?k = "upd_thread (current k) (\<lambda>th. th\<lparr>swap_data := d\<rparr>) k"
  have "sched_inv {} ?k" "can_block ?k" using assms(1,3) by (simp_all add: frame_simps can_block_def flag_ops)
  from z_pend_curr_inv [OF this assms(4), of "Some (msgq_wq q)"]
  show "sched_inv {} (z_pend_curr (Some (msgq_wq q)) n ?k)" by simp
  show "msgq_ok q (z_pend_curr (Some (msgq_wq q)) n ?k)" using assms(2,5) by (simp add: msgq_ok_def)
  show "memory (z_pend_curr (Some (msgq_wq q)) n ?k) = memory k" by (simp add: frame_simps)
qed

lemma msgq_put_step:
  assumes "sched_inv {} k" "msgq_ok q k" "msgq_apart q data" "ticks_ok n" "n \<noteq> K_NO_WAIT \<Longrightarrow> can_block k"
    "k_msgq_put data n q k = (r, q', k')"
  shows "sched_inv {} k' \<and> msgq_ok q' k' \<and> same_ring q q' \<and>
    (if r = Done 0
     then map (\<lambda>t. mem_read k' (swap_data (threads k t)) (msgq_len q)) (take 1 (wait_qs k (msgq_wq q))) @ msgq_contents q' k' =
       msgq_contents q k @ [mem_read k data (msgq_len q)]
     else msgq_contents q' k' = msgq_contents q k)"
proof (cases "used_msgs q < max_msgs q")
  case free: True
  have sh: "msgq_shape q" using assms(2) by (simp add: msgq_ok_def)
  show ?thesis
  proof (cases "wait_qs k (msgq_wq q)")
    case Nil
    with free assms(6) have r: "r = Done 0" "msgq_store data q k = (q', k')" by (auto simp: msgq_put_free)
    note st = msgq_store_appends [OF sh free assms(3) r(2)]
    have "same_ring q q'" "wait_qs k' = wait_qs k" "sched_inv {} k'" "msgq_q q' = msgq_q q"
      using r(2) assms(1) by (auto simp: msgq_store_def same_ring_def frame_simps)
    then show ?thesis using st Nil r(1) by (simp add: msgq_ok_def)
  next
    case (Cons t ts)
    from msgq_put_waiter [OF assms(1) free Cons] obtain k1 where
      e: "k_msgq_put data n q k = (Done 0, q, z_reschedule (memcpy (swap_data (threads k t)) data (msgq_len q) k1))"
      and k1: "sched_inv {} k1" "woken (msgq_wq q) t 0 k k1" by blast
    let ?m = "memcpy (swap_data (threads k t)) data (msgq_len q)"
    have r: "r = Done 0" "q' = q" "k' = z_reschedule (?m k1)" using e assms(6) by auto
    have u: "used_msgs q = 0" using free assms(2) Cons by (auto simp: msgq_ok_def)
    have m: "memory k' = memory (?m k)" using k1(2) by (simp add: r frame_simps) (simp add: memcpy_def woken_def cong: if_cong)
    then have "mem_read k' (swap_data (threads k t)) (msgq_len q) = mem_read k data (msgq_len q)"
      using mem_read_memcpy [of "swap_data (threads k t)" data "msgq_len q" k] by (simp add: mem_read_def)
    moreover have "sched_inv {} k'" using k1(1) by (simp add: r frame_simps z_reschedule_inv)
    ultimately show ?thesis using assms(2) u Cons r by (simp add: msgq_ok_def same_ring_def contents_empty)
  qed
next
  case full: False
  then have u: "used_msgs q = max_msgs q" using assms(2) by (auto simp: msgq_ok_def msgq_shape_def)
  show ?thesis
  proof (cases "n = K_NO_WAIT")
    case True
    then have "r = Done (- ENOMSG)" "q' = q" "k' = k" using assms(6) full by (auto simp: k_msgq_put_def)
    then show ?thesis using assms(1,2) by (simp add: same_ring_def ENOMSG_def)
  next
    case False
    from full False assms(6) have r: "r = Blocked" "q' = q"
      "k' = z_pend_curr (Some (msgq_wq q)) n (upd_thread (current k) (\<lambda>th. th\<lparr>swap_data := data\<rparr>) k)" by (auto simp: k_msgq_put_def)
    from msgq_block_ok [OF assms(1,2) assms(5) [OF False] assms(4), of data] u r contents_memory [of k' k q]
    show ?thesis by (simp add: same_ring_def)
  qed
qed

lemma msgq_get_step:
  assumes "sched_inv {} k" "msgq_ok q k" "msgq_apart q data"
    "\<forall>t \<in> set (wait_qs k (msgq_wq q)). msgq_apart q (swap_data (threads k t)) \<and>
       disjoint_ranges (swap_data (threads k t)) (msgq_len q) data (msgq_len q)"
    "ticks_ok n" "n \<noteq> K_NO_WAIT \<Longrightarrow> can_block k" "k_msgq_get data n q k = (r, q', k')"
  shows "sched_inv {} k' \<and> msgq_ok q' k' \<and> same_ring q q' \<and>
    (if r = Done 0
     then mem_read k' data (msgq_len q) # msgq_contents q' k' =
       msgq_contents q k @ map (\<lambda>t. mem_read k (swap_data (threads k t)) (msgq_len q)) (take 1 (wait_qs k (msgq_wq q)))
     else msgq_contents q' k' = msgq_contents q k)"
proof (cases "0 < used_msgs q")
  case avail: True
  let ?k = "memcpy data (read_ptr q) (msgq_len q) k"
    and ?q = "q\<lparr>read_ptr := msgq_advance q (read_ptr q), used_msgs := used_msgs q - 1\<rparr>"
  have sh: "msgq_shape q" using assms(2) by (simp add: msgq_ok_def)
  note tk = msgq_take_first [OF sh avail]
  have c: "msgq_contents ?q ?k = msgq_contents ?q k" using contents_memcpy_apart [OF tk(1), of data "read_ptr q" k] assms(3)
    by (simp add: msgq_apart_def)
  show ?thesis
  proof (cases "wait_qs k (msgq_wq q)")
    case Nil
    have "r = Done 0" "q' = ?q" "k' = ?k" using assms(7) msgq_get_free [OF avail Nil] by auto
    then show ?thesis using tk(1) tk(2) [of k] c Nil assms(1) by (simp add: msgq_ok_def same_ring_def frame_simps)
  next
    case (Cons t ts)
    let ?sd = "swap_data (threads k t)"
    let ?k2 = "memcpy (write_ptr q) ?sd (msgq_len q) ?k"
    from msgq_get_waiter [OF assms(1) avail Cons] obtain k1 q1 where
      e: "k_msgq_get data n q k = (Done 0, q1, z_reschedule k1)" and k1: "sched_inv {} k1" "memory k1 = memory ?k2"
      and st: "(q1, ?k2) = msgq_store ?sd ?q ?k" by blast
    have r: "r = Done 0" "q' = q1" "k' = z_reschedule k1" using e assms(7) by auto
    have ap: "msgq_apart ?q ?sd" "disjoint_ranges ?sd (msgq_len q) data (msgq_len q)" using assms(4) Cons by (auto simp: msgq_apart_def)
    note ad = msgq_store_appends [OF tk(1,4) ap(1) st [symmetric]]
    have w: "write_ptr q = msgq_slot q (unat (used_msgs q))" using sh by (simp add: msgq_shape_def)
    have mk: "mem_read k' a m = mem_read ?k2 a m" for a m using k1(2) by (simp add: r(3) mem_read_def frame_simps)
    have "mem_read ?k2 data (msgq_len q) = mem_read k (read_ptr q) (msgq_len q)"
      using slot_in_ring(1) [OF sh, of data "msgq_len q"] assms(3) by (simp add: mem_read_other w msgq_apart_def)
    moreover have "mem_read ?k ?sd (msgq_len q) = mem_read k ?sd (msgq_len q)" using ap(2) by (simp add: mem_read_other)
    moreover have "msgq_contents q' k' = msgq_contents q1 ?k2" using mk by (simp add: r(2) msgq_contents_def)
    moreover have "same_ring q q1" "unat (used_msgs q1) = unat (used_msgs q)" using st ad(3) tk(3) by (auto simp: same_ring_def msgq_store_def)
    moreover have "sched_inv {} k'" using k1(1) by (simp add: r(3) z_reschedule_inv)
    ultimately show ?thesis using tk(2) [of k] ad(1,2) c Cons r(1,2) mk assms(2)
      by (simp add: msgq_ok_def same_ring_def word_unat_eq_iff)
  qed
next
  case False
  then have u: "used_msgs q = 0" by (simp add: word_gt_0)
  show ?thesis
  proof (cases "n = K_NO_WAIT")
    case True
    then have "r = Done (- ENOMSG)" "q' = q" "k' = k" using assms(7) False by (auto simp: k_msgq_get_def)
    then show ?thesis using assms(1,2) by (simp add: same_ring_def ENOMSG_def)
  next
    case wait: False
    from False wait assms(7) have r: "r = Blocked" "q' = q"
      "k' = z_pend_curr (Some (msgq_wq q)) n (upd_thread (current k) (\<lambda>th. th\<lparr>swap_data := data\<rparr>) k)" by (auto simp: k_msgq_get_def)
    from msgq_block_ok [OF assms(1,2) assms(6) [OF wait] assms(5), of data] u r contents_memory [of k' k q]
    show ?thesis by (simp add: same_ring_def)
  qed
qed

section \<open>Histories\<close>

text \<open>A run of the queue. \<open>sent\<close> lists the messages in the order in which they were accepted (from a call of
  \<open>k_msgq_put\<close> or from a waiting writer), \<open>received\<close> those found in the buffers of the readers. Between
  two calls the rest of the system may do anything that keeps the ring and adds no waiter.\<close>

inductive msgq_run :: "k_msgq \<Rightarrow> kernel \<Rightarrow> u8 list list \<Rightarrow> u8 list list \<Rightarrow> k_msgq \<Rightarrow> kernel \<Rightarrow> bool" for q0 k0 where
  start: "msgq_run q0 k0 (msgq_contents q0 k0) [] q0 k0"
| put: "msgq_run q0 k0 sent received q k \<Longrightarrow> msgq_apart q data \<Longrightarrow> ticks_ok n \<Longrightarrow> n = K_NO_WAIT \<or> can_block k \<Longrightarrow>
    k_msgq_put data n q k = (r, q', k') \<Longrightarrow>
    msgq_run q0 k0 (sent @ (if r = Done 0 then [mem_read k data (msgq_len q)] else []))
      (received @ (if r = Done 0
        then map (\<lambda>t. mem_read k' (swap_data (threads k t)) (msgq_len q)) (take 1 (wait_qs k (msgq_wq q))) else [])) q' k'"
| get: "msgq_run q0 k0 sent received q k \<Longrightarrow> msgq_apart q data \<Longrightarrow>
    \<forall>t \<in> set (wait_qs k (msgq_wq q)). msgq_apart q (swap_data (threads k t)) \<and>
      disjoint_ranges (swap_data (threads k t)) (msgq_len q) data (msgq_len q) \<Longrightarrow>
    ticks_ok n \<Longrightarrow> n = K_NO_WAIT \<or> can_block k \<Longrightarrow> k_msgq_get data n q k = (r, q', k') \<Longrightarrow>
    msgq_run q0 k0
      (sent @ (if r = Done 0
        then map (\<lambda>t. mem_read k (swap_data (threads k t)) (msgq_len q)) (take 1 (wait_qs k (msgq_wq q))) else []))
      (received @ (if r = Done 0 then [mem_read k' data (msgq_len q)] else [])) q' k'"
| env: "msgq_run q0 k0 sent received q k \<Longrightarrow> sched_inv {} k' \<Longrightarrow> set (wait_qs k' (msgq_wq q)) \<subseteq> set (wait_qs k (msgq_wq q)) \<Longrightarrow>
    msgq_contents q k' = msgq_contents q k \<Longrightarrow> msgq_run q0 k0 sent received q k'"

lemma msgq_run_fifo:
  assumes "msgq_run q0 k0 sent received q k" "sched_inv {} k0" "msgq_ok q0 k0"
  shows "sched_inv {} k \<and> msgq_ok q k \<and> same_ring q0 q \<and> sent = received @ msgq_contents q k"
  using assms
proof (induction rule: msgq_run.induct)
  case (put sent received q k data n r q' k')
  then have i: "sched_inv {} k" "msgq_ok q k" and b: "n \<noteq> K_NO_WAIT \<Longrightarrow> can_block k" by auto
  from msgq_put_step [OF i put.hyps(2,3) b put.hyps(5)] put show ?case by (auto simp: same_ring_def split: if_splits)
next
  case (get sent received q k data n r q' k')
  then have i: "sched_inv {} k" "msgq_ok q k" and b: "n \<noteq> K_NO_WAIT \<Longrightarrow> can_block k" by auto
  from msgq_get_step [OF i get.hyps(2,3,4) b get.hyps(6)] get show ?case by (auto simp: same_ring_def split: if_splits)
next
  case (env sent received q k k')
  then show ?case by (auto simp: msgq_ok_def)
qed (simp add: same_ring_def)

section \<open>Looking at messages, initialisation\<close>

text \<open>The address \<open>k_msgq_peek_at\<close> computes in 32-bit arithmetic is the slot of the message.\<close>

lemma peek_at_slot:
  assumes "msgq_shape q" "idx < used_msgs q"
  shows "k_msgq_peek_at data idx q k = (0, memcpy data (msgq_slot q (unat idx)) (msgq_len q) k)"
proof -
  let ?n = "unat (max_msgs q)" and ?l = "msgq_len q" and ?r = "msgq_idx q"
  have i: "unat idx < ?n" using assms by (auto simp: msgq_shape_def word_le_nat_alt word_less_nat_alt)
  have r: "?r < ?n" by (rule msgq_idx_less [OF assms(1)])
  have sz: "?n * ?l < 2 ^ 32" and l: "0 < ?l" and be: "buffer_end q = buffer_start q + ?n * ?l" using assms(1) by (auto simp: msgq_shape_def)
  have rp: "read_ptr q = buffer_start q + ?r * ?l" using assms(1) r by (simp add: msgq_shape_def msgq_slot_def)
  have le: "(?n - ?r) * ?l \<le> ?n * ?l" "unat idx * ?l \<le> ?n * ?l" using i by simp_all
  then have lt: "(?n - ?r) * ?l < 2 ^ 32" "unat idx * ?l < 2 ^ 32" using sz by linarith+
  have d: "buffer_end q - read_ptr q = (?n - ?r) * ?l" using be rp by (simp add: diff_mult_distrib)
  define e where "e = (word_of_nat (buffer_end q - read_ptr q) :: u32)"
  have ue: "unat e = (?n - ?r) * ?l" using lt(1) unat_of_nat [of "(?n - ?r) * ?l", where ?'a = 32]
    unfolding e_def d by (simp del: of_nat_mult)
  have uo: "unat (idx * msg_size q) = unat idx * ?l" using lt(2) by (simp add: unat_word_ariths)
  have cmp: "e \<le> idx * msg_size q \<longleftrightarrow> ?n - ?r \<le> unat idx" using l by (simp add: word_le_nat_alt ue uo)
  have pk: "k_msgq_peek_at data idx q k = (0, memcpy data (if e \<le> idx * msg_size q then buffer_start q + unat (idx * msg_size q - e)
      else read_ptr q + unat (idx * msg_size q)) ?l k)" using assms(2) by (simp add: k_msgq_peek_at_def e_def Let_def)
  show ?thesis
  proof (cases "?n - ?r \<le> unat idx")
    case True
    then have "(?r + unat idx) mod ?n = ?r + unat idx - ?n" using r i by (simp add: le_mod_geq)
    moreover have "unat (idx * msg_size q - e) = (?r + unat idx - ?n) * ?l"
      using True cmp r by (simp add: unat_sub ue uo diff_mult_distrib [symmetric] add.commute)
    ultimately show ?thesis using True cmp by (simp add: pk msgq_slot_def)
  next
    case False
    then have "(?r + unat idx) mod ?n = ?r + unat idx" by simp
    then show ?thesis using False cmp by (simp add: pk msgq_slot_def uo rp distrib_right add.assoc)
  qed
qed

lemma msgq_init_ok:
  assumes "0 < sz" "0 < n" "unat sz * unat n < 2 ^ 32" "k_msgq_init buf sz n q k = (q', k')"
  shows "msgq_ok (q'\<lparr>msgq_flags := f\<rparr>) k'" "msgq_contents (q'\<lparr>msgq_flags := f\<rparr>) k' = []"
proof -
  have "unat (n * sz) = unat n * unat sz" using assms(3) by (simp add: unat_word_ariths mult.commute)
  then show "msgq_ok (q'\<lparr>msgq_flags := f\<rparr>) k'" "msgq_contents (q'\<lparr>msgq_flags := f\<rparr>) k' = []"
    using assms by (auto simp: k_msgq_init_def msgq_ok_def msgq_shape_def msgq_slot_def msgq_idx_def msgq_contents_def
        word_less_nat_alt mult.commute)
qed

lemma shape_flags [simp]: "msgq_shape (q\<lparr>msgq_flags := f\<rparr>) = msgq_shape q"
  by (simp add: msgq_shape_def msgq_slot_def msgq_idx_def)

section \<open>Properties\<close>

text \<open>C23: A message queue is a bounded first-in first-out channel: over any run of puts and gets, blocking or
  not, with waiting readers and writers, the messages accepted are those received, in the same order and
  byte for byte, followed by those still stored; at most \<open>max_msgs\<close> are stored.\<close>

theorem k_msgq_fifo:
  assumes "msgq_run q0 k0 sent received q k" "sched_inv {} k0" "msgq_ok q0 k0"
  shows "sent = received @ msgq_contents q k \<and> length (msgq_contents q k) \<le> unat (max_msgs q0) \<and> msgq_ok q k \<and> sched_inv {} k"
  using msgq_run_fifo [OF assms] by (auto simp: msgq_ok_def msgq_shape_def msgq_contents_def same_ring_def word_le_nat_alt)

text \<open>A queue of two messages of two bytes at address 100, with one message stored.\<close>

definition sample_msgq :: k_msgq where
  "sample_msgq = \<lparr>msgq_q = 8, msg_size = 2, max_msgs = 2, buffer_start = 100, buffer_end = 104, read_ptr = 102, write_ptr = 100,
     used_msgs = 1, msgq_flags = 0\<rparr>"

lemma sample_msgq_ok: "msgq_shape sample_msgq" "msgq_ok sample_msgq waiting_kernel" "msgq_apart sample_msgq 40"
  by (simp_all add: msgq_shape_def msgq_ok_def msgq_slot_def msgq_idx_def msgq_apart_def disjoint_ranges_def sample_msgq_def word_le_nat_alt)

theorem k_msgq_fifo_witness:
  "msgq_contents (fst (snd (k_msgq_put 40 K_NO_WAIT sample_msgq waiting_kernel))) (snd (snd (k_msgq_put 40 K_NO_WAIT sample_msgq waiting_kernel)))
     = msgq_contents sample_msgq waiting_kernel @ [mem_read waiting_kernel 40 2]"
proof -
  let ?p = "k_msgq_put 40 K_NO_WAIT sample_msgq waiting_kernel"
  have f: "fst ?p = Done 0" "wait_qs waiting_kernel (msgq_wq sample_msgq) = []"
    by (simp_all add: k_msgq_put_def unpend_none sample_msgq_def word_less_nat_alt)
  have t: "ticks_ok K_NO_WAIT" by (simp add: ticks_ok_def K_NO_WAIT_def)
  have p: "?p = (Done 0, fst (snd ?p), snd (snd ?p))" by (simp add: f(1) [symmetric])
  from msgq_run.put [OF msgq_run.start sample_msgq_ok(3) t _ p] f
  have "msgq_run sample_msgq waiting_kernel (msgq_contents sample_msgq waiting_kernel @ [mem_read waiting_kernel 40 2]) []
      (fst (snd ?p)) (snd (snd ?p))" by (simp add: sample_msgq_def)
  from k_msgq_fifo [OF this waiting_kernel_inv sample_msgq_ok(2)] show ?thesis by simp
qed

text \<open>\<open>k_msgq_peek_at\<close> copies the message at the given position, however the ring wraps and without its
  32-bit address arithmetic overflowing, and fails with \<open>-ENOMSG\<close> past the end; \<open>k_msgq_peek\<close> is the
  case of position 0. Neither changes what is stored.\<close>

theorem k_msgq_peek_nth:
  assumes "msgq_ok q k" "msgq_apart q data"
  shows "(if unat idx < length (msgq_contents q k)
     then \<exists>k'. k_msgq_peek_at data idx q k = (0, k') \<and> mem_read k' data (msgq_len q) = msgq_contents q k ! unat idx \<and>
       msgq_contents q k' = msgq_contents q k \<and> msgq_ok q k'
     else k_msgq_peek_at data idx q k = (- ENOMSG, k)) \<and> k_msgq_peek data q k = k_msgq_peek_at data 0 q k"
proof -
  have sh: "msgq_shape q" using assms(1) by (simp add: msgq_ok_def)
  have l: "length (msgq_contents q k) = unat (used_msgs q)" by (simp add: msgq_contents_def)
  have "k_msgq_peek data q k = k_msgq_peek_at data 0 q k"
  proof (cases "0 < used_msgs q")
    case True
    then show ?thesis using peek_at_slot [OF sh True, of data k] sh by (simp add: k_msgq_peek_def msgq_shape_def)
  qed (simp add: k_msgq_peek_def k_msgq_peek_at_def)
  moreover have "mem_read (memcpy data (msgq_slot q (unat idx)) (msgq_len q) k) data (msgq_len q) = msgq_contents q k ! unat idx"
    if "unat idx < unat (used_msgs q)" using that by (simp add: msgq_contents_def)
  ultimately show ?thesis using peek_at_slot [OF sh, of idx data k] contents_memcpy_apart [OF sh assms(2)] assms(1) l
    by (auto simp: word_less_nat_alt k_msgq_peek_at_def msgq_ok_def frame_simps)
qed

theorem k_msgq_peek_nth_witness:
  "\<exists>k'. k_msgq_peek_at 40 0 sample_msgq waiting_kernel = (0, k') \<and> mem_read k' 40 2 = msgq_contents sample_msgq waiting_kernel ! 0"
proof -
  have "0 < length (msgq_contents sample_msgq waiting_kernel)" "msgq_len sample_msgq = 2" by (simp_all add: msgq_contents_def sample_msgq_def)
  then show ?thesis using k_msgq_peek_nth [OF sample_msgq_ok(2,3), of 0] by auto
qed

text \<open>\<open>k_msgq_purge\<close> ends, discards every stored message and wakes every waiting thread, reader or
  writer, with \<open>-ENOMSG\<close>.\<close>

theorem k_msgq_purge_empties:
  assumes "sched_inv {} k" "msgq_ok q k"
  shows "\<exists>q' k1. k_msgq_purge q k = Some (q', if wait_qs k (ObjQ (msgq_q q)) \<noteq> [] then z_reschedule k1 else k1) \<and>
     sched_inv {} k1 \<and> msgq_ok q' k1 \<and> msgq_contents q' k1 = [] \<and> same_ring q q' \<and>
     wait_qs k1 = (wait_qs k)(ObjQ (msgq_q q) := []) \<and>
     (\<forall>t \<in> set (wait_qs k (ObjQ (msgq_q q))). swap_retval (threads k1 t) = - ENOMSG \<and> pended_on (threads k1 t) = None)"
proof -
  let ?q = "q\<lparr>used_msgs := 0, read_ptr := write_ptr q\<rparr>"
  from wake_loop_returns [OF assms(1)] obtain k1 where
    k1: "wake_loop (wake_with (- ENOMSG)) (msgq_wq q) k = Some k1" "sched_inv {} k1" "all_woken (msgq_wq q) (- ENOMSG) k k1" by blast
  have sh: "msgq_shape q" using assms(2) by (simp add: msgq_ok_def)
  then have w: "write_ptr q = msgq_slot q (unat (used_msgs q))" by (simp add: msgq_shape_def)
  have "msgq_idx ?q = (msgq_idx q + unat (used_msgs q)) mod unat (max_msgs q)"
    using idx_of_slot [OF sh, of "unat (used_msgs q)"] by (simp add: msgq_idx_def w)
  then have "msgq_slot ?q 0 = write_ptr q" by (simp add: msgq_slot_def w)
  then have "msgq_shape ?q" using sh by (simp add: msgq_shape_def)
  then show ?thesis using k1
    by (intro exI [of _ ?q] exI [of _ k1]) (simp add: k_msgq_purge_def msgq_ok_def same_ring_def all_woken_def contents_empty)
qed

theorem k_msgq_purge_empties_witness:
  "\<exists>q' k1. k_msgq_purge (sample_msgq\<lparr>msgq_q := 7, used_msgs := 2, write_ptr := 102\<rparr>) waiting_kernel = Some (q', z_reschedule k1) \<and>
     swap_retval (threads k1 4) = - ENOMSG"
proof -
  let ?q = "sample_msgq\<lparr>msgq_q := 7, used_msgs := 2, write_ptr := 102\<rparr>"
  have "msgq_ok ?q waiting_kernel"
    by (simp add: msgq_shape_def msgq_ok_def msgq_slot_def msgq_idx_def sample_msgq_def word_le_nat_alt)
  from k_msgq_purge_empties [OF waiting_kernel_inv this] show ?thesis by auto
qed



end
