(* ===== verification/Kstack.thy ===== *)
theory Kstack
  imports Kernel_Memory
begin

text \<open>
  Stacks of words (\<open>kernel/stack.c\<close>). The pointers \<open>base\<close>, \<open>next\<close> and \<open>top\<close> point to \<open>stack_data_t\<close>
  entries and are counted in entries; \<open>stack_cells\<close> is the buffer they point into. A thread that waits in
  \<open>k_stack_pop\<close> continues with \<open>k_stack_pop_resume\<close>.
\<close>

section \<open>Operations\<close>

record k_stack =
  stack_q :: nat
  stack_base :: addr
  stack_next :: addr
  stack_top :: addr
  stack_flags :: u8
  stack_cells :: "addr \<Rightarrow> nat"

abbreviation stack_wq :: "k_stack \<Rightarrow> wqid" where
  "stack_wq s \<equiv> ObjQ (stack_q s)"

definition K_STACK_FLAG_ALLOC :: u8 where "K_STACK_FLAG_ALLOC = 1"

definition k_stack_init :: "addr \<Rightarrow> u32 \<Rightarrow> k_stack \<Rightarrow> kernel \<Rightarrow> k_stack \<times> kernel" where
  "k_stack_init buffer num_entries s k =
     (s\<lparr>stack_next := buffer, stack_base := buffer, stack_top := buffer + unat num_entries\<rparr>, k\<lparr>wait_qs := (wait_qs k)(stack_wq s := [])\<rparr>)"

text \<open>\<open>malloc\<close> is \<open>z_thread_malloc\<close> at the time of the call, from a number of bytes; \<open>sizeof(stack_data_t)\<close> is 4.\<close>

definition k_stack_alloc_init :: "(u32 \<Rightarrow> addr option) \<Rightarrow> u32 \<Rightarrow> k_stack \<Rightarrow> kernel \<Rightarrow> int \<times> k_stack \<times> kernel" where
  "k_stack_alloc_init malloc num_entries s k =
     (case malloc (num_entries * 4) of
        Some buffer \<Rightarrow> let (s1, k1) = k_stack_init buffer num_entries s k in (0, s1\<lparr>stack_flags := K_STACK_FLAG_ALLOC\<rparr>, k1)
      | None \<Rightarrow> (- ENOMEM, s, k))"

text \<open>The second component is the argument of the call of \<open>k_free\<close>, if there is one.\<close>

definition k_stack_cleanup :: "k_stack \<Rightarrow> kernel \<Rightarrow> int \<times> addr option \<times> k_stack" where
  "k_stack_cleanup s k =
     (if z_waitq_head (stack_wq s) k \<noteq> None then (- EAGAIN, None, s)
      else if stack_flags s AND K_STACK_FLAG_ALLOC \<noteq> 0
      then (0, Some (stack_base s), s\<lparr>stack_base := 0, stack_flags := stack_flags s AND NOT K_STACK_FLAG_ALLOC\<rparr>)
      else (0, None, s))"

definition k_stack_push :: "nat \<Rightarrow> k_stack \<Rightarrow> kernel \<Rightarrow> int \<times> k_stack \<times> kernel" where
  "k_stack_push data s k =
     (if stack_next s = stack_top s then (- ENOMEM, s, k)
      else case z_unpend_first_thread (stack_wq s) k of
             (Some t, k1) \<Rightarrow> (0, s, z_reschedule (wake_data 0 data t k1))
           | (None, k1) \<Rightarrow> (0, s\<lparr>stack_cells := (stack_cells s)(stack_next s := data), stack_next := stack_next s + 1\<rparr>, k1))"

text \<open>A result comes with the value stored in \<open>*data\<close>.\<close>

definition k_stack_pop :: "k_timeout \<Rightarrow> k_stack \<Rightarrow> kernel \<Rightarrow> (int \<times> nat option) outcome \<times> k_stack \<times> kernel" where
  "k_stack_pop timeout s k =
     (if stack_next s > stack_base s
      then let s1 = s\<lparr>stack_next := stack_next s - 1\<rparr> in (Done (0, Some (stack_cells s1 (stack_next s1))), s1, k)
      else if timeout = K_NO_WAIT then (Done (- EBUSY, None), s, k)
      else (Blocked, s, z_pend_curr (Some (stack_wq s)) timeout k))"

definition k_stack_pop_resume :: "kernel \<Rightarrow> int \<times> nat option" where
  "k_stack_pop_resume k =
     (if swap_retval (threads k (current k)) = - EAGAIN then (- EAGAIN, None)
      else (0, Some (swap_data (threads k (current k)))))"

section \<open>The stack as a list\<close>

definition stack_ok :: "k_stack \<Rightarrow> kernel \<Rightarrow> bool" where
  "stack_ok s k \<longleftrightarrow> stack_base s \<le> stack_next s \<and> stack_next s \<le> stack_top s \<and> (wait_qs k (stack_wq s) \<noteq> [] \<longrightarrow> stack_next s = stack_base s)"

text \<open>Newest entry first.\<close>

definition stack_contents :: "k_stack \<Rightarrow> nat list" where
  "stack_contents s = rev (map (stack_cells s) [stack_base s ..< stack_next s])"

datatype stack_event = Pushed nat | Handed tid nat | Popped nat

text \<open>The contract: a last-in first-out list; an entry is handed to a waiting thread only when it is empty.\<close>

fun lifo :: "nat list \<Rightarrow> stack_event list \<Rightarrow> nat list option" where
  "lifo xs [] = Some xs"
| "lifo xs (Pushed d # es) = lifo (d # xs) es"
| "lifo xs (Handed t d # es) = (if xs = [] then lifo xs es else None)"
| "lifo xs (Popped d # es) = (case xs of [] \<Rightarrow> None | x # ys \<Rightarrow> if x = d then lifo ys es else None)"

lemma lifo_append: "lifo xs (es @ fs) = Option.bind (lifo xs es) (\<lambda>ys. lifo ys fs)"
  by (induction xs es rule: lifo.induct) (auto split: list.splits)

lemma stack_push_free:
  assumes "stack_ok s k" "stack_next s \<noteq> stack_top s" "wait_qs k (stack_wq s) = []" "k_stack_push d s k = (r, s', k')"
  shows "r = 0" "k' = k" "stack_ok s' k'" "stack_contents s' = d # stack_contents s" "stack_q s' = stack_q s"
    "stack_base s' = stack_base s" "stack_top s' = stack_top s"
proof -
  have e: "r = 0" "k' = k" "s' = s\<lparr>stack_cells := (stack_cells s)(stack_next s := d), stack_next := stack_next s + 1\<rparr>"
    using assms by (auto simp: k_stack_push_def z_unpend_first_thread_def z_priq_dumb_best_def)
  then show "r = 0" "k' = k" "stack_ok s' k'" "stack_q s' = stack_q s" "stack_base s' = stack_base s" "stack_top s' = stack_top s"
    using assms by (auto simp: stack_ok_def)
  show "stack_contents s' = d # stack_contents s" using assms(1) by (simp add: e stack_contents_def stack_ok_def)
qed

lemma stack_push_waiter:
  assumes "sched_inv {} k" "stack_ok s k" "stack_next s \<noteq> stack_top s" "wait_qs k (stack_wq s) = t # ts"
  obtains k1 where "k_stack_push d s k = (0, s, z_reschedule k1)" "sched_inv {} k1" "woken (stack_wq s) t 0 k k1"
    "swap_data (threads k1 t) = d"
proof -
  obtain k1 where u: "z_unpend_first_thread (stack_wq s) k = (Some t, k1)"
    using assms(4) by (simp add: z_unpend_first_thread_def z_priq_dumb_best_def)
  show thesis using that [of "wake_data 0 d t k1"] wake_first(3,4,5) [OF assms(1) u] assms(3) by (simp add: k_stack_push_def u)
qed

lemma stack_pop_some:
  assumes "stack_ok s k" "stack_next s > stack_base s" "k_stack_pop n s k = (r, s', k')"
  shows "\<exists>d. r = Done (0, Some d) \<and> stack_contents s = d # stack_contents s'" "k' = k" "stack_ok s' k'" "stack_q s' = stack_q s"
    "stack_base s' = stack_base s" "stack_top s' = stack_top s"
proof -
  have e: "r = Done (0, Some (stack_cells s (stack_next s - 1)))" "k' = k" "s' = s\<lparr>stack_next := stack_next s - 1\<rparr>"
    using assms by (auto simp: k_stack_pop_def)
  have "[stack_base s ..< stack_next s] = [stack_base s ..< stack_next s - 1] @ [stack_next s - 1]" using assms(2) by (cases "stack_next s") auto
  then have "stack_contents s = stack_cells s (stack_next s - 1) # stack_contents s'" by (simp add: e stack_contents_def)
  then show "\<exists>d. r = Done (0, Some d) \<and> stack_contents s = d # stack_contents s'" using e by blast
  show "k' = k" "stack_ok s' k'" "stack_q s' = stack_q s" "stack_base s' = stack_base s" "stack_top s' = stack_top s"
    using assms(1,2) by (auto simp: e stack_ok_def)
qed

section \<open>Histories\<close>

text \<open>A run with the events it shows: entries pushed, handed to a waiting thread, and popped at once.\<close>

inductive stack_run :: "k_stack \<Rightarrow> kernel \<Rightarrow> stack_event list \<Rightarrow> k_stack \<Rightarrow> kernel \<Rightarrow> bool" for s0 k0 where
  start: "stack_run s0 k0 [] s0 k0"
| push: "stack_run s0 k0 es s k \<Longrightarrow> k_stack_push d s k = (r, s', k') \<Longrightarrow>
    stack_run s0 k0 (es @ (if r \<noteq> 0 then [] else case wait_qs k (stack_wq s) of [] \<Rightarrow> [Pushed d] | t # _ \<Rightarrow> [Handed t d])) s' k'"
| pop: "stack_run s0 k0 es s k \<Longrightarrow> ticks_ok n \<Longrightarrow> n = K_NO_WAIT \<or> can_block k \<Longrightarrow> k_stack_pop n s k = (r, s', k') \<Longrightarrow>
    stack_run s0 k0 (es @ (case r of Done (_, Some d) \<Rightarrow> [Popped d] | _ \<Rightarrow> [])) s' k'"
| env: "stack_run s0 k0 es s k \<Longrightarrow> sched_inv {} k' \<Longrightarrow> set (wait_qs k' (stack_wq s)) \<subseteq> set (wait_qs k (stack_wq s)) \<Longrightarrow>
    stack_run s0 k0 es s k'"

lemma stack_run_lifo:
  assumes "stack_run s0 k0 es s k" "sched_inv {} k0" "stack_ok s0 k0"
  shows "sched_inv {} k \<and> stack_ok s k \<and> stack_base s = stack_base s0 \<and> stack_top s = stack_top s0 \<and> lifo (stack_contents s0) es = Some (stack_contents s)"
  using assms
proof (induction rule: stack_run.induct)
  case (push es s k d r s' k')
  then have i: "sched_inv {} k" "stack_ok s k" by auto
  consider "stack_next s = stack_top s" | (free) "stack_next s \<noteq> stack_top s" "wait_qs k (stack_wq s) = []"
    | (waiter) t ts where "stack_next s \<noteq> stack_top s" "wait_qs k (stack_wq s) = t # ts" by (cases "wait_qs k (stack_wq s)") auto
  then show ?case
  proof cases
    case 1
    then show ?thesis using push by (auto simp: k_stack_push_def ENOMEM_def)
  next
    case free
    note p = stack_push_free [OF i(2) free push.hyps(2)]
    then show ?thesis using push free by (auto simp: lifo_append)
  next
    case waiter
    from stack_push_waiter [OF i waiter, of d] obtain k1 where
      k1: "k_stack_push d s k = (0, s, z_reschedule k1)" "sched_inv {} k1" by blast
    have "stack_next s = stack_base s" using i(2) waiter(2) by (auto simp: stack_ok_def)
    then have "stack_contents s = []" by (simp add: stack_contents_def)
    with k1 push waiter i(2) \<open>stack_next s = stack_base s\<close> show ?thesis by (auto simp: lifo_append stack_ok_def z_reschedule_inv)
  qed
next
  case (pop es s k n r s' k')
  then have i: "sched_inv {} k" "stack_ok s k" by auto
  show ?case
  proof (cases "stack_next s > stack_base s")
    case True
    from stack_pop_some [OF i(2) True pop.hyps(4)] pop show ?thesis by (auto simp: lifo_append)
  next
    case False
    then have "stack_next s = stack_base s" using i(2) by (simp add: stack_ok_def)
    moreover have "sched_inv {} (z_pend_curr (Some (stack_wq s)) n k)" if "n \<noteq> K_NO_WAIT"
      using z_pend_curr_inv [OF i(1) _ pop.hyps(2), of "Some (stack_wq s)"] that pop.hyps(3) by auto
    ultimately show ?thesis using pop False i by (auto simp: k_stack_pop_def stack_ok_def split: if_splits)
  qed
next
  case (env es s k k')
  then show ?case by (auto simp: stack_ok_def)
qed simp

section \<open>Properties\<close>


text \<open>A stack of two entries at address 100.\<close>

definition sample_stack :: "nat \<Rightarrow> k_stack" where
  "sample_stack n = \<lparr>stack_q = n, stack_base = 100, stack_next = 100, stack_top = 102, stack_flags = 0, stack_cells = (\<lambda>_. 0)\<rparr>"

lemma sample_stack_ok: "stack_ok (sample_stack n) waiting_kernel"
  by (simp add: stack_ok_def sample_stack_def)


text \<open>\<open>k_stack_push\<close> with a waiting thread hands it the value: when that thread runs again its
  \<open>k_stack_pop\<close> returns 0 and the pushed value, and the best ready thread runs after the push.\<close>

theorem k_stack_push_hands_over:
  assumes "sched_inv {} k" "stack_ok s k" "stack_next s \<noteq> stack_top s" "wait_qs k (ObjQ (stack_q s)) = t # ts"
    "z_is_thread_ready (threads k (current k))"
  shows "\<exists>k'. k_stack_push d s k = (0, s, k') \<and> sched_inv {} k' \<and> runs_best k' \<and> wait_qs k' (ObjQ (stack_q s)) = ts \<and>
     swap_retval (threads k' t) = 0 \<and> k_stack_pop_resume (k'\<lparr>current := t\<rparr>) = (0, Some d)"
proof -
  from stack_push_waiter [OF assms(1-4), of d] obtain k1 where
    k1: "k_stack_push d s k = (0, s, z_reschedule k1)" "sched_inv {} k1" "woken (stack_wq s) t 0 k k1" "swap_data (threads k1 t) = d" by blast
  have "t \<noteq> current k1" using woken_not_current [OF k1(3) assms(1,5)] k1(3) by (simp add: woken_def)
  then have th: "threads (z_reschedule k1) t = threads k1 t" by (simp add: frame_simps)
  have "wait_qs k1 (stack_wq s) = ts" "swap_retval (threads k1 t) = 0" using k1(3) assms(4) by (auto simp: woken_def dest: fun_cong [of _ _ "stack_wq s"])
  with k1 th show ?thesis
    by (intro exI [of _ "z_reschedule k1"]) (simp add: frame_simps z_reschedule_inv z_reschedule_runs_best k_stack_pop_resume_def EAGAIN_def)
qed

theorem k_stack_push_hands_over_witness:
  "\<exists>k'. k_stack_push 42 (sample_stack 7) waiting_kernel = (0, sample_stack 7, k') \<and> k_stack_pop_resume (k'\<lparr>current := 3\<rparr>) = (0, Some 42)"
  using k_stack_push_hands_over [OF waiting_kernel_inv sample_stack_ok, of 7 3 "[4]" 42] waiting_kernel_can_block(1)
  by (auto simp: sample_stack_def can_block_def)

text \<open>\<open>k_stack_alloc_init\<close> computes the size of the buffer modulo \<open>2^32\<close> bytes: it asks the allocator for
  enough memory just when the stack takes less than \<open>2^32\<close> bytes, and otherwise sets up a stack that
  reaches past the memory it was given.\<close>

theorem k_stack_alloc_size:
  assumes "malloc (num_entries * 4) = Some b" "k_stack_alloc_init malloc num_entries s k = (r, s', k')"
  shows "r = 0 \<and> stack_ok s' k' \<and> stack_contents s' = [] \<and> stack_top s' - stack_base s' = unat num_entries \<and>
     (unat (num_entries * 4) = 4 * (stack_top s' - stack_base s') \<longleftrightarrow> 4 * unat num_entries < 2 ^ 32)"
proof -
  have "unat (num_entries * 4) = 4 * unat num_entries mod 2 ^ 32" by (simp add: unat_word_ariths mult.commute)
  then have "unat (num_entries * 4) = 4 * unat num_entries \<longleftrightarrow> 4 * unat num_entries < 2 ^ 32"
    by (metis mod_less mod_less_divisor zero_less_numeral zero_less_power)
  then show ?thesis using assms by (auto simp: k_stack_alloc_init_def k_stack_init_def stack_ok_def stack_contents_def)
qed

theorem k_stack_alloc_size_witness:
  "\<exists>s' k'. k_stack_alloc_init (\<lambda>n. if n = 0 then Some 500 else None) (2 ^ 30) (sample_stack 8) waiting_kernel = (0, s', k') \<and>
     stack_top s' - stack_base s' = 2 ^ 30"
proof -
  obtain r s' k' where "k_stack_alloc_init (\<lambda>n. if n = 0 then Some 500 else None) (2 ^ 30) (sample_stack 8) waiting_kernel = (r, s', k')"
    using prod_cases3 by blast
  from this k_stack_alloc_size [OF _ this, of 500] show ?thesis by simp
qed

text \<open>C35: \<open>k_stack_init\<close> leaves the allocation flag as it finds it, so a later \<open>k_stack_cleanup\<close> frees the
  caller's own buffer whenever that bit was set in the memory of the stack object.\<close>

theorem k_stack_init_keeps_flag:
  assumes "k_stack_init buffer n s k = (s', k')"
  shows "k_stack_cleanup s' k' = (if stack_flags s AND K_STACK_FLAG_ALLOC = 0 then (0, None, s')
     else (0, Some buffer, s'\<lparr>stack_base := 0, stack_flags := stack_flags s AND NOT K_STACK_FLAG_ALLOC\<rparr>))"
  using assms by (auto simp: k_stack_init_def k_stack_cleanup_def z_waitq_head_def z_priq_dumb_best_def)

theorem k_stack_init_keeps_flag_witness:
  "fst (snd (k_stack_cleanup (fst (k_stack_init 500 4 ((sample_stack 8)\<lparr>stack_flags := 255\<rparr>) waiting_kernel))
     (snd (k_stack_init 500 4 ((sample_stack 8)\<lparr>stack_flags := 255\<rparr>) waiting_kernel)))) = Some 500"
  using k_stack_init_keeps_flag [of 500 4 "(sample_stack 8)\<lparr>stack_flags := 255\<rparr>" waiting_kernel] by (simp add: K_STACK_FLAG_ALLOC_def)

end
