(* ===== verification/Mem_Slab.thy ===== *)
theory Mem_Slab
  imports Kernel_Memory
begin

text \<open>
  Memory slabs (\<open>kernel/mem_slab.c\<close>): blocks of one size, the free ones linked through their first word.
  Pointers are 32-bit words, so the address arithmetic of the code wraps as it does on the machine;
  \<open>links\<close> is the memory the blocks lie in, by words. Pointer validation and the utilisation trace are
  enabled. A thread that waits in \<open>k_mem_slab_alloc\<close> continues with \<open>k_mem_slab_alloc_resume\<close>.
\<close>

section \<open>Operations\<close>

record k_mem_slab =
  slab_q :: nat
  slab_buffer :: u32
  free_list :: u32
  num_blocks :: u32
  block_size :: u32
  num_used :: u32
  max_used :: u32
  links :: "u32 \<Rightarrow> u32"

record sys_memory_stats =
  free_bytes :: u32
  allocated_bytes :: u32
  max_allocated_bytes :: u32

abbreviation slab_wq :: "k_mem_slab \<Rightarrow> wqid" where
  "slab_wq s \<equiv> ObjQ (slab_q s)"

text \<open>The loop of \<open>create_free_list\<close>; \<open>None\<close> is a loop that does not end.\<close>

partial_function (option) free_list_loop ::
  "u32 \<Rightarrow> u32 \<Rightarrow> u32 \<Rightarrow> u32 \<Rightarrow> (u32 \<Rightarrow> u32) \<Rightarrow> (u32 \<times> (u32 \<Rightarrow> u32)) option" where
  "free_list_loop buf bs p fl m =
     (if p \<ge> buf then free_list_loop buf bs (p - bs) p (m(p := fl)) else Some (fl, m))"

definition create_free_list :: "k_mem_slab \<Rightarrow> (int \<times> k_mem_slab) option" where
  "create_free_list s =
     (if (block_size s OR slab_buffer s) AND (4 - 1) \<noteq> 0 then Some (- EINVAL, s)
      else map_option (\<lambda>(fl, m). (0, s\<lparr>free_list := fl, links := m\<rparr>))
        (free_list_loop (slab_buffer s) (block_size s) (slab_buffer s + block_size s * (num_blocks s - 1)) 0 (links s)))"

definition k_mem_slab_init :: "u32 \<Rightarrow> u32 \<Rightarrow> u32 \<Rightarrow> k_mem_slab \<Rightarrow> kernel \<Rightarrow> (int \<times> k_mem_slab \<times> kernel) option" where
  "k_mem_slab_init buf bs n s k =
     map_option (\<lambda>(rc, s1). if rc < 0 then (rc, s1, k) else (rc, s1, k\<lparr>wait_qs := (wait_qs k)(slab_wq s := [])\<rparr>))
       (create_free_list (s\<lparr>num_blocks := n, block_size := bs, slab_buffer := buf, num_used := 0, max_used := 0\<rparr>))"

text \<open>\<open>offset\<close> is a signed difference; its comparison with the unsigned size is unsigned.\<close>

definition slab_ptr_is_good :: "k_mem_slab \<Rightarrow> u32 \<Rightarrow> bool" where
  "slab_ptr_is_good s p =
     (let offset = p - slab_buffer s
      in 0 \<le> sint offset \<and> offset < block_size s * num_blocks s \<and> offset mod block_size s = 0)"

text \<open>A result comes with the pointer stored in \<open>*mem\<close>.\<close>

definition k_mem_slab_alloc :: "k_timeout \<Rightarrow> k_mem_slab \<Rightarrow> kernel \<Rightarrow> (int \<times> u32) outcome \<times> k_mem_slab \<times> kernel" where
  "k_mem_slab_alloc timeout s k =
     (if free_list s \<noteq> 0
      then let n = num_used s + 1
           in (Done (0, free_list s), s\<lparr>free_list := links s (free_list s), num_used := n, max_used := max n (max_used s)\<rparr>, k)
      else if timeout = K_NO_WAIT then (Done (- ENOMEM, 0), s, k)
      else (Blocked, s, z_pend_curr (Some (slab_wq s)) timeout k))"

definition k_mem_slab_alloc_resume :: "kernel \<Rightarrow> int \<times> u32 option" where
  "k_mem_slab_alloc_resume k =
     (let result = swap_retval (threads k (current k))
      in (result, if result = 0 then Some (word_of_nat (swap_data (threads k (current k)))) else None))"

definition slab_push :: "u32 \<Rightarrow> k_mem_slab \<Rightarrow> k_mem_slab" where
  "slab_push mem s = s\<lparr>links := (links s)(mem := free_list s), free_list := mem, num_used := num_used s - 1\<rparr>"

definition k_mem_slab_free :: "u32 \<Rightarrow> k_mem_slab \<Rightarrow> kernel \<Rightarrow> k_mem_slab \<times> kernel" where
  "k_mem_slab_free mem s k =
     (if \<not> slab_ptr_is_good s mem then (s, k_panic k)
      else if free_list s = 0
      then (case z_unpend_first_thread (slab_wq s) k of
              (Some t, k1) \<Rightarrow> (s, z_reschedule (wake_data 0 (unat mem) t k1))
            | (None, k1) \<Rightarrow> (slab_push mem s, k1))
      else (slab_push mem s, k))"

definition k_mem_slab_runtime_stats_get :: "k_mem_slab \<Rightarrow> sys_memory_stats" where
  "k_mem_slab_runtime_stats_get s =
     \<lparr>free_bytes = (num_blocks s - num_used s) * block_size s, allocated_bytes = num_used s * block_size s,
      max_allocated_bytes = max_used s * block_size s\<rparr>"

definition k_mem_slab_runtime_stats_reset_max :: "k_mem_slab \<Rightarrow> k_mem_slab" where
  "k_mem_slab_runtime_stats_reset_max s = s\<lparr>max_used := num_used s\<rparr>"

definition k_mem_slab_num_used_get :: "k_mem_slab \<Rightarrow> u32" where
  "k_mem_slab_num_used_get s = num_used s"

definition k_mem_slab_max_used_get :: "k_mem_slab \<Rightarrow> u32" where
  "k_mem_slab_max_used_get s = max_used s"

definition k_mem_slab_num_free_get :: "k_mem_slab \<Rightarrow> u32" where
  "k_mem_slab_num_free_get s = num_blocks s - num_used s"

section \<open>Blocks and the free list\<close>

text \<open>The buffer lies above one block size and does not wrap around the address space.\<close>

definition slab_fits :: "u32 \<Rightarrow> u32 \<Rightarrow> u32 \<Rightarrow> bool" where
  "slab_fits buf bs n \<longleftrightarrow> 0 < unat bs \<and> unat bs \<le> unat buf \<and> 0 < unat n \<and> unat buf + unat n * unat bs \<le> 2 ^ 32 \<and>
     unat n * unat bs < 2 ^ 31"

definition block :: "u32 \<Rightarrow> u32 \<Rightarrow> nat \<Rightarrow> u32" where
  "block buf bs i = buf + word_of_nat i * bs"

definition blocks :: "k_mem_slab \<Rightarrow> u32 set" where
  "blocks s = block (slab_buffer s) (block_size s) ` {0 ..< unat (num_blocks s)}"

fun linked :: "(u32 \<Rightarrow> u32) \<Rightarrow> u32 \<Rightarrow> u32 list \<Rightarrow> bool" where
  "linked m p [] = (p = 0)"
| "linked m p (x # xs) = (p = x \<and> x \<noteq> 0 \<and> linked m (m x) xs)"

lemma linked_cong: "\<forall>x \<in> set xs. m x = m' x \<Longrightarrow> linked m p xs = linked m' p xs"
  by (induction xs arbitrary: p) auto

lemma linked_other [simp]: "x \<notin> set xs \<Longrightarrow> linked (m(x := y)) p xs = linked m p xs"
  by (rule linked_cong) auto

lemma linked_Nil: "linked m 0 xs = (xs = [])"
  by (cases xs) auto

lemma unat_block:
  assumes "slab_fits buf bs n" "i < unat n"
  shows "unat (block buf bs i) = unat buf + i * unat bs"
proof -
  have "i * unat bs + unat bs \<le> unat n * unat bs" using assms(2) by (metis Suc_leI add.commute mult_Suc mult_le_mono1)
  then have l: "unat buf + i * unat bs < 2 ^ 32" using assms(1) by (auto simp: slab_fits_def)
  moreover have "i < 2 ^ 32" by (rule u32_below [OF assms(2)])
  ultimately show ?thesis by (simp add: block_def unat_word_ariths unat_of_nat mod_simps)
qed

lemma block_inj: "slab_fits buf bs n \<Longrightarrow> inj_on (block buf bs) {0 ..< unat n}"
  by (rule inj_onI) (metis unat_block add_left_cancel atLeastLessThan_iff mult_cancel2 not_gr_zero slab_fits_def)

lemma block_nonzero: "slab_fits buf bs n \<Longrightarrow> i < unat n \<Longrightarrow> block buf bs i \<noteq> 0"
  using unat_block [of buf bs n i] by (auto simp: slab_fits_def)

text \<open>Pointer validation accepts exactly the blocks.\<close>

lemma ptr_is_good_blocks:
  assumes "slab_fits (slab_buffer s) (block_size s) (num_blocks s)"
  shows "slab_ptr_is_good s p \<longleftrightarrow> p \<in> blocks s"
proof -
  let ?b = "slab_buffer s" and ?bs = "block_size s" and ?n = "num_blocks s"
  have f: "0 < unat ?bs" "unat ?n * unat ?bs < 2 ^ 31" using assms by (auto simp: slab_fits_def)
  have f3: "unat ?n * unat ?bs < 2 ^ 32" using f(2) by (rule less_trans) simp
  have sz: "unat (?bs * ?n) = unat ?n * unat ?bs" using f by (simp add: unat_word_ariths mult.commute)
  show ?thesis
  proof
    assume g: "slab_ptr_is_good s p"
    define i where "i = unat (p - ?b) div unat ?bs"
    have a: "unat (p - ?b) < unat ?n * unat ?bs" "unat (p - ?b) mod unat ?bs = 0"
      using g sz by (auto simp: slab_ptr_is_good_def Let_def word_less_nat_alt word_unat_eq_iff unat_mod)
    then have i: "i < unat ?n" "unat (p - ?b) = i * unat ?bs" using a f(1) by (auto simp: i_def div_less_iff_less_mult)
    have "i < 2 ^ 32" by (rule u32_below [OF i(1)])
    moreover have "i * unat ?bs < 2 ^ 32" using a(1) unfolding i(2) using f3 by linarith
    ultimately have "unat (word_of_nat i * ?bs) = i * unat ?bs" by (simp add: unat_word_ariths unat_of_nat mod_simps)
    then have "p - ?b = word_of_nat i * ?bs" using i(2) by (simp add: word_unat_eq_iff)
    then have "p = block ?b ?bs i" by (simp add: block_def algebra_simps)
    then show "p \<in> blocks s" using i(1) by (auto simp: blocks_def)
  next
    assume "p \<in> blocks s"
    then obtain i where i: "i < unat ?n" "p = block ?b ?bs i" by (auto simp: blocks_def)
    have le: "i * unat ?bs < unat ?n * unat ?bs" using i(1) f(1) by simp
    have "i < 2 ^ 32" by (rule u32_below [OF i(1)])
    moreover have "i * unat ?bs < 2 ^ 32" using le f3 by linarith
    ultimately have u: "unat (p - ?b) = i * unat ?bs" by (simp add: i(2) block_def unat_word_ariths unat_of_nat mod_simps)
    have "unat (p - ?b) < 2 ^ 31" using u le f(2) by linarith
    then have "int (unat (p - ?b)) < int (2 ^ 31)" by (simp only: of_nat_less_iff)
    then have "uint (p - ?b) < 2 ^ 31" by simp
    then have "sint (p - ?b) = uint (p - ?b)" by (auto simp: sint_uint signed_take_bit_int_eq_self_iff intro!: order_trans [OF _ unsigned_greater_eq])
    then have "0 \<le> sint (p - ?b)" by simp
    then show "slab_ptr_is_good s p" using u le sz
      by (simp add: slab_ptr_is_good_def Let_def word_less_nat_alt word_unat_eq_iff unat_mod)
  qed
qed

text \<open>The loop of \<open>create_free_list\<close> links the blocks in address order.\<close>

lemma free_list_loop_links:
  assumes "slab_fits buf bs n" "i \<le> unat n" "linked m fl (map (block buf bs) [i ..< unat n])"
  shows "\<exists>fl' m'. free_list_loop buf bs (block buf bs i - bs) fl m = Some (fl', m') \<and> linked m' fl' (map (block buf bs) [0 ..< unat n])"
  using assms(2,3)
proof (induction i arbitrary: fl m)
  case 0
  have "unat (buf - bs) < unat buf" using assms(1) by (simp add: slab_fits_def unat_sub word_le_nat_alt)
  then have "\<not> block buf bs 0 - bs \<ge> buf" by (simp add: block_def word_le_nat_alt)
  then show ?case using 0 by (subst free_list_loop.simps) simp
next
  case (Suc i)
  have p: "block buf bs (Suc i) - bs = block buf bs i" by (simp add: block_def algebra_simps)
  have ge: "block buf bs i \<ge> buf" using unat_block [OF assms(1), of i] Suc.prems(1) by (simp add: word_le_nat_alt)
  have "block buf bs i \<notin> block buf bs ` {Suc i ..< unat n}"
    using block_inj [OF assms(1)] Suc.prems(1) by (auto dest: inj_onD)
  then have "linked (m(block buf bs i := fl)) (block buf bs i) (map (block buf bs) [i ..< unat n])"
    using Suc.prems block_nonzero [OF assms(1), of i] by (simp add: upt_conv_Cons [of i])
  note r = Suc.IH [OF Suc_leD [OF Suc.prems(1)] this]
  have "free_list_loop buf bs (block buf bs (Suc i) - bs) fl m =
      free_list_loop buf bs (block buf bs i - bs) (block buf bs i) (m(block buf bs i := fl))"
    using ge by (subst free_list_loop.simps) (simp only: p if_True)
  with r show ?case by metis
qed

section \<open>Invariant and histories\<close>

text \<open>\<open>held\<close> are the blocks the application has, \<open>fs\<close> the free ones; threads wait only when none is free.\<close>

definition slab_ok :: "k_mem_slab \<Rightarrow> kernel \<Rightarrow> u32 list \<Rightarrow> u32 list \<Rightarrow> bool" where
  "slab_ok s k held fs \<longleftrightarrow> slab_fits (slab_buffer s) (block_size s) (num_blocks s) \<and> linked (links s) (free_list s) fs \<and>
     distinct (held @ fs) \<and> set (held @ fs) = blocks s \<and> unat (num_used s) = length held \<and>
     num_used s \<le> max_used s \<and> max_used s \<le> num_blocks s \<and> (wait_qs k (slab_wq s) \<noteq> [] \<longrightarrow> fs = [])"

lemma card_blocks: "slab_fits (slab_buffer s) (block_size s) (num_blocks s) \<Longrightarrow> card (blocks s) = unat (num_blocks s)"
  using card_image [OF block_inj, of "slab_buffer s" "block_size s" "num_blocks s"] by (simp add: blocks_def)

lemma slab_count: "slab_ok s k held fs \<Longrightarrow> length held + length fs = unat (num_blocks s)"
  using card_blocks [of s] distinct_card [of "held @ fs"] by (simp add: slab_ok_def)

lemma slab_ok_full: "slab_ok s k held [] \<Longrightarrow> slab_ok s k' held []"
  by (simp add: slab_ok_def)

lemma slab_alloc_ok:
  assumes "sched_inv {} k" "slab_ok s k held fs" "ticks_ok n" "n \<noteq> K_NO_WAIT \<Longrightarrow> can_block k" "k_mem_slab_alloc n s k = (r, s', k')"
  shows "sched_inv {} k' \<and>
     (case fs of b # fs' \<Rightarrow> r = Done (0, b) \<and> slab_ok s' k' (held @ [b]) fs'
      | [] \<Rightarrow> r = (if n = K_NO_WAIT then Done (- ENOMEM, 0) else Blocked) \<and> s' = s \<and> slab_ok s' k' held fs)"
proof (cases fs)
  case Nil
  then have z: "free_list s = 0" using assms(2) by (simp add: slab_ok_def)
  have "sched_inv {} (z_pend_curr (Some (slab_wq s)) n k)" if "n \<noteq> K_NO_WAIT"
    using z_pend_curr_inv [OF assms(1) assms(4) [OF that] assms(3), of "Some (slab_wq s)"] by simp
  moreover have "slab_ok s k' held []" using assms(2) Nil slab_ok_full by blast
  ultimately show ?thesis using assms(1,5) Nil z by (auto simp: k_mem_slab_alloc_def split: if_splits)
next
  case (Cons b fs')
  then have b: "free_list s = b" "b \<noteq> 0" "linked (links s) (links s b) fs'" using assms(2) by (auto simp: slab_ok_def)
  have r: "r = Done (0, b)" "s' = s\<lparr>free_list := links s b, num_used := num_used s + 1, max_used := max (num_used s + 1) (max_used s)\<rparr>" "k' = k"
    using assms(5) b by (auto simp: k_mem_slab_alloc_def Let_def)
  have "unat (num_used s) < unat (num_blocks s)" using slab_count [OF assms(2)] assms(2) Cons by (simp add: slab_ok_def)
  then have u: "unat (num_used s + 1) = unat (num_used s) + 1" "num_used s + 1 \<le> num_blocks s"
    using u32_inc [of "num_used s" "num_blocks s"] by (auto simp: word_less_nat_alt [symmetric])
  have "slab_ok s' k' (held @ [b]) fs'" using assms(2) Cons b u by (auto simp: r slab_ok_def blocks_def)
  then show ?thesis using assms(1) Cons r by simp
qed

text \<open>Giving back a held block: to the first waiting thread, who then holds it, or to the free list.\<close>

lemma slab_free_ok:
  assumes "sched_inv {} k" "slab_ok s k (hs1 @ mem # hs2) fs" "k_mem_slab_free mem s k = (s', k')"
  shows "sched_inv {} k' \<and> (case wait_qs k (slab_wq s) of
     t # ts \<Rightarrow> s' = s \<and> slab_ok s' k' (hs1 @ mem # hs2) fs \<and>
       (\<exists>k1. k' = z_reschedule k1 \<and> woken (slab_wq s) t 0 k k1 \<and> swap_data (threads k1 t) = unat mem)
   | [] \<Rightarrow> k' = k \<and> slab_ok s' k' (hs1 @ hs2) (mem # fs))"
proof -
  have ok: "slab_fits (slab_buffer s) (block_size s) (num_blocks s)" "mem \<in> blocks s"
    using assms(2) by (auto simp: slab_ok_def)
  then have g: "slab_ptr_is_good s mem" by (simp add: ptr_is_good_blocks)
  have nz: "mem \<noteq> 0" using ok block_nonzero by (auto simp: blocks_def)
  have l: "linked (links s) (free_list s) fs" using assms(2) by (simp add: slab_ok_def)
  show ?thesis
  proof (cases "wait_qs k (slab_wq s)")
    case Nil
    then have e: "s' = slab_push mem s" "k' = k" using assms(3) g
      by (auto simp: k_mem_slab_free_def z_unpend_first_thread_def z_priq_dumb_best_def split: if_splits)
    have "0 < unat (num_used s)" using assms(2) by (simp add: slab_ok_def)
    then have u: "unat (num_used s - 1) = unat (num_used s) - 1" by (simp add: unat_sub word_le_nat_alt)
    then have "num_used s - 1 \<le> max_used s" using assms(2) by (simp add: slab_ok_def word_le_nat_alt)
    then have "slab_ok s' k' (hs1 @ hs2) (mem # fs)" using assms(2) nz Nil u
      by (auto simp: e slab_ok_def slab_push_def blocks_def)
    then show ?thesis using assms(1) Nil e by simp
  next
    case (Cons t ts)
    then have f: "fs = []" "free_list s = 0" using assms(2) l by (auto simp: slab_ok_def)
    obtain k1 where u: "z_unpend_first_thread (slab_wq s) k = (Some t, k1)"
      using Cons by (simp add: z_unpend_first_thread_def z_priq_dumb_best_def)
    have e: "s' = s" "k' = z_reschedule (wake_data 0 (unat mem) t k1)" using assms(3) g f u by (auto simp: k_mem_slab_free_def)
    note w = wake_first(3,4,5) [OF assms(1) u, of 0 "unat mem"]
    show ?thesis using Cons e w assms(2) f slab_ok_full [of s k _ k'] by (auto simp: z_reschedule_inv)
  qed
qed

inductive slab_run :: "k_mem_slab \<Rightarrow> kernel \<Rightarrow> u32 list \<Rightarrow> k_mem_slab \<Rightarrow> kernel \<Rightarrow> u32 list \<Rightarrow> bool" for s0 k0 held0 where
  start: "slab_run s0 k0 held0 s0 k0 held0"
| alloc: "slab_run s0 k0 held0 s k held \<Longrightarrow> ticks_ok n \<Longrightarrow> n = K_NO_WAIT \<or> can_block k \<Longrightarrow> k_mem_slab_alloc n s k = (r, s', k') \<Longrightarrow>
    slab_run s0 k0 held0 s' k' (held @ (case r of Done (e, b) \<Rightarrow> if e = 0 then [b] else [] | Blocked \<Rightarrow> []))"
| free: "slab_run s0 k0 held0 s k (hs1 @ mem # hs2) \<Longrightarrow> k_mem_slab_free mem s k = (s', k') \<Longrightarrow>
    slab_run s0 k0 held0 s' k' (if wait_qs k (slab_wq s) = [] then hs1 @ hs2 else hs1 @ mem # hs2)"
| env: "slab_run s0 k0 held0 s k held \<Longrightarrow> sched_inv {} k' \<Longrightarrow> set (wait_qs k' (slab_wq s)) \<subseteq> set (wait_qs k (slab_wq s)) \<Longrightarrow>
    \<forall>b. b \<notin> set held \<longrightarrow> m b = links s b \<Longrightarrow> slab_run s0 k0 held0 (s\<lparr>links := m\<rparr>) k' held"

lemma slab_run_ok:
  assumes "slab_run s0 k0 held0 s k held" "sched_inv {} k0" "slab_ok s0 k0 held0 fs0"
  shows "sched_inv {} k \<and> blocks s = blocks s0 \<and> (\<exists>fs. slab_ok s k held fs)"
  using assms
proof (induction rule: slab_run.induct)
  case (alloc s k held n r s' k')
  then obtain fs where i: "sched_inv {} k" "slab_ok s k held fs" by auto
  have "n \<noteq> K_NO_WAIT \<Longrightarrow> can_block k" using alloc.hyps(3) by auto
  note a = slab_alloc_ok [OF i alloc.hyps(2) this alloc.hyps(4)]
  have "blocks s' = blocks s" using alloc.hyps(4) by (auto simp: k_mem_slab_alloc_def blocks_def Let_def split: if_splits)
  then show ?case using a alloc by (cases fs) (auto simp: ENOMEM_def split: if_splits)
next
  case (free s k hs1 mem hs2 s' k')
  then obtain fs where i: "sched_inv {} k" "slab_ok s k (hs1 @ mem # hs2) fs" by auto
  note a = slab_free_ok [OF i free.hyps(2)]
  have "blocks s' = blocks s" using free.hyps(2)
    by (auto simp: k_mem_slab_free_def slab_push_def blocks_def split: if_splits option.splits prod.splits)
  then show ?case using a free by (cases "wait_qs k (slab_wq s)") auto
next
  case (env s k held k' m)
  then obtain fs where i: "slab_ok s k held fs" "blocks s = blocks s0" by auto
  then have "\<forall>b \<in> set fs. m b = links s b" using env.hyps(4) by (auto simp: slab_ok_def)
  then have "linked m (free_list s) fs" using i(1) linked_cong [of fs m "links s"] by (simp add: slab_ok_def)
  then have "slab_ok (s\<lparr>links := m\<rparr>) k' held fs" using i(1) env.hyps(3) by (auto simp: slab_ok_def blocks_def)
  then show ?case using env.hyps(2) i(2) by (auto simp: blocks_def)
qed auto

text \<open>Different blocks do not overlap.\<close>

lemma blocks_apart:
  assumes "slab_fits (slab_buffer s) (block_size s) (num_blocks s)" "b \<in> blocks s" "c \<in> blocks s" "b \<noteq> c"
  shows "unat b + unat (block_size s) \<le> unat c \<or> unat c + unat (block_size s) \<le> unat b"
proof -
  let ?f = "block (slab_buffer s) (block_size s)"
  obtain i j where ij: "b = ?f i" "i < unat (num_blocks s)" "c = ?f j" "j < unat (num_blocks s)"
    using assms(2,3) by (auto simp: blocks_def)
  have "i * unat (block_size s) + unat (block_size s) \<le> j * unat (block_size s) \<or>
    j * unat (block_size s) + unat (block_size s) \<le> i * unat (block_size s)" using assms(4) ij(1,3) mult_ranges by metis
  then show ?thesis using unat_block [OF assms(1) ij(2)] unat_block [OF assms(1) ij(4)] ij(1,3) by auto
qed

lemma create_free_list_ok:
  assumes "slab_fits (slab_buffer s) (block_size s) (num_blocks s)" "(block_size s OR slab_buffer s) AND 3 = 0"
  shows "\<exists>fl m. create_free_list s = Some (0, s\<lparr>free_list := fl, links := m\<rparr>) \<and>
     linked m fl (map (block (slab_buffer s) (block_size s)) [0 ..< unat (num_blocks s)])"
proof -
  let ?b = "slab_buffer s" and ?bs = "block_size s"
  have "?b + ?bs * (num_blocks s - 1) = block ?b ?bs (unat (num_blocks s)) - ?bs" by (simp add: block_def algebra_simps)
  with free_list_loop_links [OF assms(1) le_refl, of "links s" 0] assms(2) show ?thesis by (auto simp: create_free_list_def)
qed

text \<open>A buffer below one block size: the pointer wraps around and the loop goes on.\<close>

lemma minus_16_mod: "unat (p - 16) mod 16 = unat p mod 16" for p :: u32
proof -
  have e: "p - 16 = p + 4294967280" by simp
  have "unat (p - 16) = (unat p + 4294967280) mod 4294967296" unfolding e unat_word_ariths(1) by simp
  moreover have "x mod 4294967296 mod 16 = x mod (16 :: nat)" for x by (rule mod_mod_cancel) simp
  moreover have "(a + 268435455 * 16) mod 16 = a mod 16" for a :: nat by (rule mod_mult_self1)
  ultimately show ?thesis by simp
qed

lemma free_list_loop_wraps:
  assumes "unat p mod 16 = 8"
  shows "free_list_loop 8 16 p fl m = None"
proof -
  have "buf = 8 \<longrightarrow> bs = 16 \<longrightarrow> unat p mod 16 \<noteq> 8" if "free_list_loop buf bs p fl m = Some y" for buf bs p fl m y
  proof (rule free_list_loop.raw_induct [where P = "\<lambda>buf bs p fl m y. buf = 8 \<longrightarrow> bs = 16 \<longrightarrow> unat p mod 16 \<noteq> 8", OF _ that])
    fix loop :: "u32 \<Rightarrow> u32 \<Rightarrow> u32 \<Rightarrow> u32 \<Rightarrow> (u32 \<Rightarrow> u32) \<Rightarrow> (u32 \<times> (u32 \<Rightarrow> u32)) option" and buf bs p fl m y
    assume ih: "\<And>buf bs p fl m y. loop buf bs p fl m = Some y \<Longrightarrow> buf = 8 \<longrightarrow> bs = 16 \<longrightarrow> unat p mod 16 \<noteq> 8"
      and st: "(if buf \<le> p then loop buf bs (p - bs) p (m(p := fl)) else Some (fl, m)) = Some y"
    show "buf = 8 \<longrightarrow> bs = 16 \<longrightarrow> unat p mod 16 \<noteq> 8"
    proof (cases "buf \<le> p")
      case True
      then have "loop buf bs (p - bs) p (m(p := fl)) = Some y" using st by simp
      from ih [OF this] show ?thesis by (auto simp: minus_16_mod)
    next
      case False
      then show ?thesis by (auto simp: word_le_nat_alt)
    qed
  qed
  then show ?thesis using assms by fastforce
qed

section \<open>Properties\<close>


text \<open>A slab of two blocks of 16 bytes at address 64; \<open>k_mem_slab_init\<close> would give this free list.\<close>

definition sample_slab :: "nat \<Rightarrow> k_mem_slab" where
  "sample_slab n = \<lparr>slab_q = n, slab_buffer = 64, free_list = 64, num_blocks = 2, block_size = 16, num_used = 0, max_used = 0,
     links = (\<lambda>_. 0)(64 := 80)\<rparr>"

lemma sample_slab_ok: "slab_ok (sample_slab 8) waiting_kernel [] [64, 80]"
proof -
  have "{0 ..< 2 :: nat} = {0, 1}" by auto
  then have "blocks (sample_slab 8) = {64, 80}" by (simp add: blocks_def block_def sample_slab_def)
  then show ?thesis by (simp add: slab_ok_def slab_fits_def sample_slab_def)
qed


text \<open>\<open>k_mem_slab_init\<close> ends, and links all blocks in address order into the free list; a block size or
  buffer that is not word aligned is refused with \<open>-EINVAL\<close>.\<close>

theorem k_mem_slab_init_links_all:
  assumes "slab_fits buf bs n"
  shows "\<exists>rc s' k'. k_mem_slab_init buf bs n s k = Some (rc, s', k') \<and>
     (if (bs OR buf) AND 3 = 0
      then rc = 0 \<and> slab_ok s' k' [] (map (block buf bs) [0 ..< unat n]) \<and> k' = k\<lparr>wait_qs := (wait_qs k)(ObjQ (slab_q s) := [])\<rparr>
      else rc = - EINVAL \<and> k' = k)"
proof (cases "(bs OR buf) AND 3 = 0")
  case True
  let ?s = "s\<lparr>num_blocks := n, block_size := bs, slab_buffer := buf, num_used := 0, max_used := 0\<rparr>"
  from create_free_list_ok [of ?s] assms True obtain fl m where c: "create_free_list ?s = Some (0, ?s\<lparr>free_list := fl, links := m\<rparr>)"
    "linked m fl (map (block buf bs) [0 ..< unat n])" by auto
  have "distinct (map (block buf bs) [0 ..< unat n])" using block_inj [OF assms] by (simp add: distinct_map)
  then show ?thesis using True c assms by (simp add: k_mem_slab_init_def slab_ok_def blocks_def)
next
  case False
  then show ?thesis by (simp add: k_mem_slab_init_def create_free_list_def EINVAL_def)
qed

theorem k_mem_slab_init_links_all_witness:
  "\<exists>s' k'. k_mem_slab_init 64 16 2 (sample_slab 8) waiting_kernel = Some (0, s', k') \<and> slab_ok s' k' [] [64, 80]"
proof -
  have "slab_fits 64 16 2" "[0 ..< unat (2 :: u32)] = [0, 1]" by (simp_all add: slab_fits_def upt_rec)
  from k_mem_slab_init_links_all [OF this(1), of "sample_slab 8" waiting_kernel] this(2) show ?thesis by (auto simp: block_def)
qed


end
