(* ===== verification/Events.thy ===== *)
theory Events
  imports Waiting Boot
begin

text \<open>
  Event objects (\<open>kernel/events.c\<close>): a set of event bits and threads that wait for any or all of some
  of them. The list linked through \<open>next_event_link\<close> is the list \<open>head\<close> of the walk data. A thread
  that waits continues with \<open>k_event_wait_resume\<close>.
\<close>

section \<open>Operations\<close>

record k_event =
  event_q :: nat
  event_bits :: u32

abbreviation event_wq :: "k_event \<Rightarrow> wqid" where
  "event_wq e \<equiv> ObjQ (event_q e)"

definition K_EVENT_WAIT_ANY :: u32 where "K_EVENT_WAIT_ANY = 0"
definition K_EVENT_WAIT_ALL :: u32 where "K_EVENT_WAIT_ALL = 1"
definition K_EVENT_WAIT_MASK :: u32 where "K_EVENT_WAIT_MASK = 1"
definition K_EVENT_WAIT_RESET :: u32 where "K_EVENT_WAIT_RESET = 2"

record event_walk_data =
  walk_head :: "tid list"
  walk_events :: u32

definition k_event_init :: "k_event \<Rightarrow> kernel \<Rightarrow> k_event \<times> kernel" where
  "k_event_init e k = (e\<lparr>event_bits := 0\<rparr>, k\<lparr>wait_qs := (wait_qs k)(event_wq e := [])\<rparr>)"

definition are_wait_conditions_met :: "u32 \<Rightarrow> u32 \<Rightarrow> u32 \<Rightarrow> bool" where
  "are_wait_conditions_met desired cur wait_condition =
     (let match = cur AND desired
      in if wait_condition = K_EVENT_WAIT_ALL then match = desired else match \<noteq> 0)"

definition event_walk_op :: "tid \<Rightarrow> kernel \<times> event_walk_data \<Rightarrow> int \<times> kernel \<times> event_walk_data" where
  "event_walk_op t = (\<lambda>(k, data).
     (let wait_condition = event_options (threads k t) AND K_EVENT_WAIT_MASK
      in if are_wait_conditions_met (events (threads k t)) (walk_events data) wait_condition
         then let k1 = upd_thread t (\<lambda>th. th\<lparr>no_wake_on_timeout := True\<rparr>) k
              in (0, snd (z_abort_timeout (ThreadTimeout t) k1), data\<lparr>walk_head := t # walk_head data\<rparr>)
         else (0, k, data)))"

text \<open>One turn of the loop over the list of threads to wake.\<close>

definition event_wake :: "u32 \<Rightarrow> tid \<Rightarrow> kernel \<Rightarrow> kernel" where
  "event_wake evs t k =
     z_sched_wake_thread t False (upd_thread t (\<lambda>th. th\<lparr>events := evs\<rparr>) (arch_thread_return_value_set t 0 k))"

definition k_event_post_internal :: "u32 \<Rightarrow> u32 \<Rightarrow> k_event \<Rightarrow> kernel \<Rightarrow> u32 \<times> k_event \<times> kernel" where
  "k_event_post_internal evs events_mask e k =
     (let previous_events = event_bits e AND events_mask;
          new_events = (event_bits e AND NOT events_mask) OR (evs AND events_mask);
          (_, k1, data) = z_sched_waitq_walk (event_wq e) event_walk_op \<lparr>walk_head = [], walk_events = new_events\<rparr> k;
          k2 = fold (event_wake new_events) (walk_head data) k1
      in (previous_events, e\<lparr>event_bits := new_events\<rparr>, z_reschedule k2))"

definition k_event_post :: "u32 \<Rightarrow> k_event \<Rightarrow> kernel \<Rightarrow> u32 \<times> k_event \<times> kernel" where
  "k_event_post evs e k = k_event_post_internal evs evs e k"

definition k_event_set :: "u32 \<Rightarrow> k_event \<Rightarrow> kernel \<Rightarrow> u32 \<times> k_event \<times> kernel" where
  "k_event_set evs e k = k_event_post_internal evs (NOT 0) e k"

definition k_event_set_masked :: "u32 \<Rightarrow> u32 \<Rightarrow> k_event \<Rightarrow> kernel \<Rightarrow> u32 \<times> k_event \<times> kernel" where
  "k_event_set_masked evs events_mask e k = k_event_post_internal evs events_mask e k"

definition k_event_clear :: "u32 \<Rightarrow> k_event \<Rightarrow> kernel \<Rightarrow> u32 \<times> k_event \<times> kernel" where
  "k_event_clear evs e k = k_event_post_internal 0 evs e k"

definition k_event_wait_internal :: "u32 \<Rightarrow> u32 \<Rightarrow> k_timeout \<Rightarrow> k_event \<Rightarrow> kernel \<Rightarrow> u32 outcome \<times> k_event \<times> kernel" where
  "k_event_wait_internal evs options timeout e k =
     (if evs = 0 then (Done 0, e, k)
      else let wait_condition = options AND K_EVENT_WAIT_MASK;
               e1 = (if options AND K_EVENT_WAIT_RESET \<noteq> 0 then e\<lparr>event_bits := 0\<rparr> else e)
           in if are_wait_conditions_met evs (event_bits e1) wait_condition then (Done (event_bits e1 AND evs), e1, k)
              else if timeout = K_NO_WAIT then (Done 0, e1, k)
              else (Blocked, e1, z_pend_curr (Some (event_wq e1)) timeout
                      (upd_thread (current k) (\<lambda>th. th\<lparr>events := evs, event_options := options\<rparr>) k)))"

text \<open>After the switch back; \<open>evs\<close> is the caller's argument.\<close>

definition k_event_wait_resume :: "u32 \<Rightarrow> kernel \<Rightarrow> u32" where
  "k_event_wait_resume evs k =
     (let rv = (if swap_retval (threads k (current k)) = 0 then events (threads k (current k)) else 0) in rv AND evs)"

definition k_event_wait :: "u32 \<Rightarrow> bool \<Rightarrow> k_timeout \<Rightarrow> k_event \<Rightarrow> kernel \<Rightarrow> u32 outcome \<times> k_event \<times> kernel" where
  "k_event_wait evs reset timeout e k =
     k_event_wait_internal evs (if reset then K_EVENT_WAIT_RESET else 0) timeout e k"

definition k_event_wait_all :: "u32 \<Rightarrow> bool \<Rightarrow> k_timeout \<Rightarrow> k_event \<Rightarrow> kernel \<Rightarrow> u32 outcome \<times> k_event \<times> kernel" where
  "k_event_wait_all evs reset timeout e k =
     k_event_wait_internal evs (if reset then K_EVENT_WAIT_RESET OR K_EVENT_WAIT_ALL else K_EVENT_WAIT_ALL) timeout e k"

section \<open>The walk\<close>

text \<open>\<open>wants k b t\<close>: with event bits \<open>b\<close> thread \<open>t\<close> has what it waits for.\<close>

definition wants :: "kernel \<Rightarrow> u32 \<Rightarrow> tid \<Rightarrow> bool" where
  "wants k b t \<longleftrightarrow> are_wait_conditions_met (events (threads k t)) b (event_options (threads k t) AND K_EVENT_WAIT_MASK)"

definition event_mark :: "tid \<Rightarrow> kernel \<Rightarrow> kernel" where
  "event_mark t k = z_abort_thread_timeout t (upd_thread t (\<lambda>th. th\<lparr>no_wake_on_timeout := True\<rparr>) k)"

lemma event_mark_fields:
  "threads (event_mark t k) = (threads k)(t := (threads k t)\<lparr>no_wake_on_timeout := True\<rparr>)"
  "wait_qs (event_mark t k) = wait_qs k" "current (event_mark t k) = current k" "idle_thread (event_mark t k) = idle_thread k"
  "in_isr (event_mark t k) = in_isr k" "irq_unlocked (event_mark t k) = irq_unlocked k"
  by (simp_all add: event_mark_def frame_simps)

lemma event_mark_inv:
  assumes "sched_inv X k"
  shows "sched_inv X (event_mark t k)" "set (timeout_list (event_mark t k)) = set (timeout_list k) - {ThreadTimeout t}"
proof -
  have "sched_inv X (upd_thread t (\<lambda>th. th\<lparr>no_wake_on_timeout := True\<rparr>) k)" using assms by (simp add: frame_simps)
  then show "sched_inv X (event_mark t k)" "set (timeout_list (event_mark t k)) = set (timeout_list k) - {ThreadTimeout t}"
    by (simp_all add: event_mark_def sched_inv_abort_timeout abort_thread_timeout_set inv_q_ok frame_simps)
qed

lemma wants_mark: "wants (event_mark t k) b u = wants k b u"
  by (simp add: wants_def event_mark_fields)

lemma event_walk:
  "walk_loop event_walk_op ts (k, \<lparr>walk_head = h, walk_events = b\<rparr>) =
     (0, fold event_mark (filter (wants k b) ts) k, \<lparr>walk_head = rev (filter (wants k b) ts) @ h, walk_events = b\<rparr>)"
proof (induction ts arbitrary: k h)
  case (Cons t ts)
  have "event_walk_op t (k, \<lparr>walk_head = h, walk_events = b\<rparr>) =
      (0, if wants k b t then (event_mark t k, \<lparr>walk_head = t # h, walk_events = b\<rparr>) else (k, \<lparr>walk_head = h, walk_events = b\<rparr>))"
    by (simp add: event_walk_op_def wants_def Let_def event_mark_def z_abort_thread_timeout_def)
  then show ?case using Cons.IH by (simp add: wants_mark [abs_def])
qed simp

lemma fold_mark:
  assumes "sched_inv X k"
  shows "sched_inv X (fold event_mark ts k)"
    "set (timeout_list (fold event_mark ts k)) = set (timeout_list k) - ThreadTimeout ` set ts"
    "threads (fold event_mark ts k) u = (if u \<in> set ts then (threads k u)\<lparr>no_wake_on_timeout := True\<rparr> else threads k u)"
    "wait_qs (fold event_mark ts k) = wait_qs k" "current (fold event_mark ts k) = current k"
    "idle_thread (fold event_mark ts k) = idle_thread k" "in_isr (fold event_mark ts k) = in_isr k"
    "irq_unlocked (fold event_mark ts k) = irq_unlocked k"
proof -
  show "sched_inv X (fold event_mark ts k)" using assms
    by (induction ts arbitrary: k) (simp_all add: event_mark_inv)
  show "set (timeout_list (fold event_mark ts k)) = set (timeout_list k) - ThreadTimeout ` set ts" using assms
    by (induction ts arbitrary: k) (simp_all add: event_mark_inv Diff_insert2 [symmetric])
  show "threads (fold event_mark ts k) u = (if u \<in> set ts then (threads k u)\<lparr>no_wake_on_timeout := True\<rparr> else threads k u)"
    by (induction ts arbitrary: k) (simp_all add: event_mark_fields)
  show "wait_qs (fold event_mark ts k) = wait_qs k" "current (fold event_mark ts k) = current k"
    "idle_thread (fold event_mark ts k) = idle_thread k" "in_isr (fold event_mark ts k) = in_isr k"
    "irq_unlocked (fold event_mark ts k) = irq_unlocked k"
    by (induction ts arbitrary: k; simp add: event_mark_fields)+
qed

section \<open>Waking the satisfied threads\<close>

definition alive :: "k_thread \<Rightarrow> bool" where
  "alive th \<longleftrightarrow> thread_state th AND (THREAD_DEAD OR THREAD_ABORTING) = 0"

lemma event_wake_unfold:
  assumes "pended_on (threads k t) = Some w" "alive (threads k t)"
  shows "event_wake b t k = ready_thread t (upd_thread t (clear_state THREAD_SLEEPING) (unpend_thread_no_timeout t
     (upd_thread t (\<lambda>th. th\<lparr>swap_retval := 0, events := b, no_wake_on_timeout := False\<rparr>) k)))"
proof -
  have "upd_thread t (\<lambda>th. th\<lparr>no_wake_on_timeout := False\<rparr>) (upd_thread t (\<lambda>th. th\<lparr>events := b\<rparr>) (arch_thread_return_value_set t 0 k)) =
      upd_thread t (\<lambda>th. th\<lparr>swap_retval := 0, events := b, no_wake_on_timeout := False\<rparr>) k"
    by (simp add: arch_thread_return_value_set_def upd_thread_def)
  then show ?thesis using assms unfolding event_wake_def z_sched_wake_thread_def Let_def alive_def
    by (simp add: frame_simps arch_thread_return_value_set_def flag_marks)
qed

lemma event_wake_step:
  assumes "sched_inv {} k" "t \<in> set (wait_qs k w)" "ThreadTimeout t \<notin> set (timeout_list k)" "alive (threads k t)"
  shows "sched_inv {} (event_wake b t k)" "wait_qs (event_wake b t k) = (wait_qs k)(w := remove1 t (wait_qs k w))"
    "\<And>u. u \<noteq> t \<Longrightarrow> threads (event_wake b t k) u = threads k u" "pended_on (threads (event_wake b t k) t) = None"
    "swap_retval (threads (event_wake b t k) t) = 0" "events (threads (event_wake b t k) t) = b"
    "\<And>u. ThreadTimeout u \<in> set (timeout_list (event_wake b t k)) \<longleftrightarrow> ThreadTimeout u \<in> set (timeout_list k)"
    "current (event_wake b t k) = current k" "idle_thread (event_wake b t k) = idle_thread k"
    "in_isr (event_wake b t k) = in_isr k" "irq_unlocked (event_wake b t k) = irq_unlocked k"
proof -
  let ?k1 = "upd_thread t (\<lambda>th. th\<lparr>swap_retval := 0, events := b, no_wake_on_timeout := False\<rparr>) k"
  have p: "pended_on (threads k t) = Some w" "t \<noteq> idle_thread k" using waitq_member [OF assms(1,2)] by auto
  note e = event_wake_unfold [OF p(1) assms(4)]
  have p1: "pended_on (threads ?k1 t) = Some w" using p by (simp add: frame_simps)
  note u = unpend_thread_upd [OF p1]
  have i1: "sched_inv {} (upd_thread t (\<lambda>th. th\<lparr>events := b\<rparr>) (arch_thread_return_value_set t 0 k))"
    using assms(1) by (simp add: frame_simps arch_thread_return_value_set_def)
  then show inv: "sched_inv {} (event_wake b t k)" unfolding event_wake_def
    using sched_wake_thread_inv [OF i1, of t False] p(2) assms(3) by (simp add: frame_simps arch_thread_return_value_set_def)
  show "wait_qs (event_wake b t k) = (wait_qs k)(w := remove1 t (wait_qs k w))"
    "\<And>u. u \<noteq> t \<Longrightarrow> threads (event_wake b t k) u = threads k u" "pended_on (threads (event_wake b t k) t) = None"
    "swap_retval (threads (event_wake b t k) t) = 0" "events (threads (event_wake b t k) t) = b"
    "current (event_wake b t k) = current k" "idle_thread (event_wake b t k) = idle_thread k"
    "in_isr (event_wake b t k) = in_isr k" "irq_unlocked (event_wake b t k) = irq_unlocked k"
    using u by (simp_all add: e frame_simps flag_ops)
  let ?k2 = "upd_thread t (clear_state THREAD_SLEEPING) (unpend_thread_no_timeout t ?k1)"
  have "timeout_q_ok (queue_thread t ?k2)" "clock_ok (queue_thread t ?k2)" using inv_q_ok [OF assms(1)] inv_clock_ok [OF assms(1)]
    by (simp_all add: frame_simps clock_ok_def)
  from update_cache_timeouts(2) [OF this]
  show "\<And>u. ThreadTimeout u \<in> set (timeout_list (event_wake b t k)) \<longleftrightarrow> ThreadTimeout u \<in> set (timeout_list k)"
    by (simp add: e ready_thread_def frame_simps)
qed

lemma fold_event_wake:
  assumes "sched_inv {} k" "distinct hs" "set hs \<subseteq> set (wait_qs k w)" "\<forall>t \<in> set hs. ThreadTimeout t \<notin> set (timeout_list k) \<and> alive (threads k t)"
  shows "sched_inv {} (fold (event_wake b) hs k) \<and>
    wait_qs (fold (event_wake b) hs k) = (wait_qs k)(w := filter (\<lambda>u. u \<notin> set hs) (wait_qs k w)) \<and>
    (\<forall>t \<in> set hs. pended_on (threads (fold (event_wake b) hs k) t) = None \<and> swap_retval (threads (fold (event_wake b) hs k) t) = 0 \<and>
       events (threads (fold (event_wake b) hs k) t) = b) \<and>
    (\<forall>u. u \<notin> set hs \<longrightarrow> threads (fold (event_wake b) hs k) u = threads k u) \<and>
    current (fold (event_wake b) hs k) = current k"
  using assms
proof (induction hs arbitrary: k)
  case Nil
  then show ?case by simp
next
  case (Cons t hs)
  have t: "t \<in> set (wait_qs k w)" "ThreadTimeout t \<notin> set (timeout_list k)" "alive (threads k t)" "t \<notin> set hs" "distinct hs"
    using Cons.prems by auto
  note st = event_wake_step [OF Cons.prems(1) t(1-3), where b = b]
  have d: "distinct (wait_qs k w)" using sched_invD(3) [OF Cons.prems(1)] by (simp add: waitq_inv_def)
  have r: "remove1 t (wait_qs k w) = filter (\<lambda>u. t \<noteq> u) (wait_qs k w)" using d by (simp add: distinct_remove1_removeAll removeAll_filter_not_eq)
  have sub: "set hs \<subseteq> set (wait_qs (event_wake b t k) w)" using Cons.prems(3) t(4) st(2) r by auto
  have same: "threads (event_wake b t k) u = threads k u" if "u \<in> set hs" for u using st(3) [of u] t(4) that by blast
  have al: "\<forall>u \<in> set hs. ThreadTimeout u \<notin> set (timeout_list (event_wake b t k)) \<and> alive (threads (event_wake b t k) u)"
    using Cons.prems(4) st(7) same by simp
  note ih = Cons.IH [OF st(1) t(5) sub al]
  have f: "filter (\<lambda>u. u \<notin> set hs) (wait_qs (event_wake b t k) w) = filter (\<lambda>u. u \<notin> set (t # hs)) (wait_qs k w)"
    using st(2) r by (auto intro!: filter_cong)
  from ih st(2,3,4,5,6,8) t(4) show ?case unfolding fold_simps f by auto
qed

section \<open>Posting and waiting\<close>

text \<open>No thread waits for what has already happened.\<close>

definition event_ok :: "k_event \<Rightarrow> kernel \<Rightarrow> bool" where
  "event_ok e k \<longleftrightarrow> (\<forall>t \<in> set (wait_qs k (event_wq e)). events (threads k t) \<noteq> 0 \<and> \<not> wants k (event_bits e) t)"

definition waiters_alive :: "k_event \<Rightarrow> kernel \<Rightarrow> bool" where
  "waiters_alive e k \<longleftrightarrow> (\<forall>t \<in> set (wait_qs k (event_wq e)). alive (threads k t))"

lemma event_post_step:
  assumes "sched_inv {} k" "waiters_alive e k" and b: "b = (event_bits e AND NOT m) OR (evs AND m)"
  obtains k2 where "k_event_post_internal evs m e k = (event_bits e AND m, e\<lparr>event_bits := b\<rparr>, z_reschedule k2)"
    "sched_inv {} k2" "wait_qs k2 = (wait_qs k)(event_wq e := filter (\<lambda>t. \<not> wants k b t) (wait_qs k (event_wq e)))"
    "\<forall>t \<in> set (wait_qs k (event_wq e)). wants k b t \<longrightarrow> pended_on (threads k2 t) = None \<and> swap_retval (threads k2 t) = 0 \<and> events (threads k2 t) = b"
    "\<forall>t. t \<notin> set (filter (wants k b) (wait_qs k (event_wq e))) \<longrightarrow> threads k2 t = threads k t"
    "current k2 = current k"
proof -
  let ?ws = "wait_qs k (event_wq e)"
  let ?hs = "rev (filter (wants k b) ?ws)"
  let ?k1 = "fold event_mark (filter (wants k b) ?ws) k"
  note m = fold_mark [OF assms(1), of "filter (wants k b) ?ws"]
  have e: "k_event_post_internal evs m e k = (event_bits e AND m, e\<lparr>event_bits := b\<rparr>, z_reschedule (fold (event_wake b) ?hs ?k1))"
    by (simp add: k_event_post_internal_def Let_def z_sched_waitq_walk_def event_walk b)
  have d: "distinct ?ws" using sched_invD(3) [OF assms(1)] by (simp add: waitq_inv_def)
  have al: "\<forall>t \<in> set ?hs. ThreadTimeout t \<notin> set (timeout_list ?k1) \<and> alive (threads ?k1 t)"
    using assms(2) by (simp add: m waiters_alive_def alive_def)
  have "distinct ?hs" "set ?hs \<subseteq> set (wait_qs ?k1 (event_wq e))" using d by (auto simp: m)
  note w = fold_event_wake [OF m(1) this al, of b]
  have f: "filter (\<lambda>u. u \<notin> set ?hs) (wait_qs ?k1 (event_wq e)) = filter (\<lambda>t. \<not> wants k b t) ?ws"
    unfolding m(4) by (rule filter_cong) auto
  show thesis
  proof (rule that [OF e])
    show "wait_qs (fold (event_wake b) ?hs ?k1) = (wait_qs k)(event_wq e := filter (\<lambda>t. \<not> wants k b t) ?ws)"
      using w m(4) f by (metis (no_types, lifting))
    show "\<forall>t. t \<notin> set (filter (wants k b) ?ws) \<longrightarrow> threads (fold (event_wake b) ?hs ?k1) t = threads k t"
      using w m(3) by (metis set_rev)
    show "current (fold (event_wake b) ?hs ?k1) = current k" using w m(5) by metis
    show "\<forall>t \<in> set ?ws. wants k b t \<longrightarrow> pended_on (threads (fold (event_wake b) ?hs ?k1) t) = None \<and>
        swap_retval (threads (fold (event_wake b) ?hs ?k1) t) = 0 \<and> events (threads (fold (event_wake b) ?hs ?k1) t) = b"
    proof (intro ballI impI)
      fix t
      assume "t \<in> set ?ws" "wants k b t"
      then have "t \<in> set ?hs" by simp
      then show "pended_on (threads (fold (event_wake b) ?hs ?k1) t) = None \<and>
          swap_retval (threads (fold (event_wake b) ?hs ?k1) t) = 0 \<and> events (threads (fold (event_wake b) ?hs ?k1) t) = b"
        using w by blast
    qed
  qed (use w in blast)
qed

lemma wants_cong: "threads k' t = threads k t \<Longrightarrow> wants k' b t = wants k b t"
  by (simp add: wants_def)

lemma event_post_ok:
  assumes "sched_inv {} k" "waiters_alive e k" "event_ok e k" "z_is_thread_ready (threads k (current k))"
    "k_event_post_internal evs m e k = (r, e', k')"
  shows "sched_inv {} k'" "event_ok e' k'" "event_q e' = event_q e"
proof -
  define b where "b = (event_bits e AND NOT m) OR (evs AND m)"
  obtain k2 where k2: "k_event_post_internal evs m e k = (event_bits e AND m, e\<lparr>event_bits := b\<rparr>, z_reschedule k2)"
    "sched_inv {} k2" "wait_qs k2 = (wait_qs k)(event_wq e := filter (\<lambda>t. \<not> wants k b t) (wait_qs k (event_wq e)))"
    "\<forall>t \<in> set (wait_qs k (event_wq e)). wants k b t \<longrightarrow> pended_on (threads k2 t) = None \<and> swap_retval (threads k2 t) = 0 \<and> events (threads k2 t) = b"
    "\<forall>t. t \<notin> set (filter (wants k b) (wait_qs k (event_wq e))) \<longrightarrow> threads k2 t = threads k t" "current k2 = current k"
    by (rule event_post_step [OF assms(1,2) b_def], rule that, assumption+)
  have r: "e' = e\<lparr>event_bits := b\<rparr>" "k' = z_reschedule k2" using assms(5) k2(1) by auto
  show "sched_inv {} k'" using k2(2) by (simp add: r z_reschedule_inv)
  show "event_q e' = event_q e" by (simp add: r)
  have "events (threads k' t) \<noteq> 0 \<and> \<not> wants k' (event_bits e') t" if t: "t \<in> set (wait_qs k' (event_wq e'))" for t
  proof -
    have w: "t \<in> set (wait_qs k (event_wq e))" "\<not> wants k (event_bits e') t" using t k2(3) by (auto simp: r frame_simps)
    then have "t \<noteq> current k" using ready_not_pended(5) [OF assms(1,4), of "event_wq e"] by auto
    then have "threads k' t = threads k t" using k2(5) w(2) k2(6) by (simp add: r frame_simps)
    then show ?thesis using w assms(3) wants_cong [of k' t k] by (auto simp: event_ok_def)
  qed
  then show "event_ok e' k'" by (simp add: event_ok_def)
qed

lemma pend_curr_events [frame_simps]:
  "events (threads (z_pend_curr wq n k) u) = events (threads k u)"
  "event_options (threads (z_pend_curr wq n k) u) = event_options (threads k u)"
  by (simp_all add: z_pend_curr_def frame_simps)

lemma wants_nothing: "d \<noteq> 0 \<Longrightarrow> \<not> are_wait_conditions_met d 0 c"
  by (simp add: are_wait_conditions_met_def)

lemma event_wait_ok:
  assumes "sched_inv {} k" "event_ok e k" "ticks_ok n" "n \<noteq> K_NO_WAIT \<Longrightarrow> can_block k"
    "k_event_wait_internal evs options n e k = (r, e', k')"
  shows "sched_inv {} k'" "event_ok e' k'" "event_q e' = event_q e"
proof -
  let ?e = "if evs \<noteq> 0 \<and> options AND K_EVENT_WAIT_RESET \<noteq> 0 then e\<lparr>event_bits := 0\<rparr> else e"
  have e': "e' = ?e" using assms(5) by (auto simp: k_event_wait_internal_def Let_def split: if_splits)
  then show "event_q e' = event_q e" by simp
  have ok: "event_ok e' k" using assms(2) by (auto simp: e' event_ok_def wants_def wants_nothing)
  show "sched_inv {} k'" "event_ok e' k'"
  proof (atomize (full), cases "r = Blocked")
    case False
    then have "k' = k" using assms(5) by (auto simp: k_event_wait_internal_def Let_def split: if_splits)
    then show "sched_inv {} k' \<and> event_ok e' k'" using assms(1) ok by simp
  next
    case True
    let ?k = "upd_thread (current k) (\<lambda>th. th\<lparr>events := evs, event_options := options\<rparr>) k"
    have b: "evs \<noteq> 0" "n \<noteq> K_NO_WAIT" "\<not> are_wait_conditions_met evs (event_bits e') (options AND K_EVENT_WAIT_MASK)"
      "k' = z_pend_curr (Some (event_wq e')) n ?k"
      using assms(5) True by (auto simp: k_event_wait_internal_def Let_def e' split: if_splits)
    have "?k = upd_thread (current k) (\<lambda>th. th\<lparr>event_options := options\<rparr>) (upd_thread (current k) (\<lambda>th. th\<lparr>events := evs\<rparr>) k)"
      by (simp add: upd_thread_def)
    then have i: "sched_inv {} ?k" "can_block ?k" using assms(1) assms(4) [OF b(2)] by (simp_all add: frame_simps can_block_def flag_ops)
    from z_pend_curr_inv [OF this assms(3), of "Some (event_wq e')"] have inv: "sched_inv {} k'" by (simp add: b(4))
    have rc: "z_is_thread_ready (threads k (current k))" using assms(4) [OF b(2)] by (simp add: can_block_def)
    have "events (threads k' t) \<noteq> 0 \<and> \<not> wants k' (event_bits e') t" if t: "t \<in> set (wait_qs k' (event_wq e'))" for t
    proof (cases "t = current k")
      case True
      then have "events (threads k' t) = evs" "event_options (threads k' t) = options" by (simp_all add: b(4) frame_simps)
      then show ?thesis using b(1,3) by (simp add: wants_def)
    next
      case False
      then have w: "t \<in> set (wait_qs k (event_wq e'))" using t by (auto simp: b(4) frame_simps z_priq_dumb_add_def)
      have "threads k' t = threads k t" using False by (simp add: b(4) frame_simps)
      then show ?thesis using w ok wants_cong [of k' t k] by (auto simp: event_ok_def)
    qed
    then show "sched_inv {} k' \<and> event_ok e' k'" using inv by (simp add: event_ok_def)
  qed
qed

section \<open>Histories\<close>

text \<open>A run of calls on an event object; between them the rest of the system may take waiters off the
  queue, but leaves the wishes of those that stay.\<close>

inductive event_run :: "k_event \<Rightarrow> kernel \<Rightarrow> k_event \<Rightarrow> kernel \<Rightarrow> bool" for e0 k0 where
  start: "event_run e0 k0 e0 k0"
| post: "event_run e0 k0 e k \<Longrightarrow> waiters_alive e k \<Longrightarrow> z_is_thread_ready (threads k (current k)) \<Longrightarrow>
    k_event_post_internal evs m e k = (r, e', k') \<Longrightarrow> event_run e0 k0 e' k'"
| wait: "event_run e0 k0 e k \<Longrightarrow> ticks_ok n \<Longrightarrow> n = K_NO_WAIT \<or> can_block k \<Longrightarrow>
    k_event_wait_internal evs options n e k = (r, e', k') \<Longrightarrow> event_run e0 k0 e' k'"
| env: "event_run e0 k0 e k \<Longrightarrow> sched_inv {} k' \<Longrightarrow> set (wait_qs k' (event_wq e)) \<subseteq> set (wait_qs k (event_wq e)) \<Longrightarrow>
    \<forall>t \<in> set (wait_qs k' (event_wq e)). events (threads k' t) = events (threads k t) \<and>
      event_options (threads k' t) = event_options (threads k t) \<Longrightarrow> event_run e0 k0 e k'"

lemma event_run_ok:
  assumes "event_run e0 k0 e k" "sched_inv {} k0" "event_ok e0 k0"
  shows "sched_inv {} k \<and> event_ok e k \<and> event_q e = event_q e0"
  using assms
proof (induction rule: event_run.induct)
  case (post e k evs m r e' k')
  then show ?case using event_post_ok [of k e evs m r e' k'] by auto
next
  case (wait e k n evs options r e' k')
  then have "n \<noteq> K_NO_WAIT \<Longrightarrow> can_block k" by auto
  then show ?case using event_wait_ok [of k e n evs options r e' k'] wait by auto
next
  case (env e k k')
  then show ?case by (auto simp: event_ok_def wants_def)
qed simp

section \<open>Properties\<close>

text \<open>C26: No wake-up is lost: over any run of posts, sets, clears and waits no thread stays in the wait queue of
  an event object whose bits already satisfy what it waits for.\<close>

theorem k_event_no_lost_wakeup:
  assumes "event_run e0 k0 e k" "sched_inv {} k0" "event_ok e0 k0" "t \<in> set (wait_qs k (ObjQ (event_q e)))"
  shows "\<not> are_wait_conditions_met (events (threads k t)) (event_bits e) (event_options (threads k t) AND K_EVENT_WAIT_MASK) \<and>
     sched_inv {} k"
  using event_run_ok [OF assms(1-3)] assms(4) by (auto simp: event_ok_def wants_def)

text \<open>Thread 3 waits for events 1 and 2, thread 4 for event 1.\<close>

definition event_kernel :: kernel where
  "event_kernel = upd_thread 3 (\<lambda>th. th\<lparr>event_options := 1\<rparr>) (upd_thread 3 (\<lambda>th. th\<lparr>events := 3\<rparr>)
     (upd_thread 4 (\<lambda>th. th\<lparr>events := 1\<rparr>) waiting_kernel))"

lemma event_kernel_facts:
  "sched_inv {} event_kernel" "wait_qs event_kernel = (\<lambda>_. [])(ObjQ 7 := [3, 4])" "z_is_thread_ready (threads event_kernel (current event_kernel))"
  "events (threads event_kernel 3) = 3" "event_options (threads event_kernel 3) = 1" "events (threads event_kernel 4) = 1"
  "event_options (threads event_kernel 4) = 0" "alive (threads event_kernel 3)" "alive (threads event_kernel 4)"
proof -
  show "sched_inv {} event_kernel" using waiting_kernel_inv by (simp add: event_kernel_def frame_simps)
  show "wait_qs event_kernel = (\<lambda>_. [])(ObjQ 7 := [3, 4])" by (simp add: event_kernel_def frame_simps)
  show "z_is_thread_ready (threads event_kernel (current event_kernel))"
    using waiting_kernel_can_block(1) by (simp add: event_kernel_def can_block_def frame_simps)
qed (simp_all add: event_kernel_def frame_simps alive_def waiting_kernel_def boot_kernel_def thread_with_def THREAD_DEAD_def
    THREAD_ABORTING_def THREAD_PENDING_def)

theorem k_event_no_lost_wakeup_witness:
  "\<not> are_wait_conditions_met 3 2 K_EVENT_WAIT_ALL \<and> sched_inv {} event_kernel"
proof -
  let ?e = "\<lparr>event_q = 7, event_bits = 2\<rparr>"
  have ok: "event_ok ?e event_kernel" "3 \<in> set (wait_qs event_kernel (ObjQ (event_q ?e)))"
    by (simp_all add: event_ok_def wants_def are_wait_conditions_met_def K_EVENT_WAIT_ALL_def K_EVENT_WAIT_MASK_def event_kernel_facts)
  from k_event_no_lost_wakeup [OF event_run.start event_kernel_facts(1) ok]
  show ?thesis by (simp add: event_kernel_facts K_EVENT_WAIT_MASK_def K_EVENT_WAIT_ALL_def)
qed

text \<open>Posting events sets the masked bits and wakes exactly the waiting threads whose condition then holds:
  each returns from its wait with those of its events that are set, the others keep waiting in order, and the
  best ready thread runs.\<close>

theorem k_event_post_wakes_satisfied:
  assumes "sched_inv {} k" "waiters_alive e k" "z_is_thread_ready (threads k (current k))"
    "b = (event_bits e AND NOT m) OR (evs AND m)"
  shows "\<exists>k'. k_event_set_masked evs m e k = (event_bits e AND m, e\<lparr>event_bits := b\<rparr>, k') \<and> sched_inv {} k' \<and> runs_best k' \<and>
     wait_qs k' (ObjQ (event_q e)) = filter (\<lambda>t. \<not> wants k b t) (wait_qs k (ObjQ (event_q e))) \<and>
     (\<forall>t \<in> set (wait_qs k (ObjQ (event_q e))). wants k b t \<longrightarrow> pended_on (threads k' t) = None \<and>
        k_event_wait_resume (events (threads k t)) (k'\<lparr>current := t\<rparr>) = b AND events (threads k t))"
proof -
  obtain k2 where k2: "k_event_post_internal evs m e k = (event_bits e AND m, e\<lparr>event_bits := b\<rparr>, z_reschedule k2)"
    "sched_inv {} k2" "wait_qs k2 = (wait_qs k)(event_wq e := filter (\<lambda>t. \<not> wants k b t) (wait_qs k (event_wq e)))"
    "\<forall>t \<in> set (wait_qs k (event_wq e)). wants k b t \<longrightarrow> pended_on (threads k2 t) = None \<and> swap_retval (threads k2 t) = 0 \<and> events (threads k2 t) = b"
    "\<forall>t. t \<notin> set (filter (wants k b) (wait_qs k (event_wq e))) \<longrightarrow> threads k2 t = threads k t" "current k2 = current k"
    by (rule event_post_step [OF assms(1,2,4)], rule that, assumption+)
  have th: "threads (z_reschedule k2) t = threads k2 t" if "t \<in> set (wait_qs k (event_wq e))" for t
  proof -
    have "t \<noteq> current k2" using that ready_not_pended(5) [OF assms(1,3), of "event_wq e"] k2(6) by auto
    then show ?thesis by (simp add: frame_simps)
  qed
  show ?thesis using k2(1-4) th
    by (intro exI [of _ "z_reschedule k2"])
      (simp add: k_event_set_masked_def z_reschedule_inv z_reschedule_runs_best frame_simps k_event_wait_resume_def Let_def)
qed

theorem k_event_post_wakes_satisfied_witness:
  "\<exists>k'. k_event_set_masked 1 1 \<lparr>event_q = 7, event_bits = 0\<rparr> event_kernel = (0, \<lparr>event_q = 7, event_bits = 1\<rparr>, k') \<and>
     wait_qs k' (ObjQ 7) = [3] \<and> k_event_wait_resume 1 (k'\<lparr>current := 4\<rparr>) = 1"
proof -
  have a: "waiters_alive \<lparr>event_q = 7, event_bits = 0\<rparr> event_kernel" by (simp add: waiters_alive_def event_kernel_facts)
  have w: "wants event_kernel 1 4" "\<not> wants event_kernel 1 3"
    by (simp_all add: wants_def are_wait_conditions_met_def event_kernel_facts K_EVENT_WAIT_MASK_def K_EVENT_WAIT_ALL_def)
  from k_event_post_wakes_satisfied [OF event_kernel_facts(1) a event_kernel_facts(3), of 1 1 1] w show ?thesis
    by (auto simp: event_kernel_facts)
qed

end
