(* ===== verification/Slist.thy ===== *)
theory Slist
  imports Zephyr_Prelude
begin

text \<open>
  Singly linked lists: the list operations of \<open>sys/list_gen.h\<close>, which are generated for any node type from
  its access functions, and the two node types, \<open>sys/slist.h\<close> with a plain next pointer and \<open>sys/sflist.h\<close>
  with flags in the low bits of the next pointer. The memory maps the address of a node to the word it
  holds. The locale \<open>genlist\<close> states what the access functions promise; in it each generated operation is
  shown to be the operation on lists of nodes.
\<close>

type_synonym wmem = "u32 \<Rightarrow> u32"

record sys_list =
  lhead :: u32
  ltail :: u32

type_synonym peek_fn = "wmem \<Rightarrow> u32 \<Rightarrow> u32"
type_synonym set_fn = "u32 \<Rightarrow> u32 \<Rightarrow> wmem \<Rightarrow> wmem"

section \<open>Generated operations\<close>

definition genlist_init :: "sys_list \<Rightarrow> sys_list" where
  "genlist_init l = l\<lparr>lhead := 0, ltail := 0\<rparr>"

definition genlist_is_empty :: "sys_list \<Rightarrow> bool" where
  "genlist_is_empty l \<longleftrightarrow> lhead l = 0"

definition genlist_peek_next :: "peek_fn \<Rightarrow> u32 \<Rightarrow> wmem \<Rightarrow> u32" where
  "genlist_peek_next peek n h = (if n \<noteq> 0 then peek h n else 0)"

definition genlist_prepend :: "set_fn \<Rightarrow> u32 \<Rightarrow> sys_list \<Rightarrow> wmem \<Rightarrow> sys_list \<times> wmem" where
  "genlist_prepend nset n l h =
     (let h1 = nset n (lhead l) h;
          l1 = l\<lparr>lhead := n\<rparr>
      in (if ltail l1 = 0 then l1\<lparr>ltail := lhead l1\<rparr> else l1, h1))"

definition genlist_append :: "set_fn \<Rightarrow> u32 \<Rightarrow> sys_list \<Rightarrow> wmem \<Rightarrow> sys_list \<times> wmem" where
  "genlist_append nset n l h =
     (let h1 = nset n 0 h
      in if ltail l = 0 then (l\<lparr>ltail := n, lhead := n\<rparr>, h1)
         else (l\<lparr>ltail := n\<rparr>, nset (ltail l) n h1))"

definition genlist_append_list :: "set_fn \<Rightarrow> u32 \<Rightarrow> u32 \<Rightarrow> sys_list \<Rightarrow> wmem \<Rightarrow> sys_list \<times> wmem" where
  "genlist_append_list nset head tail l h =
     (if head \<noteq> 0 \<and> tail \<noteq> 0
      then if ltail l = 0 then (l\<lparr>lhead := head, ltail := tail\<rparr>, h)
           else (l\<lparr>ltail := tail\<rparr>, nset (ltail l) head h)
      else (l, h))"

definition genlist_merge_list :: "set_fn \<Rightarrow> sys_list \<Rightarrow> sys_list \<Rightarrow> wmem \<Rightarrow> sys_list \<times> sys_list \<times> wmem" where
  "genlist_merge_list nset l to_append h =
     (let (l1, h1) = genlist_append_list nset (lhead to_append) (ltail to_append) l h
      in (l1, genlist_init to_append, h1))"

definition genlist_insert :: "peek_fn \<Rightarrow> set_fn \<Rightarrow> u32 \<Rightarrow> u32 \<Rightarrow> sys_list \<Rightarrow> wmem \<Rightarrow> sys_list \<times> wmem" where
  "genlist_insert peek nset prev n l h =
     (if prev = 0 then genlist_prepend nset n l h
      else if peek h prev = 0 then genlist_append nset n l h
      else (l, nset prev n (nset n (peek h prev) h)))"

definition genlist_get_not_empty :: "peek_fn \<Rightarrow> sys_list \<Rightarrow> wmem \<Rightarrow> u32 \<times> sys_list" where
  "genlist_get_not_empty peek l h =
     (let n = lhead l;
          l1 = l\<lparr>lhead := peek h n\<rparr>
      in (n, if ltail l1 = n then l1\<lparr>ltail := lhead l1\<rparr> else l1))"

definition genlist_get :: "peek_fn \<Rightarrow> sys_list \<Rightarrow> wmem \<Rightarrow> u32 \<times> sys_list" where
  "genlist_get peek l h = (if genlist_is_empty l then (0, l) else genlist_get_not_empty peek l h)"

definition genlist_remove :: "peek_fn \<Rightarrow> set_fn \<Rightarrow> u32 \<Rightarrow> u32 \<Rightarrow> sys_list \<Rightarrow> wmem \<Rightarrow> sys_list \<times> wmem" where
  "genlist_remove peek nset prev n l h =
     (let (l1, h1) =
            (if prev = 0
             then let l1 = l\<lparr>lhead := peek h n\<rparr>
                  in (if ltail l1 = n then l1\<lparr>ltail := lhead l1\<rparr> else l1, h)
             else (if ltail l = n then l\<lparr>ltail := prev\<rparr> else l, nset prev (peek h n) h))
      in (l1, nset n 0 h1))"

text \<open>The loops over the nodes of a list. \<open>find_loop\<close> returns whether the node was found, and the node in
  front of it, or the last node when it was not.\<close>

partial_function (option) find_loop :: "peek_fn \<Rightarrow> u32 \<Rightarrow> u32 \<Rightarrow> u32 \<Rightarrow> wmem \<Rightarrow> (bool \<times> u32) option" where
  "find_loop peek n previous cur h =
     (if cur = 0 then Some (False, previous)
      else if cur = n then Some (True, previous)
      else find_loop peek n cur (genlist_peek_next peek cur h) h)"

definition genlist_find :: "peek_fn \<Rightarrow> u32 \<Rightarrow> sys_list \<Rightarrow> wmem \<Rightarrow> (bool \<times> u32) option" where
  "genlist_find peek n l h = find_loop peek n 0 (lhead l) h"

definition genlist_find_and_remove :: "peek_fn \<Rightarrow> set_fn \<Rightarrow> u32 \<Rightarrow> sys_list \<Rightarrow> wmem \<Rightarrow> (bool \<times> sys_list \<times> wmem) option" where
  "genlist_find_and_remove peek nset n l h =
     map_option (\<lambda>(found, prev). if found then (True, genlist_remove peek nset prev n l h) else (False, l, h))
       (find_loop peek n 0 (lhead l) h)"

partial_function (option) len_loop :: "peek_fn \<Rightarrow> u32 \<Rightarrow> u32 \<Rightarrow> wmem \<Rightarrow> u32 option" where
  "len_loop peek cur len h =
     (if cur = 0 then Some len else len_loop peek (genlist_peek_next peek cur h) (len + 1) h)"

definition genlist_len :: "peek_fn \<Rightarrow> sys_list \<Rightarrow> wmem \<Rightarrow> u32 option" where
  "genlist_len peek l h = len_loop peek (lhead l) 0 h"

section \<open>Nodes\<close>

text \<open>\<open>slist.h\<close>: the word of a node is the next pointer.\<close>

definition z_snode_next_peek :: peek_fn where
  "z_snode_next_peek h n = h n"

definition z_snode_next_set :: set_fn where
  "z_snode_next_set parent child h = h(parent := child)"

text \<open>\<open>sflist.h\<close>: nodes are aligned to four bytes and the two low bits of the word are flags.\<close>

definition SYS_SFLIST_FLAGS_MASK :: u32 where
  "SYS_SFLIST_FLAGS_MASK = 4 - 1"

definition z_sfnode_next_peek :: peek_fn where
  "z_sfnode_next_peek h n = h n AND NOT SYS_SFLIST_FLAGS_MASK"

definition sys_sfnode_flags_get :: "wmem \<Rightarrow> u32 \<Rightarrow> u8" where
  "sys_sfnode_flags_get h n = ucast (h n AND SYS_SFLIST_FLAGS_MASK)"

definition z_sfnode_next_set :: set_fn where
  "z_sfnode_next_set parent child h = h(parent := ucast (sys_sfnode_flags_get h parent) OR child)"

definition sys_sfnode_init :: "u32 \<Rightarrow> u8 \<Rightarrow> wmem \<Rightarrow> wmem" where
  "sys_sfnode_init n flags h = h(n := ucast flags)"

definition sys_sfnode_flags_set :: "u32 \<Rightarrow> u8 \<Rightarrow> wmem \<Rightarrow> wmem" where
  "sys_sfnode_flags_set n flags h = h(n := z_sfnode_next_peek h n OR ucast flags)"

section \<open>Lists of nodes\<close>

text \<open>The nodes \<open>xs\<close> lead from the pointer \<open>p\<close> to the pointer \<open>q\<close>.\<close>

fun list_seg :: "peek_fn \<Rightarrow> wmem \<Rightarrow> u32 \<Rightarrow> u32 list \<Rightarrow> u32 \<Rightarrow> bool" where
  "list_seg peek h p [] q \<longleftrightarrow> p = q"
| "list_seg peek h p (x # xs) q \<longleftrightarrow> p = x \<and> list_seg peek h (peek h x) xs q"

definition list_holds :: "peek_fn \<Rightarrow> (u32 \<Rightarrow> bool) \<Rightarrow> sys_list \<Rightarrow> wmem \<Rightarrow> u32 list \<Rightarrow> bool" where
  "list_holds peek valid l h xs \<longleftrightarrow> list_seg peek h (lhead l) xs 0 \<and> distinct xs \<and> (\<forall>x \<in> set xs. valid x) \<and>
     ltail l = (if xs = [] then 0 else last xs)"

lemma list_seg_append [simp]: "list_seg peek h p (xs @ ys) q \<longleftrightarrow> (\<exists>r. list_seg peek h p xs r \<and> list_seg peek h r ys q)"
  by (induction xs arbitrary: p) auto

locale genlist =
  fixes peek :: peek_fn and nset :: set_fn and valid :: "u32 \<Rightarrow> bool"
  assumes valid_not_null: "valid n \<Longrightarrow> n \<noteq> 0"
    and peek_set: "valid n \<Longrightarrow> c = 0 \<or> valid c \<Longrightarrow> peek (nset n c h) n = c"
    and peek_other: "m \<noteq> n \<Longrightarrow> peek (nset n c h) m = peek h m"
begin

lemma seg_other: "n \<notin> set xs \<Longrightarrow> list_seg peek (nset n c h) p xs q = list_seg peek h p xs q"
proof (induction xs arbitrary: p)
  case (Cons x xs)
  have "peek (nset n c h) x = peek h x" using Cons.prems by (intro peek_other) auto
  with Cons show ?case by simp
qed simp

lemma holds_empty: "list_holds peek valid (genlist_init l) h []"
  by (simp add: list_holds_def genlist_init_def)

lemma is_empty: "list_holds peek valid l h xs \<Longrightarrow> genlist_is_empty l \<longleftrightarrow> xs = []"
  by (cases xs) (auto simp: list_holds_def genlist_is_empty_def dest: valid_not_null)

lemma head_or_null: "list_holds peek valid l h xs \<Longrightarrow> lhead l = (if xs = [] then 0 else hd xs)"
  by (cases xs) (auto simp: list_holds_def)

lemma tail_null: "list_holds peek valid l h xs \<Longrightarrow> ltail l = 0 \<longleftrightarrow> xs = []"
  using valid_not_null last_in_set [of xs] by (auto simp: list_holds_def)

lemma prepend:
  assumes "list_holds peek valid l h xs" "valid n" "n \<notin> set xs" "genlist_prepend nset n l h = (l', h')"
  shows "list_holds peek valid l' h' (n # xs)"
proof -
  have "peek h' n = lhead l"
    using assms head_or_null [OF assms(1)] by (auto simp: genlist_prepend_def Let_def peek_set list_holds_def)
  moreover have "list_seg peek h' (lhead l) xs 0" using assms by (auto simp: genlist_prepend_def Let_def seg_other list_holds_def)
  ultimately show ?thesis using assms tail_null [OF assms(1)]
    by (auto simp: genlist_prepend_def Let_def list_holds_def split: if_splits)
qed

lemma append:
  assumes "list_holds peek valid l h xs" "valid n" "n \<notin> set xs" "genlist_append nset n l h = (l', h')"
  shows "list_holds peek valid l' h' (xs @ [n])"
proof (cases xs rule: rev_cases)
  case Nil
  then show ?thesis using assms by (auto simp: genlist_append_def list_holds_def peek_set)
next
  case (snoc ys y)
  then have y: "valid y" "ltail l = y" "y \<noteq> 0" "y \<notin> set ys" "n \<noteq> y" "list_seg peek h (lhead l) ys y"
    using assms by (auto simp: list_holds_def dest: valid_not_null)
  have h': "h' = nset y n (nset n 0 h)" and l': "l' = l\<lparr>ltail := n\<rparr>" using assms(4) y by (auto simp: genlist_append_def Let_def)
  have "list_seg peek h' (lhead l) ys y" using y assms(3) snoc by (simp add: h' seg_other)
  moreover have "peek h' y = n" "peek h' n = 0" using y assms(2) by (simp_all add: h' peek_set peek_other)
  ultimately show ?thesis using assms(1-3) snoc by (auto simp: l' list_holds_def)
qed

lemma insert_after:
  assumes "list_holds peek valid l h (xs @ p # ys)" "valid n" "n \<notin> set (xs @ p # ys)" "genlist_insert peek nset p n l h = (l', h')"
  shows "list_holds peek valid l' h' (xs @ p # n # ys)"
proof -
  have p: "valid p" "p \<noteq> 0" "p \<noteq> n" "p \<notin> set xs" "p \<notin> set ys" "list_seg peek h (lhead l) xs p" "list_seg peek h (peek h p) ys 0"
    using assms(1,3) by (auto simp: list_holds_def dest: valid_not_null)
  show ?thesis
  proof (cases ys)
    case Nil
    then have "genlist_append nset n l h = (l', h')" using p assms(4) by (auto simp: genlist_insert_def)
    from append [OF assms(1,2,3) this] Nil show ?thesis by simp
  next
    case (Cons y ys')
    then have y: "peek h p = y" "valid y" "y \<noteq> 0" using p assms(1) by (auto simp: list_holds_def dest: valid_not_null)
    then have h': "h' = nset p n (nset n y h)" "l' = l" using p assms(4) by (auto simp: genlist_insert_def)
    have "list_seg peek h' (lhead l) xs p" using p assms(3) by (simp add: h' seg_other)
    moreover have "list_seg peek h' y ys 0" using p y assms(3) by (simp add: h' seg_other)
    moreover have "peek h' p = n" "peek h' n = y" using p y assms(2) by (simp_all add: h' peek_set peek_other)
    ultimately show ?thesis using assms(1-3) Cons h'(2) by (auto simp: list_holds_def)
  qed
qed

lemma insert_front: "genlist_insert peek nset 0 n l h = genlist_prepend nset n l h"
  by (simp add: genlist_insert_def)

lemma get:
  assumes "list_holds peek valid l h (x # xs)" "genlist_get_not_empty peek l h = (n, l')"
  shows "n = x" "list_holds peek valid l' h xs"
proof -
  have x: "lhead l = x" "list_seg peek h (peek h x) xs 0" "distinct (x # xs)" "\<forall>y \<in> set (x # xs). valid y"
    "ltail l = last (x # xs)" using assms(1) by (simp_all add: list_holds_def)
  then show "n = x" using assms(2) by (auto simp: genlist_get_not_empty_def Let_def)
  show "list_holds peek valid l' h xs"
  proof (cases xs)
    case Nil
    then show ?thesis using x assms(2) by (auto simp: genlist_get_not_empty_def Let_def list_holds_def)
  next
    case (Cons y ys)
    then have "last (x # xs) \<noteq> x" using x(3) last_in_set [of xs] by auto
    then show ?thesis using x assms(2) Cons by (auto simp: genlist_get_not_empty_def Let_def list_holds_def)
  qed
qed

lemma remove_first:
  assumes "list_holds peek valid l h (x # xs)" "genlist_remove peek nset 0 x l h = (l', h')"
  shows "list_holds peek valid l' h' xs" "peek h' x = 0"
proof -
  obtain l1 where l1: "genlist_get_not_empty peek l h = (x, l1)" "l' = l1" "h' = nset x 0 h"
    using assms by (auto simp: genlist_remove_def genlist_get_not_empty_def Let_def list_holds_def)
  have x: "x \<notin> set xs" "valid x" using assms(1) by (simp_all add: list_holds_def)
  then show "list_holds peek valid l' h' xs" using get(2) [OF assms(1) l1(1)] by (simp add: l1 list_holds_def seg_other)
  show "peek h' x = 0" using x by (simp add: l1 peek_set)
qed

lemma remove_after:
  assumes "list_holds peek valid l h (xs @ p # x # ys)" "genlist_remove peek nset p x l h = (l', h')"
  shows "list_holds peek valid l' h' (xs @ p # ys)" "peek h' x = 0"
proof -
  have d: "distinct (xs @ p # x # ys)" "valid p" "valid x" "\<forall>y \<in> set ys. valid y" "p \<noteq> 0"
    and s: "list_seg peek h (lhead l) xs p" "peek h p = x" "list_seg peek h (peek h x) ys 0"
    and t: "ltail l = last (x # ys)"
    using assms(1) by (auto simp: list_holds_def dest: valid_not_null)
  have q: "peek h x = 0 \<or> valid (peek h x)" using s(3) d(4) by (cases ys) auto
  have h': "h' = nset x 0 (nset p (peek h x) h)" and l': "l' = (if ltail l = x then l\<lparr>ltail := p\<rparr> else l)"
    using assms(2) d(5) by (auto simp: genlist_remove_def Let_def)
  have "list_seg peek h' (lhead l) xs p" "list_seg peek h' (peek h x) ys 0" using s d(1) by (simp_all add: h' seg_other)
  moreover have "peek h' p = peek h x" "peek h' x = 0" using d q by (simp_all add: h' peek_set peek_other)
  moreover have "ltail l' = last (p # ys)" using t d(1) last_in_set [of ys] by (cases ys) (auto simp: l')
  moreover have "lhead l' = lhead l" by (simp add: l')
  ultimately show "list_holds peek valid l' h' (xs @ p # ys)" "peek h' x = 0" using assms(1) by (auto simp: list_holds_def)
qed

lemma append_list:
  assumes "list_holds peek valid l h xs" "list_seg peek h (hd ys) ys 0" "ys \<noteq> []" "distinct (xs @ ys)" "\<forall>y \<in> set ys. valid y"
    "genlist_append_list nset (hd ys) (last ys) l h = (l', h')"
  shows "list_holds peek valid l' h' (xs @ ys)"
proof -
  have z: "valid (hd ys)" "hd ys \<noteq> 0" "last ys \<noteq> 0" using assms(3,5) hd_in_set last_in_set valid_not_null by metis+
  show ?thesis
  proof (cases xs rule: rev_cases)
    case Nil
    then show ?thesis using assms z tail_null [OF assms(1)] by (auto simp: genlist_append_list_def list_holds_def)
  next
    case (snoc zs y)
    then have y: "valid y" "ltail l = y" "y \<noteq> 0" "y \<notin> set zs" "y \<notin> set ys" "list_seg peek h (lhead l) zs y"
      using assms(1,4) by (auto simp: list_holds_def dest: valid_not_null)
    have h': "h' = nset y (hd ys) h" "l' = l\<lparr>ltail := last ys\<rparr>" using assms(6) y z by (auto simp: genlist_append_list_def)
    have "list_seg peek h' (lhead l) zs y" "list_seg peek h' (hd ys) ys 0" "peek h' y = hd ys"
      using y z assms(2) by (simp_all add: h' seg_other peek_set)
    then show ?thesis using assms(1,3-5) snoc by (auto simp: h' list_holds_def)
  qed
qed

lemma find_loop_absent:
  "list_seg peek h cur xs 0 \<Longrightarrow> \<forall>x \<in> set xs. valid x \<Longrightarrow> n \<notin> set xs \<Longrightarrow>
   find_loop peek n prev cur h = Some (False, if xs = [] then prev else last xs)"
proof (induction xs arbitrary: cur prev)
  case (Cons x xs)
  then have "find_loop peek n prev cur h = find_loop peek n x (peek h x) h"
    by (subst find_loop.simps) (auto simp: genlist_peek_next_def dest: valid_not_null)
  with Cons show ?case by simp
qed (simp add: find_loop.simps)

lemma find_loop_found:
  "list_seg peek h cur (xs @ n # ys) 0 \<Longrightarrow> \<forall>x \<in> set (xs @ n # ys). valid x \<Longrightarrow> n \<notin> set xs \<Longrightarrow>
   find_loop peek n prev cur h = Some (True, if xs = [] then prev else last xs)"
proof (induction xs arbitrary: cur prev)
  case Nil
  then show ?case by (subst find_loop.simps) (auto dest: valid_not_null)
next
  case (Cons x xs)
  then have "find_loop peek n prev cur h = find_loop peek n x (peek h x) h"
    by (subst find_loop.simps) (auto simp: genlist_peek_next_def dest: valid_not_null)
  with Cons show ?case by simp
qed

lemma find_and_remove:
  assumes "list_holds peek valid l h xs" "n \<noteq> 0"
  shows "\<exists>l' h'. genlist_find_and_remove peek nset n l h = Some (n \<in> set xs, l', h') \<and> list_holds peek valid l' h' (remove1 n xs)"
proof (cases "n \<in> set xs")
  case False
  then show ?thesis using assms find_loop_absent [of h "lhead l" xs n 0]
    by (auto simp: genlist_find_and_remove_def list_holds_def remove1_idem)
next
  case True
  then obtain as bs where s: "xs = as @ n # bs" "n \<notin> set as" by (meson split_list_first)
  then have f: "find_loop peek n 0 (lhead l) h = Some (True, if as = [] then 0 else last as)"
    using assms(1) find_loop_found [of h "lhead l" as n bs 0] by (simp add: list_holds_def)
  obtain l' h' where r: "genlist_remove peek nset (if as = [] then 0 else last as) n l h = (l', h')" by fastforce
  have "list_holds peek valid l' h' (as @ bs)"
  proof (cases as rule: rev_cases)
    case Nil
    then show ?thesis using remove_first(1) [of l h n bs] assms(1) s r by simp
  next
    case (snoc cs p)
    then show ?thesis using remove_after(1) [of l h cs p n bs] assms(1) s r by simp
  qed
  then show ?thesis using f r s True by (auto simp: genlist_find_and_remove_def remove1_append)
qed

lemma len_loop_length:
  "list_seg peek h cur xs 0 \<Longrightarrow> \<forall>x \<in> set xs. valid x \<Longrightarrow> len_loop peek cur len h = Some (len + of_nat (length xs))"
proof (induction xs arbitrary: cur len)
  case (Cons x xs)
  then have "len_loop peek cur len h = len_loop peek (peek h x) (len + 1) h"
    by (subst len_loop.simps) (auto simp: genlist_peek_next_def dest: valid_not_null)
  with Cons show ?case by (simp add: algebra_simps)
qed (simp add: len_loop.simps)

lemma len: "list_holds peek valid l h xs \<Longrightarrow> genlist_len peek l h = Some (of_nat (length xs))"
  using len_loop_length [of h "lhead l" xs 0] by (simp add: genlist_len_def list_holds_def)

end

section \<open>The two node types\<close>

abbreviation snode_ok :: "u32 \<Rightarrow> bool" where
  "snode_ok n \<equiv> n \<noteq> 0"

interpretation slist: genlist z_snode_next_peek z_snode_next_set snode_ok
  by unfold_locales (auto simp: z_snode_next_peek_def z_snode_next_set_def)

definition sfnode_ok :: "u32 \<Rightarrow> bool" where
  "sfnode_ok n \<longleftrightarrow> n \<noteq> 0 \<and> n AND SYS_SFLIST_FLAGS_MASK = 0"

lemma flags_mask: "SYS_SFLIST_FLAGS_MASK = mask 2"
  by (simp add: SYS_SFLIST_FLAGS_MASK_def mask_eq_decr_exp)

lemma bit_flags_get: "bit (sys_sfnode_flags_get h n) i \<longleftrightarrow> bit (h n) i \<and> i < 2"
  by (auto simp: sys_sfnode_flags_get_def flags_mask bit_simps)

lemma aligned_bits: "c = 0 \<or> sfnode_ok c \<Longrightarrow> \<not> bit c 0 \<and> \<not> bit c 1"
proof -
  have "\<not> bit c i" if "c AND mask 2 = 0" "i < 2" for i
  proof
    assume "bit c i"
    then have "bit (c AND mask 2) i" using that(2) by (simp add: bit_simps)
    with that(1) show False by simp
  qed
  then show "c = 0 \<or> sfnode_ok c \<Longrightarrow> \<not> bit c 0 \<and> \<not> bit c 1" by (auto simp: sfnode_ok_def flags_mask)
qed

lemma sfnode_set_next:
  assumes "c = 0 \<or> sfnode_ok c"
  shows "z_sfnode_next_peek (z_sfnode_next_set n c h) n = c"
    "sys_sfnode_flags_get (z_sfnode_next_set n c h) m = sys_sfnode_flags_get h m"
proof -
  have c: "\<not> bit c i" if "i < 2" for i using aligned_bits [OF assms] that by (auto simp: less_2_cases_iff)
  show "z_sfnode_next_peek (z_sfnode_next_set n c h) n = c"
    by (rule bit_word_eqI) (use c in \<open>auto simp: z_sfnode_next_peek_def z_sfnode_next_set_def bit_simps bit_flags_get flags_mask\<close>)
  show "sys_sfnode_flags_get (z_sfnode_next_set n c h) m = sys_sfnode_flags_get h m"
    by (rule bit_word_eqI) (use c in \<open>auto simp: bit_flags_get z_sfnode_next_set_def bit_simps\<close>)
qed

interpretation sflist: genlist z_sfnode_next_peek z_sfnode_next_set sfnode_ok
  by unfold_locales (auto simp: sfnode_ok_def sfnode_set_next, auto simp: z_sfnode_next_peek_def z_sfnode_next_set_def)

text \<open>Operations on a flagged list keep every flag, and write only to nodes of the list.\<close>

lemma sfnode_set_other: "a \<noteq> n \<Longrightarrow> z_sfnode_next_set n c h a = h a"
  by (simp add: z_sfnode_next_set_def)

abbreviation sflist_holds :: "sys_list \<Rightarrow> wmem \<Rightarrow> u32 list \<Rightarrow> bool" where
  "sflist_holds \<equiv> list_holds z_sfnode_next_peek sfnode_ok"

lemma sflist_tail: "sflist_holds l h xs \<Longrightarrow> ltail l = 0 \<or> ltail l \<in> set xs"
  by (auto simp: list_holds_def)

lemma sflist_head: "sflist_holds l h xs \<Longrightarrow> lhead l = 0 \<or> sfnode_ok (lhead l)"
  by (cases xs) (auto simp: list_holds_def)

lemma sflist_next: "sflist_holds l h xs \<Longrightarrow> p \<in> set xs \<Longrightarrow> z_sfnode_next_peek h p = 0 \<or> sfnode_ok (z_sfnode_next_peek h p)"
proof -
  assume a: "sflist_holds l h xs" "p \<in> set xs"
  then obtain as bs where s: "xs = as @ p # bs" by (meson split_list)
  with a show ?thesis by (cases bs) (auto simp: list_holds_def)
qed

lemma sflist_insert_frame:
  assumes "sflist_holds l h xs" "sfnode_ok n" "p = 0 \<or> p \<in> set xs"
    "genlist_insert z_sfnode_next_peek z_sfnode_next_set p n l h = (l', h')"
  shows "sys_sfnode_flags_get h' m = sys_sfnode_flags_get h m" "a \<notin> set (n # xs) \<Longrightarrow> h' a = h a"
proof -
  note f = assms sflist_tail [OF assms(1)] sflist_head [OF assms(1)] sflist_next [OF assms(1), of p]
  show "sys_sfnode_flags_get h' m = sys_sfnode_flags_get h m" using f
    by (auto simp: genlist_insert_def genlist_prepend_def genlist_append_def Let_def sfnode_set_next split: if_splits)
  show "a \<notin> set (n # xs) \<Longrightarrow> h' a = h a" using f
    by (auto simp: genlist_insert_def genlist_prepend_def genlist_append_def Let_def z_sfnode_next_set_def split: if_splits)
qed

lemma sflist_remove_frame:
  assumes "sflist_holds l h xs" "p = 0 \<or> p \<in> set xs" "n \<in> set xs"
    "genlist_remove z_sfnode_next_peek z_sfnode_next_set p n l h = (l', h')"
  shows "sys_sfnode_flags_get h' m = sys_sfnode_flags_get h m \<and> (a \<notin> set xs \<longrightarrow> h' a = h a)"
proof
  show "sys_sfnode_flags_get h' m = sys_sfnode_flags_get h m" using assms(4) sflist_next [OF assms(1,3)]
    by (auto simp: genlist_remove_def Let_def sfnode_set_next split: if_splits)
  show "a \<notin> set xs \<longrightarrow> h' a = h a" using assms
    by (auto simp: genlist_remove_def Let_def z_sfnode_next_set_def split: if_splits)
qed

lemma find_and_remove_frame:
  assumes "sflist_holds l h xs" "n \<noteq> 0"
    "genlist_find_and_remove z_sfnode_next_peek z_sfnode_next_set n l h = Some (r, l', h')"
  shows "sys_sfnode_flags_get h' m = sys_sfnode_flags_get h m" "a \<notin> set xs \<Longrightarrow> h' a = h a"
proof -
  have "sys_sfnode_flags_get h' m = sys_sfnode_flags_get h m \<and> (a \<notin> set xs \<longrightarrow> h' a = h a)"
  proof (cases "n \<in> set xs")
    case False
    then show ?thesis using assms sflist.find_loop_absent [of h "lhead l" xs n 0]
      by (auto simp: genlist_find_and_remove_def list_holds_def)
  next
    case True
    then obtain as bs where s: "xs = as @ n # bs" "n \<notin> set as" by (meson split_list_first)
    then have f: "find_loop z_sfnode_next_peek n 0 (lhead l) h = Some (True, if as = [] then 0 else last as)"
      using assms(1) sflist.find_loop_found [of h "lhead l" as n bs 0] by (simp add: list_holds_def)
    obtain p where p: "p = (if as = [] then 0 else last as)" by blast
    then have "p = 0 \<or> p \<in> set xs" using s by auto
    moreover have "genlist_remove z_sfnode_next_peek z_sfnode_next_set p n l h = (l', h')"
      using assms(3) f unfolding p [symmetric] by (simp add: genlist_find_and_remove_def)
    ultimately show ?thesis using sflist_remove_frame [OF assms(1) _ True] by blast
  qed
  then show "sys_sfnode_flags_get h' m = sys_sfnode_flags_get h m" "a \<notin> set xs \<Longrightarrow> h' a = h a" by auto
qed

section \<open>Properties\<close>

text \<open>C33: On a well-formed flagged list the generated operations are the list operations: appending, prepending and
  removing a node, taking the first one, and counting, where the loops end; none of them changes the flag bits of any
  node, although flags and links share a word.\<close>

theorem sys_sflist_refines_list:
  assumes "sflist_holds l h xs" "sfnode_ok n" "n \<notin> set xs"
  shows "(case genlist_append z_sfnode_next_set n l h of (l', h') \<Rightarrow>
       sflist_holds l' h' (xs @ [n]) \<and> sys_sfnode_flags_get h' = sys_sfnode_flags_get h) \<and>
     (case genlist_prepend z_sfnode_next_set n l h of (l', h') \<Rightarrow>
       sflist_holds l' h' (n # xs) \<and> sys_sfnode_flags_get h' = sys_sfnode_flags_get h) \<and>
     (case genlist_get z_sfnode_next_peek l h of (m, l') \<Rightarrow>
       m = (if xs = [] then 0 else hd xs) \<and> sflist_holds l' h (tl xs)) \<and>
     (\<forall>m. m \<noteq> 0 \<longrightarrow> (\<exists>l' h'. genlist_find_and_remove z_sfnode_next_peek z_sfnode_next_set m l h = Some (m \<in> set xs, l', h') \<and>
       sflist_holds l' h' (remove1 m xs) \<and> sys_sfnode_flags_get h' = sys_sfnode_flags_get h)) \<and>
     genlist_len z_sfnode_next_peek l h = Some (of_nat (length xs))"
proof -
  have a: "case genlist_append z_sfnode_next_set n l h of (l', h') \<Rightarrow>
       sflist_holds l' h' (xs @ [n]) \<and> sys_sfnode_flags_get h' = sys_sfnode_flags_get h"
  proof (cases "genlist_append z_sfnode_next_set n l h")
    case (Pair l' h')
    then have "sys_sfnode_flags_get h' m = sys_sfnode_flags_get h m" for m
      using assms(2) by (auto simp: genlist_append_def Let_def sfnode_set_next split: if_splits)
    then show ?thesis using sflist.append [OF assms Pair] Pair by auto
  qed
  have p: "case genlist_prepend z_sfnode_next_set n l h of (l', h') \<Rightarrow>
       sflist_holds l' h' (n # xs) \<and> sys_sfnode_flags_get h' = sys_sfnode_flags_get h"
  proof (cases "genlist_prepend z_sfnode_next_set n l h")
    case (Pair l' h')
    then have "sys_sfnode_flags_get h' m = sys_sfnode_flags_get h m" for m
      using sflist_head [OF assms(1)] by (auto simp: genlist_prepend_def Let_def sfnode_set_next split: if_splits)
    then show ?thesis using sflist.prepend [OF assms Pair] Pair by auto
  qed
  have g: "case genlist_get z_sfnode_next_peek l h of (m, l') \<Rightarrow> m = (if xs = [] then 0 else hd xs) \<and> sflist_holds l' h (tl xs)"
    using assms(1) sflist.is_empty [OF assms(1)] sflist.get [of l h "hd xs" "tl xs"] by (cases xs) (auto simp: genlist_get_def split: prod.split)
  have r: "\<exists>l' h'. genlist_find_and_remove z_sfnode_next_peek z_sfnode_next_set m l h = Some (m \<in> set xs, l', h') \<and>
       sflist_holds l' h' (remove1 m xs) \<and> sys_sfnode_flags_get h' = sys_sfnode_flags_get h" if "m \<noteq> 0" for m
    using sflist.find_and_remove [OF assms(1) that] find_and_remove_frame(1) [OF assms(1) that] by (metis ext)
  show ?thesis using a p g r sflist.len [OF assms(1)] by blast
qed

theorem sys_sflist_refines_list_witness:
  "genlist_len z_sfnode_next_peek \<lparr>lhead = 0x1000, ltail = 0x1010\<rparr> ((\<lambda>_. 0)(0x1000 := 0x1011, 0x1010 := 2)) = Some 2"
proof -
  have "sflist_holds \<lparr>lhead = 0x1000, ltail = 0x1010\<rparr> ((\<lambda>_. 0)(0x1000 := 0x1011, 0x1010 := 2)) [0x1000, 0x1010]"
    by (simp add: list_holds_def sfnode_ok_def z_sfnode_next_peek_def SYS_SFLIST_FLAGS_MASK_def)
  from sys_sflist_refines_list [OF this, of "0x1020"] show ?thesis by (simp add: sfnode_ok_def SYS_SFLIST_FLAGS_MASK_def)
qed

end
