(* ===== verification/Kqueue.thy ===== *)
theory Kqueue
  imports Waiting Boot Slist
begin

text \<open>
  Queues of \<open>kernel/queue.c\<close>, the base of the first-in first-out and last-in first-out objects: items are linked by
  their own first word or, when they are added by the allocating calls, by a node the kernel allocates. The
  memory holds the words of the nodes; the answer of the allocator is an argument, and calls that free a node
  return it.
\<close>

record k_queue =
  data_q :: sys_list
  queue_q :: nat

abbreviation queue_wq :: "k_queue \<Rightarrow> wqid" where
  "queue_wq q \<equiv> ObjQ (queue_q q)"

section \<open>Operations\<close>

text \<open>\<open>struct alloc_node\<close> has its data pointer behind the node.\<close>

definition z_queue_node_peek :: "u32 \<Rightarrow> bool \<Rightarrow> wmem \<Rightarrow> u32 \<times> u32 option" where
  "z_queue_node_peek node needs_free h =
     (if node \<noteq> 0 \<and> sys_sfnode_flags_get h node \<noteq> 0
      then (h (node + 4), if needs_free then Some node else None)
      else (node, None))"

definition k_queue_init :: "k_queue \<Rightarrow> kernel \<Rightarrow> k_queue \<times> kernel" where
  "k_queue_init q k = (q\<lparr>data_q := genlist_init (data_q q)\<rparr>, k\<lparr>wait_qs := (wait_qs k)(queue_wq q := [])\<rparr>)"

definition prepare_thread_to_run :: "tid \<Rightarrow> u32 \<Rightarrow> kernel \<Rightarrow> kernel" where
  "prepare_thread_to_run t data k = wake_data 0 (unat data) t k"

definition k_queue_cancel_wait :: "k_queue \<Rightarrow> kernel \<Rightarrow> kernel" where
  "k_queue_cancel_wait q k =
     (case z_unpend_first_thread (queue_wq q) k of
        (Some t, k1) \<Rightarrow> z_reschedule (prepare_thread_to_run t 0 k1)
      | (None, k1) \<Rightarrow> k1)"

text \<open>\<open>anode\<close> is the answer of \<open>z_thread_malloc\<close>.\<close>

definition queue_insert :: "u32 \<Rightarrow> u32 \<Rightarrow> u32 \<Rightarrow> bool \<Rightarrow> bool \<Rightarrow> k_queue \<Rightarrow> wmem \<Rightarrow> kernel \<Rightarrow> int \<times> k_queue \<times> wmem \<times> kernel" where
  "queue_insert anode prev data alloc is_append q h k =
     (let prev1 = (if is_append then ltail (data_q q) else prev)
      in case z_unpend_first_thread (queue_wq q) k of
           (Some t, k1) \<Rightarrow> (0, q, h, z_reschedule (prepare_thread_to_run t data k1))
         | (None, k1) \<Rightarrow>
             if alloc \<and> anode = 0 then (- ENOMEM, q, h, k1)
             else let (node, h1) = (if alloc then (anode, sys_sfnode_init anode 1 (h(anode + 4 := data)))
                                    else (data, sys_sfnode_init data 0 h));
                      (l, h2) = genlist_insert z_sfnode_next_peek z_sfnode_next_set prev1 node (data_q q) h1
                  in (0, q\<lparr>data_q := l\<rparr>, h2, k1))"

definition k_queue_insert :: "u32 \<Rightarrow> u32 \<Rightarrow> k_queue \<Rightarrow> wmem \<Rightarrow> kernel \<Rightarrow> k_queue \<times> wmem \<times> kernel" where
  "k_queue_insert prev data q h k = snd (queue_insert 0 prev data False False q h k)"

definition k_queue_append :: "u32 \<Rightarrow> k_queue \<Rightarrow> wmem \<Rightarrow> kernel \<Rightarrow> k_queue \<times> wmem \<times> kernel" where
  "k_queue_append data q h k = snd (queue_insert 0 0 data False True q h k)"

definition k_queue_prepend :: "u32 \<Rightarrow> k_queue \<Rightarrow> wmem \<Rightarrow> kernel \<Rightarrow> k_queue \<times> wmem \<times> kernel" where
  "k_queue_prepend data q h k = snd (queue_insert 0 0 data False False q h k)"

definition k_queue_alloc_append :: "u32 \<Rightarrow> u32 \<Rightarrow> k_queue \<Rightarrow> wmem \<Rightarrow> kernel \<Rightarrow> int \<times> k_queue \<times> wmem \<times> kernel" where
  "k_queue_alloc_append anode data q h k = queue_insert anode 0 data True True q h k"

definition k_queue_alloc_prepend :: "u32 \<Rightarrow> u32 \<Rightarrow> k_queue \<Rightarrow> wmem \<Rightarrow> kernel \<Rightarrow> int \<times> k_queue \<times> wmem \<times> kernel" where
  "k_queue_alloc_prepend anode data q h k = queue_insert anode 0 data True False q h k"

text \<open>The loop of \<open>k_queue_append_list\<close>: hand items to waiting threads while both last. It returns the remaining
  items, the thread taken off the wait queue last, and whether it handed over any item.\<close>

partial_function (option) append_list_loop ::
  "wqid \<Rightarrow> wmem \<Rightarrow> u32 \<Rightarrow> tid option \<Rightarrow> bool \<Rightarrow> kernel \<Rightarrow> (u32 \<times> tid option \<times> bool \<times> kernel) option" where
  "append_list_loop w h head thread resch k =
     (if head \<noteq> 0 \<and> thread \<noteq> None
      then let k1 = prepare_thread_to_run (the thread) head k;
               (thread1, k2) = z_unpend_first_thread w k1
           in append_list_loop w h (h head) thread1 True k2
      else Some (head, thread, resch, k))"

definition k_queue_append_list :: "u32 \<Rightarrow> u32 \<Rightarrow> k_queue \<Rightarrow> wmem \<Rightarrow> kernel \<Rightarrow> (int \<times> k_queue \<times> wmem \<times> kernel) option" where
  "k_queue_append_list head tail q h k =
     (if head = 0 \<or> tail = 0 then Some (- EINVAL, q, h, k)
      else let (thread, k1) = z_unpend_first_thread (queue_wq q) k
           in map_option (\<lambda>(head1, thread1, resch, k2).
                let (l, h1) = (if head1 \<noteq> 0 then genlist_append_list z_sfnode_next_set head1 tail (data_q q) h else (data_q q, h))
                in (0, q\<lparr>data_q := l\<rparr>, h1, if resch then z_reschedule k2 else k2))
              (append_list_loop (queue_wq q) h head thread False k1))"

definition k_queue_merge_slist :: "sys_list \<Rightarrow> k_queue \<Rightarrow> wmem \<Rightarrow> kernel \<Rightarrow> (int \<times> sys_list \<times> k_queue \<times> wmem \<times> kernel) option" where
  "k_queue_merge_slist sl q h k =
     (if genlist_is_empty sl then Some (- EINVAL, sl, q, h, k)
      else map_option (\<lambda>(r, q1, h1, k1). if r \<noteq> 0 then (r, sl, q1, h1, k1) else (0, genlist_init sl, q1, h1, k1))
             (k_queue_append_list (lhead sl) (ltail sl) q h k))"

definition k_queue_get :: "k_timeout \<Rightarrow> k_queue \<Rightarrow> wmem \<Rightarrow> kernel \<Rightarrow> (u32 \<times> u32 option) outcome \<times> k_queue \<times> kernel" where
  "k_queue_get timeout q h k =
     (if \<not> genlist_is_empty (data_q q)
      then let (node, l) = genlist_get_not_empty z_sfnode_next_peek (data_q q) h
           in (Done (z_queue_node_peek node True h), q\<lparr>data_q := l\<rparr>, k)
      else if timeout = K_NO_WAIT then (Done (0, None), q, k)
      else (Blocked, q, z_pend_curr (Some (queue_wq q)) timeout k))"

definition k_queue_get_resume :: "kernel \<Rightarrow> nat" where
  "k_queue_get_resume k = (if swap_result k \<noteq> 0 then 0 else swap_data (threads k (current k)))"

definition k_queue_remove :: "u32 \<Rightarrow> k_queue \<Rightarrow> wmem \<Rightarrow> (bool \<times> k_queue \<times> wmem) option" where
  "k_queue_remove data q h =
     map_option (\<lambda>(r, l, h1). (r, q\<lparr>data_q := l\<rparr>, h1))
       (genlist_find_and_remove z_sfnode_next_peek z_sfnode_next_set data (data_q q) h)"

definition k_queue_unique_append :: "u32 \<Rightarrow> k_queue \<Rightarrow> wmem \<Rightarrow> kernel \<Rightarrow> (bool \<times> k_queue \<times> wmem \<times> kernel) option" where
  "k_queue_unique_append data q h k =
     map_option (\<lambda>(found, _). if found then (False, q, h, k) else (True, k_queue_append data q h k))
       (find_loop z_sfnode_next_peek data 0 (lhead (data_q q)) h)"

definition k_queue_is_empty :: "k_queue \<Rightarrow> bool" where
  "k_queue_is_empty q = genlist_is_empty (data_q q)"

definition k_queue_peek_head :: "k_queue \<Rightarrow> wmem \<Rightarrow> u32" where
  "k_queue_peek_head q h = fst (z_queue_node_peek (lhead (data_q q)) False h)"

definition k_queue_peek_tail :: "k_queue \<Rightarrow> wmem \<Rightarrow> u32" where
  "k_queue_peek_tail q h = fst (z_queue_node_peek (ltail (data_q q)) False h)"

section \<open>The queue as a list of items\<close>

text \<open>An item is its data pointer and the node that was allocated for it, if any.\<close>

definition node_item :: "wmem \<Rightarrow> u32 \<Rightarrow> u32 \<times> u32 option" where
  "node_item h n = (if sys_sfnode_flags_get h n \<noteq> 0 then (h (n + 4), Some n) else (n, None))"

definition queue_items :: "wmem \<Rightarrow> u32 list \<Rightarrow> (u32 \<times> u32 option) list" where
  "queue_items h ns = map (node_item h) ns"

text \<open>The words a queue with the nodes \<open>ns\<close> uses.\<close>

definition queue_words :: "wmem \<Rightarrow> u32 list \<Rightarrow> u32 set" where
  "queue_words h ns = set ns \<union> (\<lambda>n. n + 4) ` {n \<in> set ns. sys_sfnode_flags_get h n \<noteq> 0}"

definition queue_ok :: "k_queue \<Rightarrow> wmem \<Rightarrow> kernel \<Rightarrow> u32 list \<Rightarrow> bool" where
  "queue_ok q h k ns \<longleftrightarrow> sflist_holds (data_q q) h ns \<and>
     (\<forall>n \<in> set ns. sys_sfnode_flags_get h n \<noteq> 0 \<longrightarrow> n + 4 \<notin> set ns) \<and> (wait_qs k (queue_wq q) \<noteq> [] \<longrightarrow> ns = [])"

lemma node_item_cong:
  "sys_sfnode_flags_get h' n = sys_sfnode_flags_get h n \<Longrightarrow> (sys_sfnode_flags_get h n \<noteq> 0 \<Longrightarrow> h' (n + 4) = h (n + 4)) \<Longrightarrow>
   node_item h' n = node_item h n"
  by (simp add: node_item_def)

lemma node_item_inj: "inj_on (node_item h) A"
  by (auto simp: inj_on_def node_item_def split: if_splits)

text \<open>Other code may write to any word the queue does not use.\<close>

lemma seg_cong: "(\<And>x. x \<in> set xs \<Longrightarrow> h' x = h x) \<Longrightarrow> list_seg z_sfnode_next_peek h' p xs q = list_seg z_sfnode_next_peek h p xs q"
  by (induction xs arbitrary: p) (auto simp: z_sfnode_next_peek_def)

lemma queue_frame:
  assumes "queue_ok q h k ns" "\<And>a. a \<in> queue_words h ns \<Longrightarrow> h' a = h a"
  shows "queue_ok q h' k ns" "queue_items h' ns = queue_items h ns"
proof -
  have w: "\<And>n. n \<in> set ns \<Longrightarrow> h' n = h n" using assms(2) by (auto simp: queue_words_def)
  then have f: "\<And>n. n \<in> set ns \<Longrightarrow> sys_sfnode_flags_get h' n = sys_sfnode_flags_get h n" by (simp add: sys_sfnode_flags_get_def)
  show "queue_ok q h' k ns" using assms(1) f seg_cong [OF w] by (simp add: queue_ok_def list_holds_def)
  show "queue_items h' ns = queue_items h ns" unfolding queue_items_def
    using f assms(2) by (intro map_cong refl node_item_cong) (auto simp: queue_words_def)
qed

section \<open>Inserting\<close>

lemma init_flags:
  "sys_sfnode_flags_get (sys_sfnode_init n 0 h) n = 0" "sys_sfnode_flags_get (sys_sfnode_init n 1 h) n = 1"
  "m \<noteq> n \<Longrightarrow> sys_sfnode_flags_get (sys_sfnode_init n f h) m = sys_sfnode_flags_get h m"
  by (simp_all add: sys_sfnode_flags_get_def sys_sfnode_init_def SYS_SFLIST_FLAGS_MASK_def)

text \<open>The node for an item and the memory with the node set up.\<close>

definition new_node :: "u32 \<Rightarrow> u32 \<Rightarrow> bool \<Rightarrow> wmem \<Rightarrow> u32 \<times> wmem" where
  "new_node anode data alloc h =
     (if alloc then (anode, sys_sfnode_init anode 1 (h(anode + 4 := data))) else (data, sys_sfnode_init data 0 h))"

text \<open>A node that may be added: aligned, and it does not overlap the words of the queue.\<close>

definition fresh_node :: "u32 \<Rightarrow> u32 \<Rightarrow> bool \<Rightarrow> wmem \<Rightarrow> u32 list \<Rightarrow> bool" where
  "fresh_node anode data alloc h ns \<longleftrightarrow>
     (let n = (if alloc then anode else data)
      in sfnode_ok n \<and> n \<notin> queue_words h ns \<and> (alloc \<longrightarrow> n + 4 \<notin> queue_words h ns))"

lemma new_node_facts:
  assumes "queue_ok q h k ns" "fresh_node anode data alloc h ns" "new_node anode data alloc h = (n, h1)"
  shows "n = (if alloc then anode else data)" "sfnode_ok n" "n \<notin> set ns" "queue_ok q h1 k ns" "queue_items h1 ns = queue_items h ns"
    "node_item h1 n = (data, if alloc then Some n else None)" "sys_sfnode_flags_get h1 n = (if alloc then 1 else 0)"
    "\<And>m. m \<in> set ns \<Longrightarrow> sys_sfnode_flags_get h1 m = sys_sfnode_flags_get h m" "alloc \<Longrightarrow> n + 4 \<notin> set ns"
    "\<And>m. m \<in> set ns \<Longrightarrow> sys_sfnode_flags_get h m \<noteq> 0 \<Longrightarrow> m + 4 \<noteq> n"
proof -
  show n: "n = (if alloc then anode else data)" using assms(3) by (auto simp: new_node_def split: if_splits)
  have f: "sfnode_ok n" "n \<notin> queue_words h ns" "alloc \<longrightarrow> n + 4 \<notin> queue_words h ns"
    using assms(2) by (simp_all add: fresh_node_def n Let_def)
  then show "sfnode_ok n" "n \<notin> set ns" "alloc \<Longrightarrow> n + 4 \<notin> set ns"
    "\<And>m. m \<in> set ns \<Longrightarrow> sys_sfnode_flags_get h m \<noteq> 0 \<Longrightarrow> m + 4 \<noteq> n" by (auto simp: queue_words_def)
  have w: "h1 a = h a" if "a \<in> queue_words h ns" for a
    using that f assms(3) n by (auto simp: new_node_def sys_sfnode_init_def split: if_splits)
  from queue_frame [OF assms(1) w] show "queue_ok q h1 k ns" "queue_items h1 ns = queue_items h ns" by simp_all
  show fl: "sys_sfnode_flags_get h1 n = (if alloc then 1 else 0)" using assms(3) by (auto simp: new_node_def init_flags split: if_splits)
  show "node_item h1 n = (data, if alloc then Some n else None)"
    using assms(3) fl by (auto simp: new_node_def node_item_def sys_sfnode_init_def split: if_splits)
  show "\<And>m. m \<in> set ns \<Longrightarrow> sys_sfnode_flags_get h1 m = sys_sfnode_flags_get h m"
    using w by (simp add: sys_sfnode_flags_get_def queue_words_def)
qed

lemma link_node:
  assumes "sflist_holds l h (as @ bs)" "sfnode_ok n" "n \<notin> set (as @ bs)"
    "genlist_insert z_sfnode_next_peek z_sfnode_next_set (if as = [] then 0 else last as) n l h = (l', h')"
  shows "sflist_holds l' h' (as @ n # bs)"
proof (cases as rule: rev_cases)
  case Nil
  then show ?thesis using assms sflist.prepend [of l h bs n l' h'] by (simp add: sflist.insert_front)
next
  case (snoc cs p)
  then show ?thesis using assms sflist.insert_after [of l h cs p bs n l' h'] by simp
qed

lemma queue_insert_free:
  assumes ok: "queue_ok q h k ns" and "wait_qs k (queue_wq q) = []" and fresh: "fresh_node anode data alloc h ns"
    and ns: "ns = as @ bs" and pos: "if is_append then bs = [] else prev = (if as = [] then 0 else last as)"
    and ins: "queue_insert anode prev data alloc is_append q h k = (r, q', h', k')"
  defines "n \<equiv> if alloc then anode else data"
  shows "r = 0" "k' = k" "queue_q q' = queue_q q" "queue_ok q' h' k (as @ n # bs)"
    "queue_items h' (as @ n # bs) = queue_items h as @ (data, if alloc then Some n else None) # queue_items h bs"
proof -
  obtain h1 where h1: "new_node anode data alloc h = (n, h1)" by (cases alloc) (auto simp: new_node_def n_def)
  note f = new_node_facts [OF ok fresh h1]
  obtain l2 h2 where l2: "genlist_insert z_sfnode_next_peek z_sfnode_next_set (if as = [] then 0 else last as) n (data_q q) h1 = (l2, h2)"
    by fastforce
  have p: "(if is_append then ltail (data_q q) else prev) = (if as = [] then 0 else last as)"
    using pos ok ns by (auto simp: queue_ok_def list_holds_def)
  have u: "z_unpend_first_thread (queue_wq q) k = (None, k)" using assms(2) by (simp add: z_unpend_first_thread_def z_priq_dumb_best_def)
  have "anode \<noteq> 0" if alloc using f(2) that by (auto simp: n_def sfnode_ok_def)
  then have e: "(r, q', h', k') = (0, q\<lparr>data_q := l2\<rparr>, h2, k)"
    unfolding ins [symmetric] queue_insert_def p Let_def u using h1 l2 by (simp add: new_node_def split: if_splits)
  then show "r = 0" "k' = k" "queue_q q' = queue_q q" by simp_all
  have l: "sflist_holds (data_q q) h1 (as @ bs)" using f(4) by (simp add: queue_ok_def ns)
  have fr: "sys_sfnode_flags_get h2 m = sys_sfnode_flags_get h1 m" "a \<notin> set (n # ns) \<Longrightarrow> h2 a = h1 a" for m a
    using sflist_insert_frame [OF l f(2) _ l2] ns by auto
  have it: "node_item h2 m = node_item h1 m" if "m \<in> set (n # ns)" for m
    using that f(7-10) fr f(4) by (intro node_item_cong) (auto simp: queue_ok_def split: if_splits)
  have "n \<notin> set (as @ bs)" using f(3) ns by simp
  from link_node [OF l f(2) this l2] f(4,7-10) e fr ns assms(2)
  show "queue_ok q' h' k (as @ n # bs)" by (auto simp: queue_ok_def)
  show "queue_items h' (as @ n # bs) = queue_items h as @ (data, if alloc then Some n else None) # queue_items h bs"
    using it f(5,6) e ns by (simp add: queue_items_def)
qed

lemma queue_insert_waiter:
  assumes "sched_inv {} k" "wait_qs k (queue_wq q) = t # ts"
  obtains k1 where "queue_insert anode prev data alloc is_append q h k = (0, q, h, z_reschedule k1)" "sched_inv {} k1"
    "woken (queue_wq q) t 0 k k1" "swap_data (threads k1 t) = unat data"
proof -
  obtain k1 where u: "z_unpend_first_thread (queue_wq q) k = (Some t, k1)"
    using assms(2) by (simp add: z_unpend_first_thread_def z_priq_dumb_best_def)
  show thesis using that [of "wake_data 0 (unat data) t k1"] wake_first(3,4,5) [OF assms(1) u]
    by (simp add: queue_insert_def u prepare_thread_to_run_def)
qed

section \<open>Taking items\<close>

lemma node_peek_item: "n \<noteq> 0 \<Longrightarrow> z_queue_node_peek n True h = node_item h n"
  by (simp add: z_queue_node_peek_def node_item_def)

lemma queue_get_some:
  assumes "queue_ok q h k (n # ns)" "k_queue_get timeout q h k = (r, q', k')"
  shows "r = Done (node_item h n)" "queue_ok q' h k ns" "k' = k" "queue_q q' = queue_q q"
proof -
  have l: "sflist_holds (data_q q) h (n # ns)" using assms(1) by (simp add: queue_ok_def)
  obtain l' where g: "genlist_get_not_empty z_sfnode_next_peek (data_q q) h = (n, l')"
    using sflist.get(1) [OF l] by (metis surj_pair)
  have "n \<noteq> 0" using l by (auto simp: list_holds_def sfnode_ok_def)
  then have e: "(r, q', k') = (Done (node_item h n), q\<lparr>data_q := l'\<rparr>, k)"
    using assms(2) g sflist.is_empty [OF l] by (simp add: k_queue_get_def node_peek_item)
  then show "r = Done (node_item h n)" "k' = k" "queue_q q' = queue_q q" by simp_all
  show "queue_ok q' h k ns" using e assms(1) sflist.get(2) [OF l g] by (auto simp: queue_ok_def)
qed

lemma queue_get_none:
  assumes "queue_ok q h k []" "k_queue_get timeout q h k = (r, q', k')"
  shows "q' = q" "if timeout = K_NO_WAIT then r = Done (0, None) \<and> k' = k
    else r = Blocked \<and> k' = z_pend_curr (Some (queue_wq q)) timeout k"
  using assms sflist.is_empty [of "data_q q" h "[]"] by (auto simp: k_queue_get_def queue_ok_def split: if_splits)

lemma queue_remove:
  assumes "queue_ok q h k ns" "data \<noteq> 0"
  obtains q' h' where "k_queue_remove data q h = Some (data \<in> set ns, q', h')" "queue_ok q' h' k (remove1 data ns)"
    "queue_items h' (remove1 data ns) = queue_items h (remove1 data ns)" "queue_q q' = queue_q q"
proof -
  have l: "sflist_holds (data_q q) h ns" using assms(1) by (simp add: queue_ok_def)
  obtain l' h' where r: "genlist_find_and_remove z_sfnode_next_peek z_sfnode_next_set data (data_q q) h = Some (data \<in> set ns, l', h')"
    "sflist_holds l' h' (remove1 data ns)" using sflist.find_and_remove [OF l assms(2)] by blast
  note f = find_and_remove_frame [OF l assms(2) r(1)]
  have sub: "set (remove1 data ns) \<subseteq> set ns" by (rule set_remove1_subset)
  have "queue_ok (q\<lparr>data_q := l'\<rparr>) h' k (remove1 data ns)" using assms(1) r(2) f(1) sub by (auto simp: queue_ok_def)
  moreover have "queue_items h' (remove1 data ns) = queue_items h (remove1 data ns)" unfolding queue_items_def
    using f assms(1) sub by (intro map_cong refl node_item_cong) (auto simp: queue_ok_def)
  ultimately show thesis using that [of "q\<lparr>data_q := l'\<rparr>" h'] r(1) by (simp add: k_queue_remove_def)
qed

lemma items_remove1: "n \<in> set ns \<Longrightarrow> queue_items h (remove1 n ns) = remove1 (node_item h n) (queue_items h ns)"
proof (induction ns)
  case (Cons m ns)
  have "node_item h m = node_item h n \<longleftrightarrow> m = n" using node_item_inj [of h UNIV] by (auto simp: inj_on_def)
  with Cons show ?case by (auto simp: queue_items_def)
qed simp

section \<open>Handing a list of items to waiting threads\<close>

text \<open>The first waiters of \<open>w\<close> have been woken with the items \<open>xs\<close>.\<close>

definition handed :: "wqid \<Rightarrow> u32 list \<Rightarrow> kernel \<Rightarrow> kernel \<Rightarrow> bool" where
  "handed w xs k k' \<longleftrightarrow> length xs \<le> length (wait_qs k w) \<and> wait_qs k' = (wait_qs k)(w := drop (length xs) (wait_qs k w)) \<and>
     (\<forall>i < length xs. swap_retval (threads k' (wait_qs k w ! i)) = 0 \<and>
        swap_data (threads k' (wait_qs k w ! i)) = unat (xs ! i) \<and> pended_on (threads k' (wait_qs k w ! i)) = None) \<and>
     (\<forall>u. u \<notin> set (take (length xs) (wait_qs k w)) \<longrightarrow> threads k' u = threads k u) \<and>
     current k' = current k \<and> idle_thread k' = idle_thread k \<and> in_isr k' = in_isr k \<and> irq_unlocked k' = irq_unlocked k"

lemma handed_Nil: "handed w [] k k"
  by (simp add: handed_def)

lemma handed_Cons:
  assumes "woken w t 0 k k1" "swap_data (threads k1 t) = unat x" "handed w xs k1 k'" "distinct (wait_qs k w)"
  shows "handed w (x # xs) k k'"
proof -
  obtain ts where ts: "ts = wait_qs k1 w" by blast
  have q: "wait_qs k = (wait_qs k1)(w := t # ts)" using assms(1) by (simp add: woken_def ts)
  have w: "wait_qs k w = t # ts" "wait_qs k1 w = ts" "wait_qs k1 = (wait_qs k)(w := ts)" by (simp_all add: q, simp_all add: ts)
  have t: "t \<notin> set ts" using assms(4) w(1) by simp
  then have t': "t \<notin> set (take (length xs) ts)" by (meson in_set_takeD)
  then have th: "threads k' t = threads k1 t" using assms(3) w(2) by (simp add: handed_def)
  have "swap_retval (threads k' ((t # ts) ! i)) = 0 \<and> swap_data (threads k' ((t # ts) ! i)) = unat ((x # xs) ! i) \<and>
      pended_on (threads k' ((t # ts) ! i)) = None" if "i < Suc (length xs)" for i
    using that assms(1-3) th w(2) by (cases i) (auto simp: handed_def woken_def)
  moreover have "threads k' u = threads k u" if "u \<notin> set (take (Suc (length xs)) (t # ts))" for u
    using that assms(1,3) w(2) by (auto simp: handed_def woken_def)
  moreover have "wait_qs k' = (wait_qs k)(w := drop (length xs) ts)" using assms(3) w by (simp add: handed_def)
  ultimately show ?thesis using assms(1,3) w(1,2) by (simp add: handed_def woken_def)
qed

lemma append_list_loop_result:
  assumes "sched_inv {} k" "list_seg z_snode_next_peek h head xs 0" "0 \<notin> set xs" "z_unpend_first_thread w k = (thread, k1)"
  shows "\<exists>k0 thread' k2. append_list_loop w h head thread resch k1 =
      Some (if length xs \<le> length (wait_qs k w) then 0 else xs ! length (wait_qs k w), thread', resch \<or> xs \<noteq> [] \<and> wait_qs k w \<noteq> [], k2) \<and>
    z_unpend_first_thread w k0 = (thread', k2) \<and> sched_inv {} k0 \<and> handed w (take (length (wait_qs k w)) xs) k k0"
  using assms
proof (induction xs arbitrary: k head thread k1 resch)
  case Nil
  then have "append_list_loop w h head thread resch k1 = Some (0, thread, resch, k1)" by (simp add: append_list_loop.simps)
  then show ?case using Nil handed_Nil by auto
next
  case (Cons x xs)
  have x: "head = x" "x \<noteq> 0" "list_seg z_snode_next_peek h (h x) xs 0" "0 \<notin> set xs"
    using Cons.prems(2,3) z_snode_next_peek_def [of h x] by auto
  show ?case
  proof (cases "wait_qs k w")
    case Nil
    then have "thread = None" "k1 = k" using Cons.prems(4) by (auto simp: z_unpend_first_thread_def z_priq_dumb_best_def)
    then show ?thesis using x Nil Cons.prems(1,4) handed_Nil by (auto simp: append_list_loop.simps)
  next
    case (Cons t ts)
    then have th: "thread = Some t" using Cons.prems(4) by (auto simp: z_unpend_first_thread_def z_priq_dumb_best_def)
    have u: "z_unpend_first_thread w k = (Some t, k1)" using Cons.prems(4) th by simp
    let ?k1 = "prepare_thread_to_run t x k1"
    have k1: "sched_inv {} ?k1" "woken w t 0 k ?k1" "swap_data (threads ?k1 t) = unat x"
      using wake_first(3,4,5) [OF Cons.prems(1) u] by (simp_all add: prepare_thread_to_run_def)
    have w: "wait_qs ?k1 w = ts" using k1(2) Cons by (auto simp: woken_def dest: fun_cong [of _ _ w])
    obtain thread1 k2 where u1: "z_unpend_first_thread w ?k1 = (thread1, k2)" by fastforce
    have step: "append_list_loop w h head thread resch k1 = append_list_loop w h (h x) thread1 True k2"
      using x th u1 by (subst append_list_loop.simps) simp
    from Cons.IH [OF k1(1) x(3,4) u1, of True] obtain k0 thread' k3 where r: "append_list_loop w h (h x) thread1 True k2 =
        Some (if length xs \<le> length ts then 0 else xs ! length ts, thread', True, k3)"
      "z_unpend_first_thread w k0 = (thread', k3)" "sched_inv {} k0" "handed w (take (length ts) xs) ?k1 k0"
      unfolding w by auto
    have "distinct (wait_qs k w)" using sched_invD(3) [OF Cons.prems(1)] by (simp add: waitq_inv_def)
    from handed_Cons [OF k1(2,3) r(4) this] r(1-3) step Cons show ?thesis by auto
  qed
qed

section \<open>Histories\<close>

datatype queue_event =
  Back "u32 \<times> u32 option" | At nat "u32 \<times> u32 option" | Handed_over tid u32 | Got "u32 \<times> u32 option" | Removed "u32 \<times> u32 option"

text \<open>The contract: a list to which items are added at the back or at a position, and from which the first item
  or a given item is taken; an item is handed to a waiting thread only when the list is empty.\<close>

fun queue_spec :: "(u32 \<times> u32 option) list \<Rightarrow> queue_event list \<Rightarrow> (u32 \<times> u32 option) list option" where
  "queue_spec xs [] = Some xs"
| "queue_spec xs (Back x # es) = queue_spec (xs @ [x]) es"
| "queue_spec xs (At i x # es) = (if i \<le> length xs then queue_spec (take i xs @ x # drop i xs) es else None)"
| "queue_spec xs (Handed_over t d # es) = (if xs = [] then queue_spec xs es else None)"
| "queue_spec xs (Got x # es) = (case xs of [] \<Rightarrow> None | y # ys \<Rightarrow> if x = y then queue_spec ys es else None)"
| "queue_spec xs (Removed x # es) = (if x \<in> set xs then queue_spec (remove1 x xs) es else None)"

lemma queue_spec_append: "queue_spec xs (es @ fs) = Option.bind (queue_spec xs es) (\<lambda>ys. queue_spec ys fs)"
  by (induction xs es rule: queue_spec.induct) (auto split: list.splits)

fun backs :: "queue_event list \<Rightarrow> (u32 \<times> u32 option) list" where
  "backs [] = []"
| "backs (Back x # es) = x # backs es"
| "backs (e # es) = backs es"

fun gots :: "queue_event list \<Rightarrow> (u32 \<times> u32 option) list" where
  "gots [] = []"
| "gots (Got x # es) = x # gots es"
| "gots (e # es) = gots es"

fun fifo_events :: "queue_event list \<Rightarrow> bool" where
  "fifo_events [] = True"
| "fifo_events (At i x # es) = False"
| "fifo_events (Removed x # es) = False"
| "fifo_events (e # es) = fifo_events es"

lemma spec_fifo: "queue_spec xs es = Some ys \<Longrightarrow> fifo_events es \<Longrightarrow> xs @ backs es = gots es @ ys"
  by (induction xs es rule: queue_spec.induct) (auto split: if_splits list.splits)

text \<open>A run of calls on a queue, with the nodes in it as last component. Between two calls other code may
  take threads off the wait queue and write to memory the queue does not use.\<close>

inductive queue_run :: "k_queue \<Rightarrow> wmem \<Rightarrow> kernel \<Rightarrow> u32 list \<Rightarrow> queue_event list \<Rightarrow> k_queue \<Rightarrow> wmem \<Rightarrow> kernel \<Rightarrow> u32 list \<Rightarrow> bool"
  for q0 h0 k0 ns0 where
  start: "queue_run q0 h0 k0 ns0 [] q0 h0 k0 ns0"
| append: "queue_run q0 h0 k0 ns0 es q h k ns \<Longrightarrow> wait_qs k (queue_wq q) = [] \<Longrightarrow> fresh_node anode data alloc h ns \<Longrightarrow>
    queue_insert anode prev data alloc True q h k = (r, q', h', k') \<Longrightarrow> n = (if alloc then anode else data) \<Longrightarrow>
    queue_run q0 h0 k0 ns0 (es @ [Back (data, if alloc then Some n else None)]) q' h' k' (ns @ [n])"
| insert: "queue_run q0 h0 k0 ns0 es q h k (as @ bs) \<Longrightarrow> wait_qs k (queue_wq q) = [] \<Longrightarrow> fresh_node anode data alloc h (as @ bs) \<Longrightarrow>
    prev = (if as = [] then 0 else last as) \<Longrightarrow>
    queue_insert anode prev data alloc False q h k = (r, q', h', k') \<Longrightarrow> n = (if alloc then anode else data) \<Longrightarrow>
    queue_run q0 h0 k0 ns0 (es @ [At (length as) (data, if alloc then Some n else None)]) q' h' k' (as @ n # bs)"
| no_memory: "queue_run q0 h0 k0 ns0 es q h k ns \<Longrightarrow> wait_qs k (queue_wq q) = [] \<Longrightarrow>
    queue_insert 0 prev data True is_append q h k = (r, q', h', k') \<Longrightarrow> queue_run q0 h0 k0 ns0 es q' h' k' ns"
| hand_over: "queue_run q0 h0 k0 ns0 es q h k ns \<Longrightarrow> wait_qs k (queue_wq q) = t # ts \<Longrightarrow>
    queue_insert anode prev data alloc is_append q h k = (r, q', h', k') \<Longrightarrow>
    queue_run q0 h0 k0 ns0 (es @ [Handed_over t data]) q' h' k' ns"
| get: "queue_run q0 h0 k0 ns0 es q h k ns \<Longrightarrow> ticks_ok n \<Longrightarrow> n = K_NO_WAIT \<or> can_block k \<Longrightarrow> k_queue_get n q h k = (r, q', k') \<Longrightarrow>
    queue_run q0 h0 k0 ns0 (es @ (case (ns, r) of (_ # _, Done x) \<Rightarrow> [Got x] | _ \<Rightarrow> [])) q' h k' (tl ns)"
| remove: "queue_run q0 h0 k0 ns0 es q h k ns \<Longrightarrow> data \<noteq> 0 \<Longrightarrow> k_queue_remove data q h = Some (r, q', h') \<Longrightarrow>
    queue_run q0 h0 k0 ns0 (es @ (if r then [Removed (node_item h data)] else [])) q' h' k (remove1 data ns)"
| env: "queue_run q0 h0 k0 ns0 es q h k ns \<Longrightarrow> sched_inv {} k' \<Longrightarrow> set (wait_qs k' (queue_wq q)) \<subseteq> set (wait_qs k (queue_wq q)) \<Longrightarrow>
    (\<And>a. a \<in> queue_words h ns \<Longrightarrow> h' a = h a) \<Longrightarrow> queue_run q0 h0 k0 ns0 es q h' k' ns"

lemma queue_ok_fewer_waiters:
  "queue_ok q h k ns \<Longrightarrow> set (wait_qs k' (queue_wq q)) \<subseteq> set (wait_qs k (queue_wq q)) \<Longrightarrow> queue_ok q h k' ns"
  by (auto simp: queue_ok_def)

lemma queue_run_spec:
  assumes "queue_run q0 h0 k0 ns0 es q h k ns" "sched_inv {} k0" "queue_ok q0 h0 k0 ns0"
  shows "sched_inv {} k \<and> queue_ok q h k ns \<and> queue_spec (queue_items h0 ns0) es = Some (queue_items h ns)"
  using assms
proof (induction rule: queue_run.induct)
  case (append es q h k ns anode data alloc prev r q' h' k' n)
  then have "queue_ok q h k ns" by simp
  from queue_insert_free [OF this append.hyps(2,3) _ _ append.hyps(4), of ns "[]"] append show ?case
    by (simp add: queue_spec_append) (simp add: queue_items_def)
next
  case (insert es q h k as bs anode data alloc prev r q' h' k' n)
  then have "queue_ok q h k (as @ bs)" by simp
  from queue_insert_free [OF this insert.hyps(2,3) refl _ insert.hyps(5)] insert show ?case
    by (simp add: queue_spec_append) (simp add: queue_items_def)
next
  case (no_memory es q h k ns prev data is_append r q' h' k')
  then show ?case by (auto simp: queue_insert_def z_unpend_first_thread_def z_priq_dumb_best_def)
next
  case (hand_over es q h k ns t ts anode prev data alloc is_append r q' h' k')
  then have i: "sched_inv {} k" "queue_ok q h k ns" "ns = []" by (auto simp: queue_ok_def)
  from queue_insert_waiter [OF i(1) hand_over.hyps(2), of anode prev data alloc is_append h]
  obtain k1 where k1: "queue_insert anode prev data alloc is_append q h k = (0, q, h, z_reschedule k1)" "sched_inv {} k1" by blast
  then have "q' = q" "h' = h" "k' = z_reschedule k1" using hand_over.hyps(3) by simp_all
  with k1(2) i hand_over show ?case by (auto simp: queue_spec_append queue_ok_def queue_items_def z_reschedule_inv)
next
  case (get es q h k ns n r q' k')
  then have i: "sched_inv {} k" "queue_ok q h k ns" by auto
  show ?case
  proof (cases ns)
    case Nil
    have "sched_inv {} (z_pend_curr (Some (queue_wq q)) n k)" if "n \<noteq> K_NO_WAIT"
      using z_pend_curr_inv [OF i(1) _ get.hyps(2), of "Some (queue_wq q)"] that get.hyps(3) by auto
    with queue_get_none [of q h k n r q' k'] i get Nil show ?thesis by (auto simp: queue_ok_def split: if_splits)
  next
    case (Cons m ms)
    with queue_get_some [of q h k m ms n r q' k'] i get show ?thesis by (auto simp: queue_spec_append queue_items_def)
  qed
next
  case (remove es q h k ns data r q' h')
  then have i: "queue_ok q h k ns" by simp
  from queue_remove [OF i remove.hyps(2)] obtain q1 h1 where q1: "k_queue_remove data q h = Some (data \<in> set ns, q1, h1)"
    "queue_ok q1 h1 k (remove1 data ns)" "queue_items h1 (remove1 data ns) = queue_items h (remove1 data ns)" by blast
  then have "q' = q1" "h' = h1" "r = (data \<in> set ns)" using remove.hyps(3) by simp_all
  moreover have "data \<in> set ns \<Longrightarrow> node_item h data \<in> set (queue_items h ns)" by (simp add: queue_items_def)
  ultimately show ?case using q1 remove items_remove1 [of data ns h] by (auto simp: queue_spec_append remove1_idem)
next
  case (env es q h k ns k' h')
  then have "queue_ok q h' k ns" "queue_items h' ns = queue_items h ns" using queue_frame [of q h k ns h'] by auto
  with env show ?case by (auto intro: queue_ok_fewer_waiters)
qed simp

section \<open>Appending a list\<close>

lemma reschedule_timeouts:
  assumes "sched_inv X k"
  shows "ThreadTimeout t \<in> set (timeout_list (z_reschedule k)) \<longleftrightarrow> ThreadTimeout t \<in> set (timeout_list k)"
proof -
  let ?k = "(upd_thread (current k) (\<lambda>th. th\<lparr>swap_retval := - EAGAIN\<rparr>) k)\<lparr>current := ready_cache k\<rparr>"
  have "timeout_q_ok ?k" "clock_ok ?k" using sched_invD(4) [OF assms] by (simp_all add: timer_inv_def frame_simps clock_ok_def timeout_q_ok_def rem_q_def)
  from reset_slice_timeouts(2) [OF this] show ?thesis
    by (auto simp: z_reschedule_def need_swap_def z_swap_def z_swap_next_thread_def Let_def frame_simps)
qed

lemma slist_seg_aligned:
  assumes "list_seg z_snode_next_peek h p xs 0" "\<forall>x \<in> set xs. sfnode_ok x"
  shows "list_seg z_sfnode_next_peek h p xs 0"
  using assms
proof (induction xs arbitrary: p)
  case (Cons x xs)
  have x: "p = x" "list_seg z_snode_next_peek h (h x) xs 0" using Cons.prems(1) z_snode_next_peek_def [of h x] by auto
  then have "h x = 0 \<or> sfnode_ok (h x)" using Cons.prems(2) by (cases xs) auto
  then have "\<not> bit (h x) 0 \<and> \<not> bit (h x) 1" by (rule aligned_bits)
  then have "\<not> bit (h x) i" if "i < 2" for i using that by (auto simp: less_2_cases_iff)
  then have "z_sfnode_next_peek h x = h x"
    by (intro bit_word_eqI) (auto simp: z_sfnode_next_peek_def flags_mask bit_simps)
  with Cons.IH [OF x(2)] Cons.prems(2) x(1) show ?case by simp
qed simp

lemma slist_seg_flags:
  assumes "list_seg z_snode_next_peek h p xs 0" "\<forall>x \<in> set xs. sfnode_ok x" "x \<in> set xs"
  shows "sys_sfnode_flags_get h x = 0"
proof -
  obtain as bs where s: "xs = as @ x # bs" using assms(3) by (meson split_list)
  then have "list_seg z_snode_next_peek h (h x) bs 0" using assms(1) z_snode_next_peek_def [of h x] by auto
  then have "h x = 0 \<or> sfnode_ok (h x)" using assms(2) s by (cases bs) auto
  then have "\<not> bit (h x) 0 \<and> \<not> bit (h x) 1" by (rule aligned_bits)
  then have "\<not> bit (h x) i" if "i < 2" for i using that by (auto simp: less_2_cases_iff)
  then show ?thesis by (intro bit_word_eqI) (auto simp: bit_flags_get)
qed

lemma list_seg_drop: "list_seg peek h p xs 0 \<Longrightarrow> i < length xs \<Longrightarrow> list_seg peek h (xs ! i) (drop i xs) 0"
proof (induction xs arbitrary: p i)
  case (Cons x xs)
  then show ?case by (cases i) auto
qed simp

lemma append_list_items:
  assumes "queue_ok q h k ns" "list_seg z_snode_next_peek h (hd ys) ys 0" "ys \<noteq> []" "distinct ys" "\<forall>y \<in> set ys. sfnode_ok y"
    "set ys \<inter> queue_words h ns = {}" "genlist_append_list z_sfnode_next_set (hd ys) (last ys) (data_q q) h = (l', h')"
    "wait_qs k' (queue_wq q) = []"
  shows "queue_ok (q\<lparr>data_q := l'\<rparr>) h' k' (ns @ ys)" "queue_items h' (ns @ ys) = queue_items h ns @ map (\<lambda>y. (y, None)) ys"
proof -
  have l: "sflist_holds (data_q q) h ns" using assms(1) by (simp add: queue_ok_def)
  have d: "distinct (ns @ ys)" using l assms(4,6) by (auto simp: list_holds_def queue_words_def)
  from sflist.append_list [OF l slist_seg_aligned [OF assms(2,5)] assms(3) d assms(5,7)]
  have l': "sflist_holds l' h' (ns @ ys)" .
  have hd: "sfnode_ok (hd ys)" using assms(3,5) by simp
  have fl: "sys_sfnode_flags_get h' m = sys_sfnode_flags_get h m" for m
    using assms(7) hd by (auto simp: genlist_append_list_def sfnode_set_next split: if_splits)
  have w: "h' a = h a" if "a \<notin> set ns" for a
    using assms(7) sflist_tail [OF l] that by (auto simp: genlist_append_list_def z_sfnode_next_set_def split: if_splits)
  have f0: "sys_sfnode_flags_get h y = 0" if "y \<in> set ys" for y using slist_seg_flags [OF assms(2,5) that] .
  have n4: "n + 4 \<notin> set ns \<and> n + 4 \<notin> set ys" if "n \<in> set ns" "sys_sfnode_flags_get h n \<noteq> 0" for n
    using assms(1,6) that by (auto simp: queue_ok_def queue_words_def)
  show "queue_ok (q\<lparr>data_q := l'\<rparr>) h' k' (ns @ ys)" using l' fl f0 n4 assms(8) by (auto simp: queue_ok_def)
  have "map (node_item h') ns = map (node_item h) ns" using fl w n4 by (intro map_cong refl node_item_cong) auto
  moreover have "map (node_item h') ys = map (\<lambda>y. (y, None)) ys" using fl f0 by (auto simp: node_item_def)
  ultimately show "queue_items h' (ns @ ys) = queue_items h ns @ map (\<lambda>y. (y, None)) ys" by (simp add: queue_items_def)
qed

section \<open>Properties\<close>


text \<open>An empty queue; an item at address \<open>0x1000\<close>.\<close>

definition empty_queue :: k_queue where
  "empty_queue = \<lparr>data_q = \<lparr>lhead = 0, ltail = 0\<rparr>, queue_q = 8\<rparr>"

lemma empty_queue_ok: "queue_ok empty_queue h waiting_kernel []" "queue_ok (empty_queue\<lparr>queue_q := 7\<rparr>) h waiting_kernel []"
  by (simp_all add: queue_ok_def empty_queue_def list_holds_def)


text \<open>\<open>k_queue_append_list\<close> with at least as many items as waiting threads hands one item to every waiting
  thread, in order, and appends the rest to the queue.\<close>

theorem k_queue_append_list_hands_over:
  assumes "sched_inv {} k" "queue_ok q h k ns" "list_seg z_snode_next_peek h (hd xs) xs 0" "xs \<noteq> []" "distinct xs"
    "\<forall>x \<in> set xs. sfnode_ok x" "set xs \<inter> queue_words h ns = {}" "length (wait_qs k (queue_wq q)) \<le> length xs"
  shows "\<exists>q' h' k0 k'. k_queue_append_list (hd xs) (last xs) q h k = Some (0, q', h', k') \<and> sched_inv {} k' \<and>
     handed (queue_wq q) (take (length (wait_qs k (queue_wq q))) xs) k k0 \<and>
     k' = (if wait_qs k (queue_wq q) = [] then k0 else z_reschedule k0) \<and>
     queue_ok q' h' k' (ns @ drop (length (wait_qs k (queue_wq q))) xs) \<and>
     queue_items h' (ns @ drop (length (wait_qs k (queue_wq q))) xs) =
       queue_items h ns @ map (\<lambda>x. (x, None)) (drop (length (wait_qs k (queue_wq q))) xs)"
proof -
  let ?m = "length (wait_qs k (queue_wq q))"
  let ?ys = "drop ?m xs"
  have z: "hd xs \<noteq> 0" "last xs \<noteq> 0" "0 \<notin> set xs" using assms(4,6) by (auto simp: sfnode_ok_def)
  obtain thread k1 where u: "z_unpend_first_thread (queue_wq q) k = (thread, k1)" by fastforce
  from append_list_loop_result [OF assms(1,3) z(3) u, of False] obtain k0 thread' k2 where
    r: "append_list_loop (queue_wq q) h (hd xs) thread False k1 = Some (if length xs \<le> ?m then 0 else xs ! ?m, thread', wait_qs k (queue_wq q) \<noteq> [], k2)"
    "z_unpend_first_thread (queue_wq q) k0 = (thread', k2)" "sched_inv {} k0" "handed (queue_wq q) (take ?m xs) k k0"
    using assms(4) by auto
  have w0: "wait_qs k0 (queue_wq q) = []" using r(4) assms(8) by (simp add: handed_def)
  then have k2: "k2 = k0" using r(2) by (simp add: z_unpend_first_thread_def z_priq_dumb_best_def)
  let ?k' = "if wait_qs k (queue_wq q) = [] then k0 else z_reschedule k0"
  have k': "sched_inv {} ?k'" "wait_qs ?k' (queue_wq q) = []" using r(3) w0 by (simp_all add: z_reschedule_inv frame_simps)
  have nz: "xs ! ?m \<noteq> 0" if "?m < length xs" using z(3) nth_mem [OF that] by auto
  have res: "k_queue_append_list (hd xs) (last xs) q h k =
      (let (l, h1) = (if ?ys \<noteq> [] then genlist_append_list z_sfnode_next_set (hd ?ys) (last ?ys) (data_q q) h else (data_q q, h))
       in Some (0, q\<lparr>data_q := l\<rparr>, h1, ?k'))"
    using z u r(1) k2 assms(8) nz by (cases "?m < length xs") (simp_all add: k_queue_append_list_def Let_def hd_drop_conv_nth split: prod.split)
  show ?thesis
  proof (cases "?ys = []")
    case True
    then have "queue_ok q h ?k' ns" using assms(2) k'(2) by (auto simp: queue_ok_def)
    with True res k' r(4) show ?thesis by (intro exI [of _ q] exI [of _ h] exI [of _ k0] exI [of _ ?k']) simp
  next
    case False
    obtain l' h' where a: "genlist_append_list z_sfnode_next_set (hd ?ys) (last ?ys) (data_q q) h = (l', h')" by fastforce
    have "list_seg z_snode_next_peek h (hd ?ys) ?ys 0" using list_seg_drop [OF assms(3), of ?m] False by (simp add: hd_drop_conv_nth)
    moreover have "\<forall>y \<in> set ?ys. sfnode_ok y" "set ?ys \<inter> queue_words h ns = {}" "distinct ?ys"
      using assms(5-7) set_drop_subset [of ?m xs] by auto
    ultimately have "queue_ok (q\<lparr>data_q := l'\<rparr>) h' ?k' (ns @ ?ys)"
      "queue_items h' (ns @ ?ys) = queue_items h ns @ map (\<lambda>y. (y, None)) ?ys"
      using append_list_items [OF assms(2) _ False _ _ _ a k'(2)] by blast+
    with False res a k' r(4) show ?thesis
      by (intro exI [of _ "q\<lparr>data_q := l'\<rparr>"] exI [of _ h'] exI [of _ k0] exI [of _ ?k']) simp
  qed
qed

theorem k_queue_append_list_hands_over_witness:
  "\<exists>q h k0 k. k_queue_append_list 0x1000 0x1020 (empty_queue\<lparr>queue_q := 7\<rparr>) ((\<lambda>_. 0)(0x1000 := 0x1010, 0x1010 := 0x1020)) waiting_kernel =
     Some (0, q, h, k) \<and> swap_data (threads k0 3) = 0x1000 \<and> swap_data (threads k0 4) = 0x1010 \<and> k = z_reschedule k0 \<and> queue_ok q h k [0x1020]"
proof -
  let ?q = "empty_queue\<lparr>queue_q := 7\<rparr>" and ?h = "(\<lambda>_. 0)(0x1000 := 0x1010, 0x1010 := 0x1020) :: wmem" and ?xs = "[0x1000, 0x1010, 0x1020] :: u32 list"
  have "list_seg z_snode_next_peek ?h (hd ?xs) ?xs 0" by (simp add: z_snode_next_peek_def)
  moreover have "\<forall>x \<in> set ?xs. sfnode_ok x" by (simp add: sfnode_ok_def SYS_SFLIST_FLAGS_MASK_def)
  moreover have w: "wait_qs waiting_kernel (queue_wq ?q) = [3, 4]" by simp
  ultimately obtain q' h' k0 k' where k: "k_queue_append_list (hd ?xs) (last ?xs) ?q ?h waiting_kernel = Some (0, q', h', k')"
    "handed (queue_wq ?q) [0x1000, 0x1010] waiting_kernel k0" "k' = z_reschedule k0" "queue_ok q' h' k' [0x1020]"
    using k_queue_append_list_hands_over [OF waiting_kernel_inv empty_queue_ok(2), of ?h ?xs] unfolding w by (auto simp: queue_words_def)
  from k(2) have "swap_data (threads k0 3) = 0x1000" "swap_data (threads k0 4) = 0x1010"
    unfolding handed_def w by (auto dest: spec [of _ 0] spec [of _ 1])
  with k show ?thesis by auto
qed

text \<open>C32: With more waiting threads than items \<open>k_queue_append_list\<close> loses a thread: the first waiting thread for which no
  item is left is taken off the wait queue and its timeout is cancelled, but it is not made ready. It is in no
  queue of the kernel, so nothing will ever run it.\<close>

theorem k_queue_append_list_loses_thread:
  assumes "sched_inv {} k" "z_is_thread_ready (threads k (current k))" "list_seg z_snode_next_peek h (hd xs) xs 0" "xs \<noteq> []" "0 \<notin> set xs"
    "length xs < length (wait_qs k (queue_wq q))" "t = wait_qs k (queue_wq q) ! length xs"
  shows "\<exists>q' h' k'. k_queue_append_list (hd xs) (last xs) q h k = Some (0, q', h', k') \<and> t \<notin> set (runq k') \<and>
     (\<forall>w. t \<notin> set (wait_qs k' w)) \<and> ThreadTimeout t \<notin> set (timeout_list k') \<and>
     \<not> z_is_thread_pending (threads k' t) \<and> \<not> z_is_thread_queued (threads k' t)"
proof -
  let ?w = "queue_wq q"
  have z: "hd xs \<noteq> 0" "last xs \<noteq> 0" using assms(4,5) by (metis hd_in_set, metis last_in_set)
  obtain thread k1 where u: "z_unpend_first_thread ?w k = (thread, k1)" by fastforce
  from append_list_loop_result [OF assms(1,3,5) u, of False] obtain k0 thread' k2 where
    r: "append_list_loop ?w h (hd xs) thread False k1 = Some (0, thread', True, k2)"
    "z_unpend_first_thread ?w k0 = (thread', k2)" "sched_inv {} k0" "handed ?w xs k k0"
    using assms(4,6) by fastforce
  have w0: "wait_qs k0 ?w = t # drop (Suc (length xs)) (wait_qs k ?w)"
    using r(4) assms(6,7) by (simp add: handed_def Cons_nth_drop_Suc)
  then have u0: "z_unpend_first_thread ?w k0 = (Some t, k2)"
    using r(2) by (auto simp: z_unpend_first_thread_def z_priq_dumb_best_def)
  note f = unpend_first_facts [OF r(3) u0] and i = unpend_first_inv [OF r(3) u0]
  have k': "k_queue_append_list (hd xs) (last xs) q h k = Some (0, q, h, z_reschedule k2)"
    using z u r(1) by (simp add: k_queue_append_list_def Let_def)
  have p: "t \<in> set (wait_qs k0 ?w)" using w0 by simp
  then have nr: "\<not> z_is_thread_ready (threads k0 t)" using ready_not_pended(5) [OF r(3)] by blast
  have tc: "t \<noteq> current k2"
  proof
    assume "t = current k2"
    then have c: "t = current k" using f(7) r(4) by (simp add: handed_def)
    have "t \<in> set (wait_qs k ?w)" using assms(6,7) nth_mem by blast
    with c assms(2) ready_not_pended(5) [OF assms(1)] show False by blast
  qed
  have rq: "runq k2 = runq k0" using i(5) by (simp add: frame_simps)
  have nq: "t \<notin> set (runq k0)" using sched_invD(1,2) [OF r(3)] nr by (auto simp: runq_inv_def ready_inv_def)
  have q0: "\<not> z_is_thread_queued (threads k2 t)" using sched_invD(1) [OF i(1)] nq rq by (simp add: runq_inv_def)
  have wq: "t \<notin> set (wait_qs k2 w)" for w using sched_invD(3) [OF i(1)] f(1) by (auto simp: waitq_inv_def)
  have to: "ThreadTimeout t \<notin> set (timeout_list (z_reschedule k2))"
    using f(2) reschedule_timeouts [OF i(1)] by blast
  show ?thesis using k' rq nq q0 wq to tc f(3) by (simp add: frame_simps)
qed

theorem k_queue_append_list_loses_thread_witness:
  "\<exists>q h k. k_queue_append_list 0x1000 0x1000 (empty_queue\<lparr>queue_q := 7\<rparr>) (\<lambda>_. 0) waiting_kernel = Some (0, q, h, k) \<and>
     4 \<notin> set (runq k) \<and> (\<forall>w. 4 \<notin> set (wait_qs k w)) \<and> ThreadTimeout 4 \<notin> set (timeout_list k)"
proof -
  let ?q = "empty_queue\<lparr>queue_q := 7\<rparr>"
  have "z_is_thread_ready (threads waiting_kernel (current waiting_kernel))" using waiting_kernel_can_block(1) by (simp add: can_block_def)
  moreover have "list_seg z_snode_next_peek (\<lambda>_. 0) (hd [0x1000]) [0x1000] 0" by (simp add: z_snode_next_peek_def)
  ultimately obtain q' h' k' where
    "k_queue_append_list (hd [0x1000]) (last [0x1000]) ?q (\<lambda>_. 0) waiting_kernel = Some (0, q', h', k') \<and>
     4 \<notin> set (runq k') \<and> (\<forall>w. 4 \<notin> set (wait_qs k' w)) \<and> ThreadTimeout 4 \<notin> set (timeout_list k')"
    using k_queue_append_list_loses_thread [OF waiting_kernel_inv, of "\<lambda>_. 0" "[0x1000]" ?q 4] by fastforce
  then show ?thesis unfolding list.sel(1) last_ConsL [OF refl] by blast
qed

end
