(* ===== verification/Sched_System.thy ===== *)
theory Sched_System
  imports Waiting Boot
begin

text \<open>
  The kernel as a transition system: threads make kernel calls, interrupts come and go, and the clock
  interrupt announces ticks. Every reachable state satisfies the scheduler invariant, the calls that loop
  return, and a scheduling point leaves the best ready thread running. The last section shows where the
  code does not reach a scheduling point although a better thread is ready.
\<close>

section \<open>Steps\<close>

text \<open>The switch at the end of an interrupt.\<close>

definition interrupt_exit :: "kernel \<Rightarrow> kernel" where
  "interrupt_exit k = (z_get_next_switch_handle k)\<lparr>in_isr := False\<rparr>"

text \<open>Calls that block are made by a thread other than the idle thread; the others also by interrupts. The
  rules \<open>pend\<close> and \<open>wake\<close> stand for the waiting and waking calls of the kernel objects. Timers wake their
  owner, as the parameter \<open>own\<close> says. With \<open>any\<close> false a thread that others join is aborted only by itself.\<close>

inductive kernel_step :: "bool \<Rightarrow> (nat \<Rightarrow> tid) \<Rightarrow> kernel \<Rightarrow> kernel \<Rightarrow> bool" for any own where
  sleep: "\<not> in_isr k \<Longrightarrow> can_block k \<Longrightarrow> ticks_ok n \<Longrightarrow> kernel_step any own k (snd (z_tick_sleep n k))"
| yield: "\<not> in_isr k \<Longrightarrow> can_block k \<Longrightarrow> kernel_step any own k (k_yield k)"
| join: "\<not> in_isr k \<Longrightarrow> can_block k \<Longrightarrow> ticks_ok n \<Longrightarrow> kernel_step any own k (snd (k_thread_join t n k))"
| pend: "\<not> in_isr k \<Longrightarrow> can_block k \<Longrightarrow> ticks_ok n \<Longrightarrow> kernel_step any own k (z_pend_curr (Some (ObjQ q)) n k)"
| status_sync: "\<not> in_isr k \<Longrightarrow> can_block k \<Longrightarrow> kernel_step any own k (snd (k_timer_status_sync i k))"
| wake: "z_unpend_first_thread (ObjQ q) k = (Some t, k1) \<Longrightarrow> kernel_step any own k (z_reschedule (wake_with v t k1))"
| wakeup: "kernel_step any own k (k_wakeup t k)"
| suspend: "t \<noteq> idle_thread k \<Longrightarrow> k_thread_suspend t k = Some k' \<Longrightarrow> kernel_step any own k k'"
| resume: "kernel_step any own k (k_thread_resume t k)"
| abort: "t \<noteq> idle_thread k \<Longrightarrow> any \<or> t = current k \<or> wait_qs k (JoinQ t) = [] \<Longrightarrow> k_thread_abort t k = Some k' \<Longrightarrow> kernel_step any own k k'"
| priority_set: "t \<noteq> idle_thread k \<Longrightarrow> kernel_step any own k (k_thread_priority_set t p k)"
| create: "unused_thread k t \<Longrightarrow> ticks_ok d \<Longrightarrow> kernel_step any own k (k_thread_create t p opts d k)"
| lock: "sched_locked (threads k (current k)) \<noteq> 1 \<Longrightarrow> kernel_step any own k (k_sched_lock k)"
| unlock: "kernel_step any own k (k_sched_unlock k)"
| reschedule: "kernel_step any own k (k_reschedule k)"
| timer_start: "ticks_ok d \<Longrightarrow> kernel_step any own k (k_timer_start i d per k)"
| timer_stop: "kernel_step any own k (k_timer_stop (\<lambda>i. k_wakeup (own i)) i k)"
| elapse: "0 \<le> e \<Longrightarrow> e < 2 ^ 31 \<Longrightarrow> kernel_step any own k (k\<lparr>hw_elapsed := e\<rparr>)"
| interrupt: "\<not> in_isr k \<Longrightarrow> irq_unlocked k \<Longrightarrow> kernel_step any own k (k\<lparr>in_isr := True\<rparr>)"
| announce: "in_isr k \<Longrightarrow> 0 \<le> ticks \<Longrightarrow> clock_announce (\<lambda>i. k_wakeup (own i)) (work_notify nq) ticks k = Some k' \<Longrightarrow> kernel_step any own k k'"
| exit: "in_isr k \<Longrightarrow> kernel_step any own k (interrupt_exit k)"

lemma sched_inv_in_isr [frame_simps]: "sched_inv X (k\<lparr>in_isr := b\<rparr>) = sched_inv X k"
  by (auto simp: sched_inv_def runq_inv_def ready_inv_def waitq_inv_def timer_inv_def cache_inv_def clock_ok_def frame_simps)

lemma sched_inv_elapsed:
  assumes "sched_inv X k" "0 \<le> e" "e < 2 ^ 31"
  shows "sched_inv X (k\<lparr>hw_elapsed := e\<rparr>)"
proof -
  have "timeout_q_ok (k\<lparr>hw_elapsed := e\<rparr>)" using inv_q_ok [OF assms(1)] by (simp add: timeout_q_ok_def rem_q_def)
  moreover have "next_up (k\<lparr>hw_elapsed := e\<rparr>) = next_up k" by (rule next_up_cong) simp_all
  ultimately show ?thesis using assms
    by (auto simp: sched_inv_def runq_inv_def ready_inv_def waitq_inv_def timer_inv_def cache_inv_def clock_ok_def)
qed

lemma interrupt_exit_inv: "sched_inv {} k \<Longrightarrow> sched_inv {} (interrupt_exit k)"
  using switch_handle_inv [of "{}" k] by (simp add: interrupt_exit_def frame_simps)

lemma time_slice_tick [frame_simps]: "curr_tick (z_time_slice k) = curr_tick k"
  by (simp add: z_time_slice_def move_thread_to_end_of_prio_q_def Let_def frame_simps)

lemma clock_announce_inv:
  assumes "sched_inv {} k" "in_isr k" "0 \<le> ticks"
  shows "\<exists>k'. clock_announce (\<lambda>i. k_wakeup (own i)) (work_notify nq) ticks k = Some k' \<and> sched_inv {} k' \<and> in_isr k' \<and>
     curr_tick k' = curr_tick k + word_of_int ticks"
proof -
  from wakeup_timer.announcing.announce_total [OF inv_q_ok [OF assms(1)] conjI [OF assms(1,2)] assms(3), of own nq z_time_slice]
  obtain k1 where k1: "clock_announce (\<lambda>i. k_wakeup (own i)) (work_notify nq) ticks k = Some (z_time_slice k1)" "sched_inv {} k1" "in_isr k1"
    "curr_tick k1 = curr_tick k + word_of_int ticks" unfolding clock_announce_def by blast
  then show ?thesis using z_time_slice_inv [OF k1(2)] by (simp add: frame_simps)
qed

lemma kernel_step_inv:
  assumes "kernel_step any own k k'" "sched_inv {} k"
  shows "sched_inv {} k'"
  using assms
proof (cases rule: kernel_step.cases)
  case (pend n q)
  then show ?thesis using z_pend_curr_inv [OF assms(2), of n "Some (ObjQ q)"] by simp
next
  case (wake q t k1 v)
  then show ?thesis using wake_first(1) [OF assms(2)] by (auto intro: z_reschedule_inv)
next
  case (suspend t)
  then show ?thesis using k_thread_suspend_inv [OF assms(2), of t] by auto
next
  case (abort t)
  then show ?thesis using z_thread_abort_inv [OF assms(2), of t] by (auto simp: k_thread_abort_def)
next
  case (announce ticks nq)
  then show ?thesis using clock_announce_inv [OF assms(2), of ticks own nq] by auto
next
  case (timer_stop i)
  then show ?thesis using k_timer_stop_inv [OF assms(2), of "\<lambda>i. k_wakeup (own i)" i] k_wakeup_inv(1) by auto
qed (use assms(2) in \<open>simp_all add: z_tick_sleep_inv k_yield_inv k_thread_join_inv k_timer_status_sync_inv k_wakeup_inv k_thread_resume_inv
    k_thread_priority_set_inv k_thread_create_inv k_sched_lock_inv k_sched_unlock_inv k_reschedule_inv k_timer_start_inv sched_inv_elapsed
    interrupt_exit_inv frame_simps\<close>)

lemma reachable_inv: "(kernel_step any own)\<^sup>*\<^sup>* boot_kernel k \<Longrightarrow> sched_inv {} k"
  by (induction rule: rtranclp_induct) (auto simp: boot_kernel_inv kernel_step_inv)

section \<open>The best ready thread runs\<close>

lemma runs_best_cong:
  "threads k' = threads k \<Longrightarrow> current k' = current k \<Longrightarrow> runq k' = runq k \<Longrightarrow> idle_thread k' = idle_thread k \<Longrightarrow>
   in_isr k' = in_isr k \<Longrightarrow> irq_unlocked k' = irq_unlocked k \<Longrightarrow> runs_best k' = runs_best k"
  using next_up_cong [of k' k] by (simp add: runs_best_def resched_def)

lemma pend_runs_best:
  assumes "sched_inv {} k" "can_block k" "ticks_ok n" "\<forall>i. wq = Some (TimerQ i) \<longrightarrow> n = K_FOREVER"
  shows "runs_best (z_pend_curr wq n k)"
proof -
  have "sched_inv {} (pend_locked (current k) wq n k)"
    using assms ready_not_pended [OF assms(1), of "current k"] ready_dummy [OF assms(1), of "current k"]
      pend_locked_inv [of "{}" k "current k" n wq] by (auto simp: can_block_def)
  then show ?thesis by (simp add: z_pend_curr_def z_swap_runs_best)
qed

lemma interrupt_exit_runs_best: "sched_inv {} k \<Longrightarrow> runs_best (interrupt_exit k)"
  using settled_runs_best [OF interrupt_exit_inv] by (simp add: settled_def interrupt_exit_def z_get_next_switch_handle_def)

lemma k_wakeup_runs_best: "sched_inv {} k \<Longrightarrow> runs_best k \<Longrightarrow> runs_best (k_wakeup t k)"
  using k_wakeup_inv(2) [of k t] by (cases "z_is_thread_sleeping (threads k t)") (auto simp: k_wakeup_def)

lemma abort_timeout_runs_best: "runs_best (snd (z_abort_timeout to k)) = runs_best k" "runs_best (z_add_timeout to fn n k) = runs_best k"
  by (rule runs_best_cong; simp add: frame_simps)+

lemma timer_stop_runs_best:
  assumes "sched_inv {} k" "runs_best k"
  shows "runs_best (k_timer_stop (\<lambda>i. k_wakeup (own i)) i k)"
proof -
  let ?k1 = "snd (z_abort_timeout (TimerTimeout i) k)"
  let ?k2 = "if has_stop_fn (timers ?k1 i) then k_wakeup (own i) ?k1 else ?k1"
  have k1: "sched_inv {} ?k1" "runs_best ?k1" using assms by (auto simp: sched_inv_abort_other abort_timeout_runs_best)
  then have k2: "sched_inv {} ?k2" "runs_best ?k2" by (auto simp: k_wakeup_inv k_wakeup_runs_best)
  show ?thesis
  proof (cases "wait_qs ?k2 (TimerQ i)")
    case Nil
    then show ?thesis using k1 k2
      by (auto simp: k_timer_stop_def Let_def case_prod_unfold z_unpend1_no_timeout_def z_priq_dumb_best_def)
  next
    case (Cons t ts)
    have "runs_best (z_reschedule (ready_thread t (unpend_thread_no_timeout t ?k2)))"
      using timer_wake_inv(2) [OF k2(1), of t i] Cons by (intro z_reschedule_runs_best) simp
    then show ?thesis using k1 Cons
      by (auto simp: k_timer_stop_def Let_def case_prod_unfold z_unpend1_no_timeout_def z_priq_dumb_best_def z_ready_thread_def)
  qed
qed

lemma timer_start_runs_best: "runs_best (k_timer_start i d per k) = runs_best k"
proof -
  have "runs_best (upd_timer i f k1) = runs_best k1" for f k1 by (rule runs_best_cong) (simp_all add: upd_timer_def)
  then show ?thesis by (simp add: k_timer_start_def Let_def abort_timeout_runs_best)
qed

lemma resume_runs_best:
  assumes "sched_inv {} k" "runs_best k"
  shows "runs_best (k_thread_resume t k)"
  using assms k_thread_resume_inv(2) [OF assms(1), of t]
  by (cases "z_is_thread_suspended (threads k t)") (auto simp: k_thread_resume_def)

lemma unpend_all_empty: "wait_qs k w = [] \<Longrightarrow> unpend_all w k = Some k"
  unfolding unpend_all_def by (subst drain.simps) (simp add: z_waitq_head_def z_priq_dumb_best_def)

lemma abort_other_runs_best:
  assumes "sched_inv {} k" "runs_best k" "t \<noteq> current k" "wait_qs k (JoinQ t) = []" "k_thread_abort t k = Some k'"
  shows "runs_best k'"
proof (cases "z_is_thread_dead (threads k t)")
  case True
  then show ?thesis using assms(2,5) by (simp add: k_thread_abort_def z_thread_abort_def z_is_thread_dead_def)
next
  case False
  let ?k1 = "upd_thread t (set_state THREAD_DEAD) k"
  let ?k2 = "z_abort_thread_timeout t (unpend_thread_no_timeout t (dequeue_thread t ?k1))"
  let ?k3 = "update_cache True ?k2"
  have e: "(if z_is_thread_queued (threads ?k1 t) then dequeue_thread t ?k1 else ?k1) = dequeue_thread t ?k1"
    using cond_dequeue [OF runq_inv_set_state [OF sched_invD(1) [OF assms(1)]], of THREAD_DEAD t t] by blast
  have "wait_qs ?k2 (JoinQ t) = []" using assms(4)
    by (auto simp: frame_simps unpend_thread_no_timeout_def z_priq_dumb_remove_def split: option.splits)
  then have d: "halt_dead t (dequeue_thread t ?k1) = Some ?k2"
    by (auto simp: halt_dead_def Let_def unpend_all_empty unpend_thread_no_timeout_def)
  have "k' = (if z_is_thread_essential (threads k t) then k_panic ?k3 else ?k3)"
    using assms(3,5) False e d
    by (auto simp: k_thread_abort_def z_thread_abort_def z_thread_halt_def halt_thread_def Let_def z_is_thread_dead_def frame_simps)
  then have "runs_best k' = runs_best ?k3" by (simp add: runs_best_panic)
  moreover have "next_up ?k3 = next_up k" if "current k = next_up k"
    using that assms(3) by (auto simp: next_up_cases frame_simps split: list.splits)
  moreover have "threads ?k3 (current k) = threads k (current k)" "current ?k3 = current k" "resched ?k3 = resched k"
    using assms(3) by (simp_all add: frame_simps resched_def)
  ultimately show ?thesis using assms(2) by (auto simp: runs_best_def)
qed

lemma kernel_step_runs_best:
  assumes "kernel_step False own k k'" "sched_inv {} k" "runs_best k"
  shows "runs_best k'"
  using assms(1)
proof (cases rule: kernel_step.cases)
  case (join n t)
  show ?thesis
  proof (cases "fst (k_thread_join t n k)")
    case Blocked
    then show ?thesis using k_thread_join_inv(2) [OF assms(2) join(3,4)] join(1) by simp
  next
    case (Done r)
    then have "k' = k" using join(1) by (auto simp: k_thread_join_def split: if_splits)
    then show ?thesis using assms(3) by simp
  qed
next
  case (pend n q)
  then show ?thesis using pend_runs_best [OF assms(2)] by simp
next
  case (status_sync i)
  have "runs_best (upd_timer i f k) = runs_best k" for f by (rule runs_best_cong) (simp_all add: upd_timer_def)
  then show ?thesis using status_sync pend_runs_best [OF assms(2), of K_FOREVER "Some (TimerQ i)"] assms(3)
    by (auto simp: k_timer_status_sync_def Let_def ticks_ok_def K_FOREVER_def)
next
  case (wake q t k1 v)
  then show ?thesis using z_reschedule_runs_best [OF wake_first(1) [OF assms(2) wake(2)]] by simp
next
  case (suspend t)
  consider "in_isr k" | "t = current k" "\<not> in_isr k" | "t \<noteq> current k" by auto
  then show ?thesis
  proof cases
    case 1
    then have "in_isr k'" using k_thread_suspend_inv [OF assms(2) suspend(1)] suspend(2) by auto
    then show ?thesis by (rule in_isr_runs_best)
  next
    case 2
    then show ?thesis using k_thread_suspend_self_runs_best [OF assms(2)] suspend by simp
  next
    case 3
    then show ?thesis using suspend_other_runs_best [OF assms(2,3)] suspend by simp
  qed
next
  case (resume t)
  then show ?thesis using resume_runs_best [OF assms(2,3)] by simp
next
  case (abort t)
  show ?thesis
  proof (cases "t = current k")
    case True
    with abort show ?thesis using z_thread_abort_inv [OF assms(2), of t] assms(3) in_isr_runs_best [of k']
      by (cases "in_isr k"; cases "z_is_thread_dead (threads k t)") (auto simp: k_thread_abort_def z_thread_abort_def z_is_thread_dead_def)
  next
    case False
    then show ?thesis using abort_other_runs_best [OF assms(2,3)] abort by auto
  qed
next
  case (elapse e)
  then show ?thesis using assms(3) runs_best_cong [of k' k] by simp
next
  case (announce ticks nq)
  then show ?thesis using clock_announce_inv [OF assms(2), of ticks own nq] in_isr_runs_best by auto
qed (use assms(2,3) in \<open>simp_all add: z_tick_sleep_inv k_yield_inv k_wakeup_runs_best k_thread_priority_set_runs_best k_thread_create_runs_best
    k_sched_lock_inv k_sched_unlock_inv k_reschedule_inv timer_start_runs_best timer_stop_runs_best interrupt_exit_runs_best in_isr_runs_best\<close>)

lemma boot_kernel_runs_best: "runs_best boot_kernel"
  by (simp add: runs_best_def next_up_cases) (simp add: boot_kernel_def boot_threads_def state_bits)

lemma reachable_runs_best_inv: "(kernel_step False own)\<^sup>*\<^sup>* boot_kernel k \<Longrightarrow> sched_inv {} k \<and> runs_best k"
  by (induction rule: rtranclp_induct) (auto simp: boot_kernel_inv boot_kernel_runs_best intro: kernel_step_inv kernel_step_runs_best)

lemma boot_create_step: "kernel_step any own boot_kernel (k_thread_create 2 5 0 0 boot_kernel)"
  by (rule kernel_step.create)
    (simp_all add: unused_thread_def ticks_ok_def boot_kernel_def boot_threads_def state_bits)

lemma boot_create:
  "runq (k_thread_create 2 5 0 0 boot_kernel) = [2]" "current (k_thread_create 2 5 0 0 boot_kernel) = 2"
  "in_isr (k_thread_create 2 5 0 0 boot_kernel) = False" "irq_unlocked (k_thread_create 2 5 0 0 boot_kernel) = True"
proof -
  let ?k1 = "z_setup_new_thread 2 5 0 boot_kernel"
  let ?k2 = "upd_thread 2 z_mark_thread_as_not_sleeping (z_abort_thread_timeout 2 ?k1)"
  let ?k3 = "update_cache False (queue_thread 2 ?k2)"
  have s: "z_is_thread_sleeping (threads ?k1 2)"
    by (simp add: z_setup_new_thread_def Let_def frame_simps z_init_thread_base_def flag_simps)
  have r: "\<not> z_is_thread_queued (threads ?k2 2)" "z_is_thread_ready (threads ?k2 2)"
    by (simp_all add: z_setup_new_thread_def Let_def frame_simps z_init_thread_base_def flag_marks flag_simps state_bits)
  have c: "runq ?k2 = []" "current ?k2 = 0" "in_isr ?k2 = False" "irq_unlocked ?k2 = True" "threads ?k2 0 = thread_with 15 0 None"
    by (simp_all add: z_setup_new_thread_def Let_def frame_simps boot_kernel_def boot_threads_def)
  have q: "runq (queue_thread 2 ?k2) = [2]" using c by (simp add: frame_simps z_priq_dumb_add_def)
  have t: "threads (queue_thread 2 ?k2) 0 = thread_with 15 0 None" using c(5) by (simp add: frame_simps)
  have p: "thread_is_preemptible (thread_with 15 0 None)" by (simp add: thread_is_preemptible_def thread_with_def preempt_def)
  have cache: "ready_cache ?k3 = 2" using q t c p by (simp add: update_cache_cache should_preempt_def next_up_cases frame_simps)
  then have "k_thread_create 2 5 0 0 boot_kernel = z_swap ?k3"
    using s r c by (simp add: k_thread_create_def thread_schedule_new_def K_FOREVER_def K_NO_WAIT_def k_wakeup_def ready_thread_def
        z_reschedule_def need_swap_def resched_def frame_simps)
  then show "runq (k_thread_create 2 5 0 0 boot_kernel) = [2]" "current (k_thread_create 2 5 0 0 boot_kernel) = 2"
    "in_isr (k_thread_create 2 5 0 0 boot_kernel) = False" "irq_unlocked (k_thread_create 2 5 0 0 boot_kernel) = True"
    using q c cache by (simp_all add: frame_simps z_swap_def Let_def z_swap_next_thread_def z_priq_dumb_add_def)
qed

lemma boot_create_ready: "z_is_thread_ready (threads (k_thread_create 2 5 0 0 boot_kernel) 2)"
  "idle_thread (k_thread_create 2 5 0 0 boot_kernel) = 0"
proof -
  have "sched_inv {} (k_thread_create 2 5 0 0 boot_kernel)" by (rule kernel_step_inv [OF boot_create_step boot_kernel_inv])
  then show "z_is_thread_ready (threads (k_thread_create 2 5 0 0 boot_kernel) 2)"
    using boot_create(1) by (auto simp: sched_inv_def runq_inv_def ready_inv_def)
  show "idle_thread (k_thread_create 2 5 0 0 boot_kernel) = 0"
    by (simp add: k_thread_create_def thread_schedule_new_def z_setup_new_thread_def Let_def frame_simps) (simp add: boot_kernel_def)
qed

section \<open>Aborting a thread that others join\<close>

text \<open>A thread that waits for nothing but the queue it is taken from becomes ready.\<close>

definition only_waits :: "k_thread \<Rightarrow> bool" where
  "only_waits th \<longleftrightarrow> z_is_thread_ready (clear_state THREAD_PENDING th)"

lemma unpend_body_thread:
  assumes "pended_on (threads k t) = Some w"
  shows "swap_retval (threads (unpend_all_body t k) t) = 0" "prio_of (unpend_all_body t k) t = prio_of k t"
    "z_is_thread_ready (threads (unpend_all_body t k) t) = only_waits (threads k t)"
    "pended_on (threads (unpend_all_body t k) t) = None"
  using assms
  by (auto simp: unpend_all_body_def arch_thread_return_value_set_def ready_thread_def frame_simps unpend_thread_upd flag_ops only_waits_def)

lemma unpend_body_other: "u \<noteq> t \<Longrightarrow> threads (unpend_all_body t k) u = threads k u"
  by (simp add: unpend_all_fields)

lemma fold_unpend_threads:
  assumes "distinct ts" "u \<in> set ts" "pended_on (threads k u) = Some w"
  shows "swap_retval (threads (fold unpend_all_body ts k) u) = 0 \<and> prio_of (fold unpend_all_body ts k) u = prio_of k u \<and>
     z_is_thread_ready (threads (fold unpend_all_body ts k) u) = only_waits (threads k u)"
  using assms
proof (induction ts arbitrary: k)
  case (Cons t ts)
  show ?case
  proof (cases "u = t")
    case True
    then show ?thesis using Cons.prems unpend_body_thread [of k t w] by (simp add: fold_unpend_fields)
  next
    case False
    then show ?thesis using Cons.prems Cons.IH [of "unpend_all_body t k"] by (simp add: unpend_body_other)
  qed
qed simp

lemma halt_dead_joiners:
  assumes "sched_core X k" "\<not> z_is_thread_ready (threads k t)" "z_is_thread_dead (threads k t)" "halt_dead t k = Some k'"
    "u \<in> set (wait_qs k (JoinQ t))" "u \<noteq> t"
  shows "swap_retval (threads k' u) = 0 \<and> prio_of k' u = prio_of k u \<and> z_is_thread_ready (threads k' u) = only_waits (threads k u)"
proof -
  let ?k1 = "z_abort_thread_timeout t (unpend_thread_no_timeout t k)"
  have e: "(if pended_on (threads k t) \<noteq> None then unpend_thread_no_timeout t k else k) = unpend_thread_no_timeout t k"
    by (auto simp: unpend_thread_no_timeout_def)
  have "\<not> z_is_thread_ready (threads ?k1 t)" using assms(3)
    by (cases "pended_on (threads k t)") (auto simp: frame_simps unpend_thread_upd flag_simps unpend_thread_no_timeout_def)
  with core_unpend_abort [OF assms(1), of t] have c: "sched_core X ?k1" by (rule drop_transit)
  from unpend_all.drain_returns [OF this, of "JoinQ t"] assms(4)
  have k': "k' = fold unpend_all_body (wait_qs ?k1 (JoinQ t)) ?k1" unfolding halt_dead_def e by (simp add: unpend_all_def)
  have u: "threads ?k1 u = threads k u" using assms(6)
    by (cases "pended_on (threads k t)") (auto simp: frame_simps unpend_thread_upd unpend_thread_no_timeout_def)
  have w: "waitq_inv ?k1" "waitq_inv k" using c assms(1) by (simp_all add: sched_core_def)
  then have "pended_on (threads ?k1 u) = Some (JoinQ t)" using assms(5) u by (simp add: waitq_inv_def)
  then show ?thesis using fold_unpend_threads [of "wait_qs ?k1 (JoinQ t)" u ?k1] w(1) u k' by (simp add: waitq_inv_def)
qed

lemma abort_joiners:
  assumes inv: "sched_inv {} k" and "t \<noteq> idle_thread k" "\<not> z_is_thread_dead (threads k t)"
    "u \<in> set (wait_qs k (JoinQ t))" "u \<noteq> t"
  shows "\<exists>k'. k_thread_abort t k = Some k' \<and> wait_qs k' (JoinQ t) = [] \<and> swap_retval (threads k' u) = 0 \<and>
     prio_of k' u = prio_of k u \<and> z_is_thread_ready (threads k' u) = only_waits (threads k u) \<and>
     (t \<noteq> current k \<longrightarrow> current k' = current k)"
proof -
  let ?k1 = "upd_thread t (set_state THREAD_DEAD) k"
  let ?k2 = "dequeue_thread t ?k1"
  have e: "(if z_is_thread_queued (threads ?k1 t) then dequeue_thread t ?k1 else ?k1) = ?k2"
    using cond_dequeue [OF runq_inv_set_state [OF sched_invD(1) [OF inv]], of THREAD_DEAD t t] by blast
  have c: "sched_core {} ?k2" using halt_core [OF inv_core [OF inv] assms(2), of THREAD_DEAD] by simp
  have d: "\<not> z_is_thread_ready (threads ?k2 t)" "z_is_thread_dead (threads ?k2 t)" by (simp_all add: frame_simps flag_ops)
  from halt_dead_core [OF c d] obtain k3 where k3: "halt_dead t ?k2 = Some k3" "wait_qs k3 (JoinQ t) = []"
    "current k3 = current k" "in_isr k3 = in_isr k" "dummy_thread k3 = dummy_thread k" by (auto simp: frame_simps)
  have j: "swap_retval (threads k3 u) = 0" "prio_of k3 u = prio_of k u" "z_is_thread_ready (threads k3 u) = only_waits (threads k u)"
    using halt_dead_joiners [OF c d k3(1), of u] assms(4,5) by (simp_all add: frame_simps)
  have u: "u \<noteq> dummy_thread k" using sched_invD(3) [OF inv] assms(4) by (auto simp: waitq_inv_def)
  let ?k4 = "update_cache True k3"
  let ?k5 = "if t = current k \<and> in_isr k then z_dummy_thread_init ?k4 else ?k4"
  have h: "halt_thread t THREAD_DEAD k = Some ?k5"
    using assms(3) e k3 by (simp add: halt_thread_def Let_def z_is_thread_dead_def frame_simps)
  have k5: "wait_qs ?k5 (JoinQ t) = []" "threads ?k5 u = threads k3 u" "t \<noteq> current k \<longrightarrow> current ?k5 = current k"
    "t = current ?k5 \<and> \<not> in_isr ?k5 \<longrightarrow> t = current k"
    using k3 u by (auto simp: z_dummy_thread_init_def Let_def frame_simps)
  obtain k5 where k5_def: "k5 = ?k5" by blast
  note k5 = k5 [folded k5_def] and h = h [folded k5_def]
  obtain k6 where k6: "k6 = (if t = current k5 \<and> \<not> in_isr k5
      then z_swap (if z_is_thread_essential (threads k5 t) then k_panic k5 else k5) else k5)" by blast
  have k7: "k_thread_abort t k = Some (if z_is_thread_essential (threads k t) then k_panic k6 else k6)"
    using h assms(3) by (simp add: k_thread_abort_def z_thread_abort_def z_thread_halt_def z_is_thread_dead_def k6)
  have "wait_qs k6 (JoinQ t) = []" using k5(1) by (auto simp: k6 k_panic_def z_swap_def Let_def frame_simps)
  moreover have "threads k6 u = threads k3 u" using k5(2) assms(5) by (auto simp: k6 k_panic_def z_swap_def Let_def frame_simps)
  moreover have "t \<noteq> current k \<longrightarrow> current k6 = current k"
  proof
    assume "t \<noteq> current k"
    with k5(4) have "k6 = k5" unfolding k6 by metis
    with k5(3) \<open>t \<noteq> current k\<close> show "current k6 = current k" by blast
  qed
  moreover have "wait_qs (k_panic k6) = wait_qs k6" "threads (k_panic k6) = threads k6" "current (k_panic k6) = current k6"
    by (simp_all add: k_panic_def)
  ultimately show ?thesis using k7 j by (cases "z_is_thread_essential (threads k t)") auto
qed

section \<open>Suspending another thread under the scheduler lock\<close>

lemma suspend_other_cache:
  assumes inv: "sched_inv {} k" and t: "t \<noteq> current k" "t \<noteq> next_up k" "\<not> z_is_thread_suspended (threads k t)"
  shows "\<exists>k'. k_thread_suspend t k = Some k' \<and> current k' = current k \<and> threads k' (current k) = threads k (current k) \<and>
     ready_cache k' = next_up k"
proof -
  let ?k1 = "upd_thread t (set_state THREAD_SUSPENDED) k"
  let ?k2 = "dequeue_thread t ?k1"
  have e: "(if z_is_thread_queued (threads ?k1 t) then dequeue_thread t ?k1 else ?k1) = ?k2"
    using cond_dequeue [OF runq_inv_set_state [OF sched_invD(1) [OF inv]], of THREAD_SUSPENDED t t] by blast
  have n: "next_up ?k2 = next_up k" using t(2) by (auto simp: next_up_cases frame_simps z_priq_dumb_remove_def split: list.splits)
  have "k_thread_suspend t k = Some (update_cache True ?k2)"
    using t e by (simp add: k_thread_suspend_def z_thread_halt_def halt_thread_def Let_def z_is_thread_suspended_def frame_simps)
  then show ?thesis using t(1) n by (simp add: frame_simps update_cache_cache should_preempt_def)
qed

section \<open>Concrete states\<close>

text \<open>Thread 2 runs; thread 3 has a better priority and joins thread 4.\<close>

definition joining_kernel :: kernel where
  "joining_kernel = boot_kernel\<lparr>threads := boot_threads(2 := thread_with 5 THREAD_QUEUED None,
     3 := thread_with 3 THREAD_PENDING (Some (JoinQ 4)), 4 := thread_with 7 THREAD_QUEUED None),
     runq := [2, 4], ready_cache := 2, current := 2, wait_qs := (\<lambda>_. [])(JoinQ 4 := [3])\<rparr>"

text \<open>Thread 2 runs and has locked the scheduler; thread 3 has a better priority and is ready.\<close>

definition locked_kernel :: kernel where
  "locked_kernel = boot_kernel\<lparr>threads := boot_threads(2 := (thread_with 5 THREAD_QUEUED None)\<lparr>sched_locked := 255\<rparr>,
     3 := thread_with 3 THREAD_QUEUED None, 4 := thread_with 7 THREAD_QUEUED None),
     runq := [3, 2, 4], ready_cache := 2, current := 2\<rparr>"

lemmas concrete = joining_kernel_def locked_kernel_def boot_kernel_def boot_threads_def state_bits

lemma joining_kernel_inv: "sched_inv {} joining_kernel"
proof (rule sched_invI)
  show "runq_inv joining_kernel" by (auto simp: runq_inv_def concrete)
  show "ready_inv {} joining_kernel" by (auto simp: ready_inv_def concrete)
  show "waitq_inv joining_kernel" by (auto simp: waitq_inv_def concrete)
  show "timer_inv joining_kernel" by (auto simp: timer_inv_def clock_ok_def timeout_q_ok_def rem_q_def concrete)
  show "cache_inv joining_kernel" by (auto simp: cache_inv_def next_up_cases concrete)
qed

lemma locked_flags [simp]:
  "z_is_thread_queued (th\<lparr>sched_locked := l\<rparr>) = z_is_thread_queued th" "z_is_thread_ready (th\<lparr>sched_locked := l\<rparr>) = z_is_thread_ready th"
  "is_thread_dummy (th\<lparr>sched_locked := l\<rparr>) = is_thread_dummy th"
  by (simp_all add: flag_simps)

lemma locked_kernel_not_preemptible: "\<not> thread_is_preemptible (threads locked_kernel 2)"
  by (simp add: thread_is_preemptible_def preempt_def locked_kernel_def)

lemma locked_kernel_inv: "sched_inv {} locked_kernel"
proof (rule sched_invI)
  show "runq_inv locked_kernel" by (auto simp: runq_inv_def concrete)
  show "ready_inv {} locked_kernel" by (auto simp: ready_inv_def concrete)
  show "waitq_inv locked_kernel" by (auto simp: waitq_inv_def concrete)
  show "timer_inv locked_kernel" by (auto simp: timer_inv_def clock_ok_def timeout_q_ok_def rem_q_def concrete)
  show "cache_inv locked_kernel" using locked_kernel_not_preemptible by (auto simp: cache_inv_def next_up_cases concrete)
qed

section \<open>Properties\<close>







text \<open>C4: Aborting a thread ends and releases the threads that join it: their queue is empty, each of them gets the
  result 0 and keeps its priority, and is ready if it waited for nothing else. When the aborted thread is
  not the running one there is no rescheduling, so the running thread goes on even if a released thread has a
  higher priority.\<close>

theorem k_thread_abort_joiners:
  assumes "sched_inv {} k" "t \<noteq> idle_thread k" "\<not> z_is_thread_dead (threads k t)" "u \<in> set (wait_qs k (JoinQ t))" "u \<noteq> t"
  shows "\<exists>k'. k_thread_abort t k = Some k' \<and> wait_qs k' (JoinQ t) = [] \<and> swap_retval (threads k' u) = 0 \<and>
     prio_of k' u = prio_of k u \<and> z_is_thread_ready (threads k' u) = only_waits (threads k u) \<and>
     (t \<noteq> current k \<longrightarrow> current k' = current k)"
  using assms by (rule abort_joiners)

theorem k_thread_abort_joiners_witness:
  "\<exists>k'. k_thread_abort 4 joining_kernel = Some k' \<and> current k' = 2 \<and> z_is_thread_ready (threads k' 3) \<and>
     prio_of k' 3 < prio_of joining_kernel 2"
proof -
  have "only_waits (threads joining_kernel 3)" by (simp add: only_waits_def flag_simps) (simp add: concrete thread_with_def)
  then show ?thesis using k_thread_abort_joiners [OF joining_kernel_inv, of 4 3] by (auto simp: concrete)
qed

text \<open>C14: Suspending another thread makes the best ready thread the next one even when the running thread is not
  preemptible, because it is cooperative or has locked the scheduler: the next interrupt switches away from it.\<close>

theorem k_thread_suspend_ignores_lock:
  assumes "sched_inv {} k" "t \<noteq> current k" "t \<noteq> next_up k" "\<not> z_is_thread_suspended (threads k t)"
    "\<not> thread_is_preemptible (threads k (current k))" "current k \<noteq> next_up k"
  shows "\<exists>k'. k_thread_suspend t k = Some k' \<and> current k' = current k \<and>
     \<not> thread_is_preemptible (threads k' (current k)) \<and> current (interrupt_exit (k'\<lparr>in_isr := True\<rparr>)) = next_up k"
  using suspend_other_cache [OF assms(1-4)] assms(5) by (auto simp: interrupt_exit_def z_get_next_switch_handle_def)

theorem k_thread_suspend_ignores_lock_witness:
  "sched_locked (threads locked_kernel 2) = 255 \<and> current locked_kernel = 2 \<and>
   (\<exists>k'. k_thread_suspend 4 locked_kernel = Some k' \<and> current k' = 2 \<and> current (interrupt_exit (k'\<lparr>in_isr := True\<rparr>)) = 3)"
proof -
  have "next_up locked_kernel = 3" "current locked_kernel = 2" by (simp_all add: next_up_cases concrete)
  then show ?thesis using k_thread_suspend_ignores_lock [OF locked_kernel_inv, of 4] locked_kernel_not_preemptible
    by (auto simp: concrete)
qed

text \<open>C15: Changing the priority of a waiting thread leaves the order of its wait queue as it was, so the first
  waiter, which is woken first, need no longer be the one with the highest priority.\<close>

theorem k_thread_priority_set_keeps_wait_order:
  assumes "sched_inv {} k" "t \<in> set (wait_qs k w)"
  shows "wait_qs (k_thread_priority_set t p k) = wait_qs k \<and> prio_of (k_thread_priority_set t p k) t = i8 p \<and>
     fst (z_unpend_first_thread w (k_thread_priority_set t p k)) = fst (z_unpend_first_thread w k)"
proof -
  have "\<not> z_is_thread_ready (threads k t)"
    using assms ready_not_pended(5) [OF assms(1), of t w] by auto
  then show ?thesis by (simp add: k_thread_priority_set_def z_thread_prio_set_def z_unpend_first_thread_def Let_def frame_simps split: option.split)
qed

theorem k_thread_priority_set_keeps_wait_order_witness:
  "wait_qs (k_thread_priority_set 3 9 waiting_kernel) (ObjQ 7) = [3, 4] \<and> prio_of (k_thread_priority_set 3 9 waiting_kernel) 3 = i8 9"
  using k_thread_priority_set_keeps_wait_order [OF waiting_kernel_inv, of 3 "ObjQ 7" 9] by simp

end
