(* ===== verification/Work.thy ===== *)
theory Work
  imports Sem
begin

text \<open>
  Work queues (\<open>kernel/work.c\<close>): work items, delayable items, flushing, cancelling, draining and the loop of the
  thread that serves a queue. Items, queues and synchronisation objects are numbered. The state holds the
  kernel state, so waking and blocking threads is that of the scheduler. A pending list is the list of
  its items; the pointer lists are those of theory \<open>Slist\<close>. The module's lock masks interrupts, so each locked
  region is one step.
\<close>

section \<open>Flags\<close>

definition flag_clear :: "nat \<Rightarrow> u32 \<Rightarrow> u32" where
  "flag_clear b f = f AND NOT (push_bit b 1)"

definition flag_set :: "nat \<Rightarrow> u32 \<Rightarrow> u32" where
  "flag_set b f = f OR push_bit b 1"

definition flag_test :: "nat \<Rightarrow> u32 \<Rightarrow> bool" where
  "flag_test b f \<longleftrightarrow> f AND push_bit b 1 \<noteq> 0"

definition flag_test_and_clear :: "nat \<Rightarrow> u32 \<Rightarrow> bool \<times> u32" where
  "flag_test_and_clear b f = (flag_test b f, flag_clear b f)"

definition K_WORK_RUNNING_BIT :: nat where "K_WORK_RUNNING_BIT = 0"
definition K_WORK_CANCELING_BIT :: nat where "K_WORK_CANCELING_BIT = 1"
definition K_WORK_QUEUED_BIT :: nat where "K_WORK_QUEUED_BIT = 2"
definition K_WORK_DELAYED_BIT :: nat where "K_WORK_DELAYED_BIT = 3"
definition K_WORK_FLUSHING_BIT :: nat where "K_WORK_FLUSHING_BIT = 4"
definition K_WORK_DELAYABLE_BIT :: nat where "K_WORK_DELAYABLE_BIT = 8"

definition K_WORK_MASK :: u32 where
  "K_WORK_MASK = push_bit K_WORK_DELAYED_BIT 1 OR push_bit K_WORK_QUEUED_BIT 1 OR push_bit K_WORK_RUNNING_BIT 1 OR
     push_bit K_WORK_CANCELING_BIT 1 OR push_bit K_WORK_FLUSHING_BIT 1"

definition K_WORK_QUEUE_STARTED_BIT :: nat where "K_WORK_QUEUE_STARTED_BIT = 0"
definition K_WORK_QUEUE_BUSY_BIT :: nat where "K_WORK_QUEUE_BUSY_BIT = 1"
definition K_WORK_QUEUE_DRAIN_BIT :: nat where "K_WORK_QUEUE_DRAIN_BIT = 2"
definition K_WORK_QUEUE_PLUGGED_BIT :: nat where "K_WORK_QUEUE_PLUGGED_BIT = 3"
definition K_WORK_QUEUE_STOP_BIT :: nat where "K_WORK_QUEUE_STOP_BIT = 4"
definition K_WORK_QUEUE_NO_YIELD_BIT :: nat where "K_WORK_QUEUE_NO_YIELD_BIT = 8"

section \<open>State\<close>

text \<open>\<open>dwork_queue\<close> is the queue field of a delayable item; its timeout is \<open>WorkTimeout\<close> with the number of the item.\<close>

record k_work =
  wflags :: u32
  wqueue :: "nat option"
  dwork_queue :: "nat option"

record k_work_q =
  pending :: "nat list"
  qflags :: u32
  q_thread :: tid
  notifyq :: nat
  drainq :: nat

text \<open>\<open>pending_cancels\<close> pairs a synchronisation object with the item it waits for. A synchronisation object
  used to flush is itself a work item, with the same number; \<open>sems\<close> holds the semaphores of the objects.\<close>

record work_state =
  works :: "nat \<Rightarrow> k_work"
  wqs :: "nat \<Rightarrow> k_work_q"
  pending_cancels :: "(nat \<times> nat) list"
  sems :: "nat \<Rightarrow> k_sem"
  kern :: kernel

definition upd_work :: "nat \<Rightarrow> (k_work \<Rightarrow> k_work) \<Rightarrow> work_state \<Rightarrow> work_state" where
  "upd_work w f s = s\<lparr>works := (works s)(w := f (works s w))\<rparr>"

definition upd_wq :: "nat \<Rightarrow> (k_work_q \<Rightarrow> k_work_q) \<Rightarrow> work_state \<Rightarrow> work_state" where
  "upd_wq q f s = s\<lparr>wqs := (wqs s)(q := f (wqs s q))\<rparr>"

abbreviation work_flag :: "nat \<Rightarrow> nat \<Rightarrow> work_state \<Rightarrow> bool" where
  "work_flag b w s \<equiv> flag_test b (wflags (works s w))"

abbreviation queue_flag :: "nat \<Rightarrow> nat \<Rightarrow> work_state \<Rightarrow> bool" where
  "queue_flag b q s \<equiv> flag_test b (qflags (wqs s q))"

definition set_work_flag :: "nat \<Rightarrow> nat \<Rightarrow> work_state \<Rightarrow> work_state" where
  "set_work_flag b w = upd_work w (\<lambda>x. x\<lparr>wflags := flag_set b (wflags x)\<rparr>)"

definition clear_work_flag :: "nat \<Rightarrow> nat \<Rightarrow> work_state \<Rightarrow> work_state" where
  "clear_work_flag b w = upd_work w (\<lambda>x. x\<lparr>wflags := flag_clear b (wflags x)\<rparr>)"

definition set_queue_flag :: "nat \<Rightarrow> nat \<Rightarrow> work_state \<Rightarrow> work_state" where
  "set_queue_flag b q = upd_wq q (\<lambda>x. x\<lparr>qflags := flag_set b (qflags x)\<rparr>)"

definition clear_queue_flag :: "nat \<Rightarrow> nat \<Rightarrow> work_state \<Rightarrow> work_state" where
  "clear_queue_flag b q = upd_wq q (\<lambda>x. x\<lparr>qflags := flag_clear b (qflags x)\<rparr>)"

section \<open>Flushing and cancelling\<close>

definition k_work_init :: "nat \<Rightarrow> work_state \<Rightarrow> work_state" where
  "k_work_init w s = upd_work w (\<lambda>x. x\<lparr>wflags := 0, wqueue := None\<rparr>) s"

text \<open>Initialising the semaphore of a synchronisation object.\<close>

definition init_sync_sem :: "nat \<Rightarrow> work_state \<Rightarrow> work_state" where
  "init_sync_sem c s = (case k_sem_init 0 1 (sems s c) (kern s) of (_, sm, k) \<Rightarrow> s\<lparr>sems := (sems s)(c := sm), kern := k\<rparr>)"

definition init_flusher :: "nat \<Rightarrow> work_state \<Rightarrow> work_state" where
  "init_flusher f s = set_work_flag K_WORK_FLUSHING_BIT f (k_work_init f (init_sync_sem f s))"

definition init_work_cancel :: "nat \<Rightarrow> nat \<Rightarrow> work_state \<Rightarrow> work_state" where
  "init_work_cancel c w s = (init_sync_sem c s)\<lparr>pending_cancels := pending_cancels s @ [(c, w)]\<rparr>"

text \<open>\<open>k_sem_give\<close> with the module's lock held: interrupts are masked, so it does not switch.\<close>

definition give_locked :: "nat \<Rightarrow> work_state \<Rightarrow> work_state" where
  "give_locked c s =
     (let (sm, k) = k_sem_give (sems s c) ((kern s)\<lparr>irq_unlocked := False\<rparr>)
      in s\<lparr>sems := (sems s)(c := sm), kern := k\<lparr>irq_unlocked := irq_unlocked (kern s)\<rparr>\<rparr>)"

definition finalize_flush_locked :: "nat \<Rightarrow> work_state \<Rightarrow> work_state" where
  "finalize_flush_locked f s = give_locked f (clear_work_flag K_WORK_FLUSHING_BIT f s)"

text \<open>The loop over the pending cancels stops at the first match.\<close>

fun take_canceller :: "nat \<Rightarrow> (nat \<times> nat) list \<Rightarrow> nat option \<times> (nat \<times> nat) list" where
  "take_canceller w [] = (None, [])"
| "take_canceller w ((c, w') # cs) =
     (if w' = w then (Some c, cs) else let (r, cs') = take_canceller w cs in (r, (c, w') # cs'))"

definition finalize_cancel_locked :: "nat \<Rightarrow> work_state \<Rightarrow> work_state" where
  "finalize_cancel_locked w s =
     (let s1 = clear_work_flag K_WORK_CANCELING_BIT w s
      in case take_canceller w (pending_cancels s1) of
           (Some c, cs) \<Rightarrow> give_locked c (s1\<lparr>pending_cancels := cs\<rparr>)
         | (None, _) \<Rightarrow> s1)"

definition work_busy_get_locked :: "nat \<Rightarrow> work_state \<Rightarrow> u32" where
  "work_busy_get_locked w s = wflags (works s w) AND K_WORK_MASK"

definition k_work_busy_get :: "nat \<Rightarrow> work_state \<Rightarrow> u32" where
  "k_work_busy_get w s = work_busy_get_locked w s"

definition k_work_is_pending :: "nat \<Rightarrow> work_state \<Rightarrow> bool" where
  "k_work_is_pending w s \<longleftrightarrow> k_work_busy_get w s \<noteq> 0"

text \<open>\<open>sys_slist_insert\<close> behind a node of the list.\<close>

fun insert_behind :: "nat \<Rightarrow> nat \<Rightarrow> nat list \<Rightarrow> nat list" where
  "insert_behind p x [] = [x]"
| "insert_behind p x (y # ys) = (if y = p then y # x # ys else y # insert_behind p x ys)"

definition queue_flusher_locked :: "nat \<Rightarrow> nat \<Rightarrow> nat \<Rightarrow> work_state \<Rightarrow> work_state" where
  "queue_flusher_locked q w f s =
     (let s1 = init_flusher f s
      in if work_flag K_WORK_QUEUED_BIT w s1 then upd_wq q (\<lambda>x. x\<lparr>pending := insert_behind w f (pending x)\<rparr>) s1
         else upd_wq q (\<lambda>x. x\<lparr>pending := f # pending x\<rparr>) s1)"

definition queue_remove_locked :: "nat option \<Rightarrow> nat \<Rightarrow> work_state \<Rightarrow> work_state" where
  "queue_remove_locked q w s =
     (let (queued, fl) = flag_test_and_clear K_WORK_QUEUED_BIT (wflags (works s w));
          s1 = upd_work w (\<lambda>x. x\<lparr>wflags := fl\<rparr>) s
      in if queued then upd_wq (the q) (\<lambda>x. x\<lparr>pending := remove1 w (pending x)\<rparr>) s1 else s1)"

definition notify_queue_locked :: "nat option \<Rightarrow> work_state \<Rightarrow> bool \<times> work_state" where
  "notify_queue_locked q s =
     (case q of None \<Rightarrow> (False, s)
      | Some q \<Rightarrow> let (r, k) = z_sched_wake (ObjQ (notifyq (wqs s q))) 0 0 (kern s) in (r, s\<lparr>kern := k\<rparr>))"

section \<open>Submitting\<close>

definition queue_submit_locked :: "nat option \<Rightarrow> nat \<Rightarrow> work_state \<Rightarrow> int \<times> work_state" where
  "queue_submit_locked q w s =
     (case q of None \<Rightarrow> (- EINVAL, s)
      | Some q \<Rightarrow>
          let chained = (current (kern s) = q_thread (wqs s q) \<and> \<not> in_isr (kern s));
              draining = queue_flag K_WORK_QUEUE_DRAIN_BIT q s;
              plugged = queue_flag K_WORK_QUEUE_PLUGGED_BIT q s
          in if \<not> queue_flag K_WORK_QUEUE_STARTED_BIT q s then (- ENODEV, s)
             else if draining \<and> \<not> chained then (- EBUSY, s)
             else if plugged \<and> \<not> draining then (- EBUSY, s)
             else (1, snd (notify_queue_locked (Some q) (upd_wq q (\<lambda>x. x\<lparr>pending := pending x @ [w]\<rparr>) s))))"

text \<open>The second component is the queue the item was submitted to.\<close>

definition submit_to_queue_locked :: "nat \<Rightarrow> nat option \<Rightarrow> work_state \<Rightarrow> int \<times> nat option \<times> work_state" where
  "submit_to_queue_locked w q s =
     (let (ret, q1, s1) =
        (if work_flag K_WORK_CANCELING_BIT w s then (- EBUSY, q, s)
         else if \<not> work_flag K_WORK_QUEUED_BIT w s
         then let qa = (if q = None then wqueue (works s w) else q);
                  (qb, ret) = (if work_flag K_WORK_RUNNING_BIT w s then (wqueue (works s w), 2) else (qa, 1));
                  (rc, s1) = queue_submit_locked qb w s
              in if rc < 0 then (rc, qb, s1)
                 else (ret, qb, upd_work w (\<lambda>x. x\<lparr>wqueue := qb\<rparr>) (set_work_flag K_WORK_QUEUED_BIT w s1))
         else (0, q, s))
      in (ret, if ret \<le> 0 then None else q1, s1))"

definition z_work_submit_to_queue :: "nat option \<Rightarrow> nat \<Rightarrow> work_state \<Rightarrow> int \<times> work_state" where
  "z_work_submit_to_queue q w s = (let (ret, _, s1) = submit_to_queue_locked w q s in (ret, s1))"

definition k_work_submit_to_queue :: "nat option \<Rightarrow> nat \<Rightarrow> work_state \<Rightarrow> int \<times> work_state" where
  "k_work_submit_to_queue q w s =
     (let (ret, s1) = z_work_submit_to_queue q w s
      in (ret, if ret > 0 then s1\<lparr>kern := z_reschedule_unlocked (kern s1)\<rparr> else s1))"

definition k_sys_work_q :: nat where "k_sys_work_q = 0"

definition k_work_submit :: "nat \<Rightarrow> work_state \<Rightarrow> int \<times> work_state" where
  "k_work_submit w s = k_work_submit_to_queue (Some k_sys_work_q) w s"

section \<open>Waiting for items\<close>

definition take_forever :: "nat \<Rightarrow> work_state \<Rightarrow> int outcome \<times> work_state" where
  "take_forever c s =
     (let (r, sm, k) = k_sem_take K_FOREVER (sems s c) (kern s) in (r, s\<lparr>sems := (sems s)(c := sm), kern := k\<rparr>))"

text \<open>The result of a call that waits for a semaphore when it needs to.\<close>

definition wait_if :: "bool \<Rightarrow> bool \<Rightarrow> nat \<Rightarrow> work_state \<Rightarrow> bool outcome \<times> work_state" where
  "wait_if need res c s =
     (if need then let (r, s1) = take_forever c s in (case r of Done _ \<Rightarrow> Done res | Blocked \<Rightarrow> Blocked, s1) else (Done res, s))"

definition work_flush_locked :: "nat \<Rightarrow> nat \<Rightarrow> work_state \<Rightarrow> bool \<times> work_state" where
  "work_flush_locked w f s =
     (let need = (work_flag K_WORK_QUEUED_BIT w s \<or> work_flag K_WORK_RUNNING_BIT w s)
      in (need, if need then snd (notify_queue_locked (wqueue (works s w)) (queue_flusher_locked (the (wqueue (works s w))) w f s)) else s))"

definition k_work_flush :: "nat \<Rightarrow> nat \<Rightarrow> work_state \<Rightarrow> bool outcome \<times> work_state" where
  "k_work_flush w f s = (let (need, s1) = work_flush_locked w f s in wait_if need need f s1)"

definition cancel_async_locked :: "nat \<Rightarrow> work_state \<Rightarrow> u32 \<times> work_state" where
  "cancel_async_locked w s =
     (let s1 = (if \<not> work_flag K_WORK_CANCELING_BIT w s then queue_remove_locked (wqueue (works s w)) w s else s)
      in if work_busy_get_locked w s1 \<noteq> 0
         then let s2 = set_work_flag K_WORK_CANCELING_BIT w s1 in (work_busy_get_locked w s2, s2)
         else (0, s1))"

definition cancel_sync_locked :: "nat \<Rightarrow> nat \<Rightarrow> work_state \<Rightarrow> bool \<times> work_state" where
  "cancel_sync_locked w c s =
     (if work_flag K_WORK_CANCELING_BIT w s then (True, init_work_cancel c w s) else (False, s))"

definition k_work_cancel :: "nat \<Rightarrow> work_state \<Rightarrow> u32 \<times> work_state" where
  "k_work_cancel w s = cancel_async_locked w s"

definition k_work_cancel_sync :: "nat \<Rightarrow> nat \<Rightarrow> work_state \<Rightarrow> bool outcome \<times> work_state" where
  "k_work_cancel_sync w c s =
     (if work_busy_get_locked w s \<noteq> 0
      then let (need, s1) = cancel_sync_locked w c (snd (cancel_async_locked w s)) in wait_if need True c s1
      else (Done False, s))"

section \<open>The thread of a work queue\<close>

datatype wq_next = Run nat | Wait | Stop

text \<open>One turn of the loop up to the call of the handler.\<close>

definition work_queue_take :: "nat \<Rightarrow> work_state \<Rightarrow> (wq_next \<times> work_state) option" where
  "work_queue_take q s =
     (case pending (wqs s q) of
        w # ws \<Rightarrow>
          Some (Run w, clear_work_flag K_WORK_QUEUED_BIT w (set_work_flag K_WORK_RUNNING_BIT w
            (set_queue_flag K_WORK_QUEUE_BUSY_BIT q (upd_wq q (\<lambda>x. x\<lparr>pending := ws\<rparr>) s))))
      | [] \<Rightarrow>
          if queue_flag K_WORK_QUEUE_DRAIN_BIT q s
          then map_option (\<lambda>(_, k). (Wait, (clear_queue_flag K_WORK_QUEUE_DRAIN_BIT q s)
                   \<lparr>kern := z_pend_curr (Some (ObjQ (notifyq (wqs s q)))) K_FOREVER k\<rparr>))
                 (z_sched_wake_all (ObjQ (drainq (wqs s q))) 1 0 (kern s))
          else if queue_flag K_WORK_QUEUE_STOP_BIT q s
          then Some (Stop, upd_wq q (\<lambda>x. x\<lparr>qflags := 0\<rparr>) s)
          else Some (Wait, s\<lparr>kern := z_pend_curr (Some (ObjQ (notifyq (wqs s q)))) K_FOREVER (kern s)\<rparr>))"

text \<open>The rest of the turn, behind the call of the handler.\<close>

definition work_queue_done :: "nat \<Rightarrow> nat \<Rightarrow> work_state \<Rightarrow> work_state" where
  "work_queue_done q w s =
     (let s1 = clear_work_flag K_WORK_RUNNING_BIT w s;
          s2 = (if work_flag K_WORK_FLUSHING_BIT w s1 then finalize_flush_locked w s1 else s1);
          s3 = (if work_flag K_WORK_CANCELING_BIT w s2 then finalize_cancel_locked w s2 else s2);
          s4 = clear_queue_flag K_WORK_QUEUE_BUSY_BIT q s3
      in if \<not> queue_flag K_WORK_QUEUE_NO_YIELD_BIT q s4 then s4\<lparr>kern := k_yield (kern s4)\<rparr> else s4)"

text \<open>The loop, with the handlers of the items as a parameter, up to the point where the thread waits or returns: the items
  it ran, in order, and the state. \<open>n\<close> bounds the number of turns.\<close>

fun work_queue_main :: "nat \<Rightarrow> (nat \<Rightarrow> work_state \<Rightarrow> work_state) \<Rightarrow> nat \<Rightarrow> work_state \<Rightarrow> (nat list \<times> work_state) option" where
  "work_queue_main 0 handler q s = None"
| "work_queue_main (Suc n) handler q s =
     (case work_queue_take q s of
        None \<Rightarrow> None
      | Some (Run w, s1) \<Rightarrow>
          map_option (\<lambda>(ws, s'). (w # ws, s')) (work_queue_main n handler q (work_queue_done q w (handler w s1)))
      | Some (_, s1) \<Rightarrow> Some ([], s1))"

section \<open>Queues\<close>

definition k_work_queue_init :: "nat \<Rightarrow> work_state \<Rightarrow> work_state" where
  "k_work_queue_init q s = upd_wq q (\<lambda>x. x\<lparr>pending := [], qflags := 0\<rparr>) s"

definition k_work_queue_start :: "nat \<Rightarrow> int \<Rightarrow> bool \<Rightarrow> bool \<Rightarrow> work_state \<Rightarrow> work_state" where
  "k_work_queue_start q pri no_yield essential s =
     (let x = wqs s q;
          fl = (if no_yield then flag_set K_WORK_QUEUE_NO_YIELD_BIT 1 else 1);
          k1 = (kern s)\<lparr>wait_qs := (wait_qs (kern s))(ObjQ (notifyq x) := [], ObjQ (drainq x) := [])\<rparr>;
          k2 = k_thread_create (q_thread x) pri 0 K_FOREVER k1;
          k3 = (if essential then upd_thread (q_thread x) (\<lambda>th. th\<lparr>user_options := user_options th OR K_ESSENTIAL\<rparr>) k2 else k2)
      in (upd_wq q (\<lambda>x. x\<lparr>pending := [], qflags := fl\<rparr>) s)\<lparr>kern := k_wakeup (q_thread x) k3\<rparr>)"

definition k_sys_work_q_init :: "int \<Rightarrow> bool \<Rightarrow> work_state \<Rightarrow> work_state" where
  "k_sys_work_q_init pri no_yield s = k_work_queue_start k_sys_work_q pri no_yield True s"

definition k_work_queue_thread_get :: "nat \<Rightarrow> work_state \<Rightarrow> tid" where
  "k_work_queue_thread_get q s = q_thread (wqs s q)"

definition k_work_queue_drain :: "nat \<Rightarrow> bool \<Rightarrow> work_state \<Rightarrow> int outcome \<times> work_state" where
  "k_work_queue_drain q plug s =
     (if queue_flag K_WORK_QUEUE_BUSY_BIT q s \<or> queue_flag K_WORK_QUEUE_DRAIN_BIT q s \<or> plug \<or> pending (wqs s q) \<noteq> []
      then let s1 = set_queue_flag K_WORK_QUEUE_DRAIN_BIT q s;
               s2 = (if plug then set_queue_flag K_WORK_QUEUE_PLUGGED_BIT q s1 else s1);
               s3 = snd (notify_queue_locked (Some q) s2)
           in (Blocked, s3\<lparr>kern := z_pend_curr (Some (ObjQ (drainq (wqs s q)))) K_FOREVER (kern s3)\<rparr>)
      else (Done 0, s))"

definition k_work_queue_unplug :: "nat \<Rightarrow> work_state \<Rightarrow> int \<times> work_state" where
  "k_work_queue_unplug q s =
     (let (plugged, fl) = flag_test_and_clear K_WORK_QUEUE_PLUGGED_BIT (qflags (wqs s q))
      in (if plugged then 0 else - EALREADY, upd_wq q (\<lambda>x. x\<lparr>qflags := fl\<rparr>) s))"

definition k_work_queue_stop :: "nat \<Rightarrow> k_timeout \<Rightarrow> work_state \<Rightarrow> int outcome \<times> work_state" where
  "k_work_queue_stop q timeout s =
     (if \<not> queue_flag K_WORK_QUEUE_STARTED_BIT q s then (Done (- EALREADY), s)
      else if \<not> queue_flag K_WORK_QUEUE_PLUGGED_BIT q s then (Done (- EBUSY), s)
      else let s1 = snd (notify_queue_locked (Some q) (set_queue_flag K_WORK_QUEUE_STOP_BIT q s));
               (r, k) = k_thread_join (q_thread (wqs s q)) timeout (kern s1);
               s2 = s1\<lparr>kern := k\<rparr>
           in case r of Blocked \<Rightarrow> (Blocked, s2)
              | Done v \<Rightarrow> if v \<noteq> 0 then (Done (- ETIMEDOUT), clear_queue_flag K_WORK_QUEUE_STOP_BIT q s2) else (Done 0, s2))"

text \<open>Behind the wait in \<open>k_thread_join\<close>.\<close>

definition k_work_queue_stop_resume :: "nat \<Rightarrow> work_state \<Rightarrow> int \<times> work_state" where
  "k_work_queue_stop_resume q s =
     (if swap_result (kern s) \<noteq> 0 then (- ETIMEDOUT, clear_queue_flag K_WORK_QUEUE_STOP_BIT q s) else (0, s))"

section \<open>Delayable items\<close>

definition work_timeout :: "nat \<Rightarrow> work_state \<Rightarrow> work_state" where
  "work_timeout w s =
     (let (delayed, fl) = flag_test_and_clear K_WORK_DELAYED_BIT (wflags (works s w));
          s1 = upd_work w (\<lambda>x. x\<lparr>wflags := fl\<rparr>) s
      in if delayed then snd (snd (submit_to_queue_locked w (dwork_queue (works s1 w)) s1)) else s1)"

definition k_work_init_delayable :: "nat \<Rightarrow> work_state \<Rightarrow> work_state" where
  "k_work_init_delayable w s =
     upd_work w (\<lambda>_. \<lparr>wflags = push_bit K_WORK_DELAYABLE_BIT 1, wqueue = None, dwork_queue = None\<rparr>) s"

definition k_work_delayable_busy_get :: "nat \<Rightarrow> work_state \<Rightarrow> u32" where
  "k_work_delayable_busy_get w s = wflags (works s w) AND K_WORK_MASK"

definition k_work_delayable_is_pending :: "nat \<Rightarrow> work_state \<Rightarrow> bool" where
  "k_work_delayable_is_pending w s \<longleftrightarrow> k_work_delayable_busy_get w s \<noteq> 0"

definition k_work_delayable_expires_get :: "nat \<Rightarrow> work_state \<Rightarrow> int" where
  "k_work_delayable_expires_get w s = z_timeout_expires (kern s) (WorkTimeout w)"

definition k_work_delayable_remaining_get :: "nat \<Rightarrow> work_state \<Rightarrow> int" where
  "k_work_delayable_remaining_get w s = z_timeout_remaining (kern s) (WorkTimeout w)"

definition schedule_for_queue_locked :: "nat option \<Rightarrow> nat \<Rightarrow> k_timeout \<Rightarrow> work_state \<Rightarrow> int \<times> work_state" where
  "schedule_for_queue_locked q w delay s =
     (if delay = K_NO_WAIT then (let (ret, _, s1) = submit_to_queue_locked w q s in (ret, s1))
      else let s1 = upd_work w (\<lambda>x. x\<lparr>dwork_queue := q\<rparr>) (set_work_flag K_WORK_DELAYED_BIT w s)
           in (1, s1\<lparr>kern := z_add_timeout (WorkTimeout w) Work_timeout delay (kern s1)\<rparr>))"

definition unschedule_locked :: "nat \<Rightarrow> work_state \<Rightarrow> bool \<times> work_state" where
  "unschedule_locked w s =
     (let (delayed, fl) = flag_test_and_clear K_WORK_DELAYED_BIT (wflags (works s w));
          s1 = upd_work w (\<lambda>x. x\<lparr>wflags := fl\<rparr>) s
      in if delayed then let (r, k) = z_abort_timeout (WorkTimeout w) (kern s1) in (r = 0, s1\<lparr>kern := k\<rparr>) else (False, s1))"

definition cancel_delayable_async_locked :: "nat \<Rightarrow> work_state \<Rightarrow> u32 \<times> work_state" where
  "cancel_delayable_async_locked w s = cancel_async_locked w (snd (unschedule_locked w s))"

definition k_work_schedule_for_queue :: "nat option \<Rightarrow> nat \<Rightarrow> k_timeout \<Rightarrow> work_state \<Rightarrow> int \<times> work_state" where
  "k_work_schedule_for_queue q w delay s =
     (if work_busy_get_locked w s AND NOT (push_bit K_WORK_RUNNING_BIT 1) = 0 then schedule_for_queue_locked q w delay s else (0, s))"

definition k_work_schedule :: "nat \<Rightarrow> k_timeout \<Rightarrow> work_state \<Rightarrow> int \<times> work_state" where
  "k_work_schedule w delay s = k_work_schedule_for_queue (Some k_sys_work_q) w delay s"

definition k_work_reschedule_for_queue :: "nat option \<Rightarrow> nat \<Rightarrow> k_timeout \<Rightarrow> work_state \<Rightarrow> int \<times> work_state" where
  "k_work_reschedule_for_queue q w delay s = schedule_for_queue_locked q w delay (snd (unschedule_locked w s))"

definition k_work_reschedule :: "nat \<Rightarrow> k_timeout \<Rightarrow> work_state \<Rightarrow> int \<times> work_state" where
  "k_work_reschedule w delay s = k_work_reschedule_for_queue (Some k_sys_work_q) w delay s"

definition k_work_cancel_delayable :: "nat \<Rightarrow> work_state \<Rightarrow> u32 \<times> work_state" where
  "k_work_cancel_delayable w s = cancel_delayable_async_locked w s"

definition k_work_cancel_delayable_sync :: "nat \<Rightarrow> nat \<Rightarrow> work_state \<Rightarrow> bool outcome \<times> work_state" where
  "k_work_cancel_delayable_sync w c s =
     (if k_work_delayable_busy_get w s \<noteq> 0
      then let (need, s1) = cancel_sync_locked w c (snd (cancel_delayable_async_locked w s)) in wait_if need True c s1
      else (Done False, s))"

definition k_work_flush_delayable :: "nat \<Rightarrow> nat \<Rightarrow> work_state \<Rightarrow> bool outcome \<times> work_state" where
  "k_work_flush_delayable w f s =
     (if work_busy_get_locked w s = 0 then (Done False, s)
      else let (unscheduled, s1) = unschedule_locked w s;
               s2 = (if unscheduled then snd (snd (submit_to_queue_locked w (dwork_queue (works s1 w)) s1)) else s1);
               (need, s3) = work_flush_locked w f s2
           in wait_if need need f s3)"

section \<open>Flag algebra\<close>

lemma flag_test_bit: "flag_test b f \<longleftrightarrow> bit f b"
  unfolding flag_test_def and_bit_mask_iff by simp

lemma flag_test_set [simp]: "b < 32 \<Longrightarrow> flag_test c (flag_set b f) \<longleftrightarrow> c = b \<or> flag_test c f"
  by (auto simp: flag_test_bit flag_set_def bit_simps)

lemma flag_test_clear [simp]: "flag_test c (flag_clear b f) \<longleftrightarrow> c \<noteq> b \<and> flag_test c f"
  using bit_imp_le_length [of f c] by (auto simp: flag_test_bit flag_clear_def bit_simps)

lemma flag_test_zero [simp]: "\<not> flag_test b 0"
  by (simp add: flag_test_def)

lemmas work_bits = K_WORK_RUNNING_BIT_def K_WORK_CANCELING_BIT_def K_WORK_QUEUED_BIT_def K_WORK_DELAYED_BIT_def K_WORK_FLUSHING_BIT_def
  K_WORK_DELAYABLE_BIT_def

lemmas queue_bits = K_WORK_QUEUE_STARTED_BIT_def K_WORK_QUEUE_BUSY_BIT_def K_WORK_QUEUE_DRAIN_BIT_def K_WORK_QUEUE_PLUGGED_BIT_def
  K_WORK_QUEUE_STOP_BIT_def K_WORK_QUEUE_NO_YIELD_BIT_def

lemma mask_bits: "bit K_WORK_MASK b \<longleftrightarrow> b < 5"
proof -
  have e: "K_WORK_MASK = mask 5" by (simp add: K_WORK_MASK_def work_bits mask_eq_decr_exp)
  show ?thesis unfolding e bit_mask_iff by auto
qed

lemma word_zero_bits: "x = 0 \<longleftrightarrow> (\<forall>b. \<not> bit x b)" for x :: u32
  by (auto intro: bit_word_eqI)

lemma busy_zero: "work_busy_get_locked w s = 0 \<longleftrightarrow> (\<forall>b < 5. \<not> work_flag b w s)"
  unfolding word_zero_bits by (auto simp: work_busy_get_locked_def bit_simps mask_bits flag_test_bit)

lemma all_less_5: "(\<forall>b < 5. P b) \<longleftrightarrow> P 0 \<and> P 1 \<and> P 2 \<and> P 3 \<and> P (4 :: nat)"
  by (auto simp: numeral_eq_Suc less_Suc_eq)

lemma busy_not_running_zero:
  "work_busy_get_locked w s AND NOT (push_bit K_WORK_RUNNING_BIT 1) = 0 \<longleftrightarrow> (\<forall>b < 5. b \<noteq> K_WORK_RUNNING_BIT \<longrightarrow> \<not> work_flag b w s)"
proof -
  have l: "b < 32" if "b < 5" for b :: nat using that by simp
  have "work_busy_get_locked w s AND NOT (push_bit K_WORK_RUNNING_BIT 1) = 0 \<longleftrightarrow> (\<forall>b < 32. b < 5 \<and> bit (wflags (works s w)) b \<longrightarrow> b = 0)"
    unfolding word_zero_bits by (auto simp: work_busy_get_locked_def bit_simps mask_bits flag_test_bit K_WORK_RUNNING_BIT_def)
  also have "\<dots> \<longleftrightarrow> (\<forall>b < 5. b \<noteq> 0 \<longrightarrow> \<not> bit (wflags (works s w)) b)" using l by blast
  finally show ?thesis by (simp add: flag_test_bit K_WORK_RUNNING_BIT_def)
qed

section \<open>The state machine of work items\<close>

text \<open>What the flags and the lists say, without the words and without the kernel: \<open>on\<close> is the queue an item was last
  submitted to.\<close>

record work_core =
  running :: "nat \<Rightarrow> bool"
  canceling :: "nat \<Rightarrow> bool"
  queued :: "nat \<Rightarrow> bool"
  flushing :: "nat \<Rightarrow> bool"
  on :: "nat \<Rightarrow> nat option"
  pend :: "nat \<Rightarrow> nat list"
  started :: "nat \<Rightarrow> bool"

definition core_of :: "work_state \<Rightarrow> work_core" where
  "core_of s = \<lparr>running = (\<lambda>w. work_flag K_WORK_RUNNING_BIT w s), canceling = (\<lambda>w. work_flag K_WORK_CANCELING_BIT w s),
     queued = (\<lambda>w. work_flag K_WORK_QUEUED_BIT w s), flushing = (\<lambda>w. work_flag K_WORK_FLUSHING_BIT w s),
     on = (\<lambda>w. wqueue (works s w)), pend = (\<lambda>q. pending (wqs s q)), started = (\<lambda>q. queue_flag K_WORK_QUEUE_STARTED_BIT q s)\<rparr>"

definition core_enqueue :: "nat \<Rightarrow> nat \<Rightarrow> work_core \<Rightarrow> work_core" where
  "core_enqueue w q c = c\<lparr>queued := (queued c)(w := True), on := (on c)(w := Some q), pend := (pend c)(q := pend c q @ [w])\<rparr>"

definition core_dequeue :: "nat \<Rightarrow> work_core \<Rightarrow> work_core" where
  "core_dequeue w c =
     (if queued c w
      then c\<lparr>queued := (queued c)(w := False), pend := (pend c)(the (on c w) := remove1 w (pend c (the (on c w))))\<rparr> else c)"

definition core_cancel :: "nat \<Rightarrow> work_core \<Rightarrow> work_core" where
  "core_cancel w c = c\<lparr>canceling := (canceling c)(w := True)\<rparr>"

definition core_flush :: "nat \<Rightarrow> nat \<Rightarrow> nat \<Rightarrow> work_core \<Rightarrow> work_core" where
  "core_flush w f q c = c\<lparr>running := (running c)(f := False), canceling := (canceling c)(f := False), queued := (queued c)(f := False),
     flushing := (flushing c)(f := True), on := (on c)(f := None),
     pend := (pend c)(q := if queued c w then insert_behind w f (pend c q) else f # pend c q)\<rparr>"

definition core_take :: "nat \<Rightarrow> nat \<Rightarrow> work_core \<Rightarrow> work_core" where
  "core_take q w c = c\<lparr>running := (running c)(w := True), queued := (queued c)(w := False), pend := (pend c)(q := tl (pend c q))\<rparr>"

definition core_done :: "nat \<Rightarrow> work_core \<Rightarrow> work_core" where
  "core_done w c = c\<lparr>running := (running c)(w := False), canceling := (canceling c)(w := False), flushing := (flushing c)(w := False)\<rparr>"

lemma core_fields [simp]:
  "running (core_of s) w = work_flag K_WORK_RUNNING_BIT w s" "canceling (core_of s) w = work_flag K_WORK_CANCELING_BIT w s"
  "queued (core_of s) w = work_flag K_WORK_QUEUED_BIT w s" "flushing (core_of s) w = work_flag K_WORK_FLUSHING_BIT w s"
  "on (core_of s) w = wqueue (works s w)" "pend (core_of s) q = pending (wqs s q)" "started (core_of s) q = queue_flag K_WORK_QUEUE_STARTED_BIT q s"
  by (simp_all add: core_of_def)

lemma core_eqI:
  "(\<And>w. running c w = running d w) \<Longrightarrow> (\<And>w. canceling c w = canceling d w) \<Longrightarrow> (\<And>w. queued c w = queued d w) \<Longrightarrow>
   (\<And>w. flushing c w = flushing d w) \<Longrightarrow> (\<And>w. on c w = on d w) \<Longrightarrow> (\<And>q. pend c q = pend d q) \<Longrightarrow>
   (\<And>q. started c q = started d q) \<Longrightarrow> c = d" for c d :: work_core
  by (cases c; cases d) auto

lemma core_of_cong: "works s' = works s \<Longrightarrow> wqs s' = wqs s \<Longrightarrow> core_of s' = core_of s"
  by (rule core_eqI) simp_all

lemma kern_core [simp]: "core_of (s\<lparr>kern := k\<rparr>) = core_of s" "core_of (s\<lparr>sems := m\<rparr>) = core_of s"
  "core_of (s\<lparr>pending_cancels := cs\<rparr>) = core_of s"
  by (rule core_of_cong; simp)+

text \<open>Reads of an updated state.\<close>

lemma upd_reads [simp]:
  "works (upd_work w f s) = (works s)(w := f (works s w))" "wqs (upd_work w f s) = wqs s" "kern (upd_work w f s) = kern s"
  "sems (upd_work w f s) = sems s" "pending_cancels (upd_work w f s) = pending_cancels s"
  "wqs (upd_wq q g s) = (wqs s)(q := g (wqs s q))" "works (upd_wq q g s) = works s" "kern (upd_wq q g s) = kern s"
  "sems (upd_wq q g s) = sems s" "pending_cancels (upd_wq q g s) = pending_cancels s"
  by (simp_all add: upd_work_def upd_wq_def)

lemma flag_reads [simp]:
  "works (set_work_flag b w s) = (works s)(w := (works s w)\<lparr>wflags := flag_set b (wflags (works s w))\<rparr>)"
  "works (clear_work_flag b w s) = (works s)(w := (works s w)\<lparr>wflags := flag_clear b (wflags (works s w))\<rparr>)"
  "wqs (set_work_flag b w s) = wqs s" "wqs (clear_work_flag b w s) = wqs s" "kern (set_work_flag b w s) = kern s"
  "kern (clear_work_flag b w s) = kern s" "pending_cancels (set_work_flag b w s) = pending_cancels s"
  "pending_cancels (clear_work_flag b w s) = pending_cancels s" "sems (set_work_flag b w s) = sems s" "sems (clear_work_flag b w s) = sems s"
  "wqs (set_queue_flag b q s) = (wqs s)(q := (wqs s q)\<lparr>qflags := flag_set b (qflags (wqs s q))\<rparr>)"
  "wqs (clear_queue_flag b q s) = (wqs s)(q := (wqs s q)\<lparr>qflags := flag_clear b (qflags (wqs s q))\<rparr>)"
  "works (set_queue_flag b q s) = works s" "works (clear_queue_flag b q s) = works s" "kern (set_queue_flag b q s) = kern s"
  "kern (clear_queue_flag b q s) = kern s" "pending_cancels (set_queue_flag b q s) = pending_cancels s"
  "pending_cancels (clear_queue_flag b q s) = pending_cancels s" "sems (set_queue_flag b q s) = sems s" "sems (clear_queue_flag b q s) = sems s"
  by (simp_all add: set_work_flag_def clear_work_flag_def set_queue_flag_def clear_queue_flag_def)

lemma sync_reads [simp]:
  "works (init_sync_sem c s) = works s" "wqs (init_sync_sem c s) = wqs s" "pending_cancels (init_sync_sem c s) = pending_cancels s"
  "works (give_locked c s) = works s" "wqs (give_locked c s) = wqs s" "pending_cancels (give_locked c s) = pending_cancels s"
  "works (snd (notify_queue_locked qo s)) = works s" "wqs (snd (notify_queue_locked qo s)) = wqs s"
  "pending_cancels (snd (notify_queue_locked qo s)) = pending_cancels s" "sems (snd (notify_queue_locked qo s)) = sems s"
  "works (snd (take_forever c s)) = works s" "wqs (snd (take_forever c s)) = wqs s"
  "works (snd (wait_if b r c s)) = works s" "wqs (snd (wait_if b r c s)) = wqs s"
  by (auto simp: init_sync_sem_def give_locked_def notify_queue_locked_def take_forever_def wait_if_def split: prod.split option.split)

section \<open>The operations on the state machine\<close>

lemma notify_core [simp]: "core_of (snd (notify_queue_locked qo s)) = core_of s"
  by (rule core_of_cong) simp_all

lemma submit_core:
  assumes "submit_to_queue_locked w qo s = (ret, qo', s')"
  shows "if ret > 0 then \<exists>q. qo' = Some q \<and> core_of s' = core_enqueue w q (core_of s) \<and> \<not> canceling (core_of s) w \<and> \<not> queued (core_of s) w \<and>
      started (core_of s) q \<and> (running (core_of s) w \<longrightarrow> on (core_of s) w = Some q)
    else core_of s' = core_of s"
proof (cases "ret > 0")
  case False
  then show ?thesis using assms
    by (auto simp: submit_to_queue_locked_def queue_submit_locked_def Let_def split: if_splits option.splits)
next
  case True
  have can: "\<not> canceling (core_of s) w" "\<not> queued (core_of s) w"
    using assms True by (auto simp: submit_to_queue_locked_def errno_defs split: if_splits)
  let ?qb = "if running (core_of s) w then wqueue (works s w) else if qo = None then wqueue (works s w) else qo"
  obtain rc s1 where sub: "queue_submit_locked ?qb w s = (rc, s1)" by fastforce
  have rc: "\<not> rc < 0" "qo' = ?qb" "s' = upd_work w (\<lambda>x. x\<lparr>wqueue := ?qb\<rparr>) (set_work_flag K_WORK_QUEUED_BIT w s1)"
    using assms True can sub by (auto simp: submit_to_queue_locked_def Let_def split: if_splits)
  then obtain q where q: "?qb = Some q" "started (core_of s) q"
    "s1 = snd (notify_queue_locked (Some q) (upd_wq q (\<lambda>x. x\<lparr>pending := pending x @ [w]\<rparr>) s))"
    using sub by (auto simp: queue_submit_locked_def Let_def errno_defs split: option.splits if_splits)
  have s': "s' = upd_work w (\<lambda>x. x\<lparr>wqueue := Some q\<rparr>) (set_work_flag K_WORK_QUEUED_BIT w s1)" using rc(3) unfolding q(1) .
  have "core_of s' = core_enqueue w q (core_of s)"
    by (rule core_eqI) (simp_all add: s' q(3) core_enqueue_def work_bits queue_bits)
  then show ?thesis using True rc(2) q can by auto
qed

lemma remove_core: "core_of (queue_remove_locked (wqueue (works s w)) w s) = core_dequeue w (core_of s)"
  by (rule core_eqI) (auto simp: queue_remove_locked_def flag_test_and_clear_def core_dequeue_def work_bits queue_bits Let_def)

lemma cancel_async_core:
  assumes "cancel_async_locked w s = (r, s')"
  defines "c \<equiv> if canceling (core_of s) w then core_of s else core_dequeue w (core_of s)"
  shows "core_of s' = (if r = 0 then c else core_cancel w c)" "r = 0 \<Longrightarrow> \<not> running c w \<and> \<not> canceling c w"
    "\<not> work_flag K_WORK_DELAYED_BIT w s \<Longrightarrow> \<not> flushing c w \<Longrightarrow> \<not> queued c w \<Longrightarrow> r = 0 \<longleftrightarrow> \<not> running c w \<and> \<not> canceling c w"
    "pending_cancels s' = pending_cancels s"
proof -
  let ?s1 = "if \<not> work_flag K_WORK_CANCELING_BIT w s then queue_remove_locked (wqueue (works s w)) w s else s"
  have s1: "core_of ?s1 = c" by (simp add: c_def remove_core)
  have nz: "work_busy_get_locked w (set_work_flag K_WORK_CANCELING_BIT w ?s1) \<noteq> 0"
    unfolding busy_zero by (simp add: K_WORK_CANCELING_BIT_def) (auto intro!: exI [of _ 1])
  have s': "s' = (if r = 0 then ?s1 else set_work_flag K_WORK_CANCELING_BIT w ?s1)" and r: "r = 0 \<longleftrightarrow> work_busy_get_locked w ?s1 = 0"
    using assms(1) nz unfolding cancel_async_locked_def Let_def by (auto split: if_splits)
  have "core_of (set_work_flag K_WORK_CANCELING_BIT w ?s1) = core_cancel w (core_of ?s1)"
    by (rule core_eqI) (simp_all add: core_cancel_def work_bits)
  then show "core_of s' = (if r = 0 then c else core_cancel w c)" using s' s1 by simp
  have "running c w = work_flag 0 w ?s1" "canceling c w = work_flag 1 w ?s1" "queued c w = work_flag 2 w ?s1"
    "flushing c w = work_flag 4 w ?s1" unfolding s1 [symmetric] by (simp_all add: work_bits)
  moreover have "work_flag 3 w ?s1 = work_flag K_WORK_DELAYED_BIT w s"
    by (simp add: queue_remove_locked_def flag_test_and_clear_def work_bits Let_def)
  ultimately have r0: "r = 0 \<longleftrightarrow> \<not> running c w \<and> \<not> canceling c w \<and> \<not> queued c w \<and> \<not> work_flag K_WORK_DELAYED_BIT w s \<and> \<not> flushing c w"
    using r unfolding busy_zero all_less_5 by blast
  then show "r = 0 \<Longrightarrow> \<not> running c w \<and> \<not> canceling c w"
    "\<not> work_flag K_WORK_DELAYED_BIT w s \<Longrightarrow> \<not> flushing c w \<Longrightarrow> \<not> queued c w \<Longrightarrow> r = 0 \<longleftrightarrow> \<not> running c w \<and> \<not> canceling c w" by blast+
  show "pending_cancels s' = pending_cancels s" using s' by (simp add: queue_remove_locked_def flag_test_and_clear_def Let_def)
qed

lemma unschedule_core:
  "core_of (snd (unschedule_locked w s)) = core_of s" "\<not> work_flag K_WORK_DELAYED_BIT w (snd (unschedule_locked w s))"
  "pending_cancels (snd (unschedule_locked w s)) = pending_cancels s" "dwork_queue (works (snd (unschedule_locked w s)) v) = dwork_queue (works s v)"
proof -
  show "core_of (snd (unschedule_locked w s)) = core_of s"
    by (rule core_eqI) (auto simp: unschedule_locked_def flag_test_and_clear_def Let_def work_bits split: prod.split)
qed (auto simp: unschedule_locked_def flag_test_and_clear_def Let_def work_bits split: prod.split)

lemma flush_core:
  assumes "work_flush_locked w f s = (need, s')" "w \<noteq> f"
  shows "core_of s' = (if need then core_flush w f (the (on (core_of s) w)) (core_of s) else core_of s)"
    "need \<longleftrightarrow> queued (core_of s) w \<or> running (core_of s) w"
proof -
  show n: "need \<longleftrightarrow> queued (core_of s) w \<or> running (core_of s) w" using assms(1) by (auto simp: work_flush_locked_def Let_def)
  show "core_of s' = (if need then core_flush w f (the (on (core_of s) w)) (core_of s) else core_of s)"
  proof (cases need)
    case True
    then have s': "s' = snd (notify_queue_locked (wqueue (works s w)) (queue_flusher_locked (the (wqueue (works s w))) w f s))"
      using assms(1) by (auto simp: work_flush_locked_def Let_def)
    have "core_of s' = core_flush w f (the (on (core_of s) w)) (core_of s)" unfolding s' notify_core
      by (rule core_eqI) (use assms(2) in \<open>auto simp: queue_flusher_locked_def init_flusher_def k_work_init_def core_flush_def work_bits queue_bits Let_def\<close>)
    with True show ?thesis by simp
  next
    case False
    then show ?thesis using assms(1) by (auto simp: work_flush_locked_def Let_def)
  qed
qed

lemma take_core:
  assumes "work_queue_take q s = Some (n, s')"
  shows "case n of Run w \<Rightarrow> (\<exists>ws. pend (core_of s) q = w # ws) \<and> core_of s' = core_take q w (core_of s)
    | Wait \<Rightarrow> pend (core_of s) q = [] \<and> core_of s' = core_of s
    | Stop \<Rightarrow> pend (core_of s) q = [] \<and> core_of s' = (core_of s)\<lparr>started := (started (core_of s))(q := False)\<rparr>"
proof (cases "pending (wqs s q)")
  case (Cons w ws)
  have "core_of s' = core_take q w (core_of s)" "n = Run w"
    using assms Cons by (auto intro!: core_eqI simp: work_queue_take_def core_take_def work_bits queue_bits split: if_splits)
  with Cons show ?thesis by simp
next
  case Nil
  show ?thesis
  proof (cases n)
    case Wait
    have "core_of s' = core_of s"
      by (rule core_eqI) (use assms Nil Wait in \<open>auto simp: work_queue_take_def queue_bits split: if_splits\<close>)
    with Nil Wait show ?thesis by simp
  next
    case Stop
    have "core_of s' = (core_of s)\<lparr>started := (started (core_of s))(q := False)\<rparr>"
      by (rule core_eqI) (use assms Nil Stop in \<open>auto simp: work_queue_take_def queue_bits split: if_splits\<close>)
    with Nil Stop show ?thesis by simp
  next
    case (Run w)
    then show ?thesis using assms Nil by (auto simp: work_queue_take_def split: if_splits)
  qed
qed

lemma done_core: "core_of (work_queue_done q w s) = core_done w (core_of s)"
proof -
  let ?s1 = "clear_work_flag K_WORK_RUNNING_BIT w s"
  let ?s2 = "if work_flag K_WORK_FLUSHING_BIT w ?s1 then finalize_flush_locked w ?s1 else ?s1"
  let ?s3 = "if work_flag K_WORK_CANCELING_BIT w ?s2 then finalize_cancel_locked w ?s2 else ?s2"
  have f: "works (finalize_flush_locked w t) = works (clear_work_flag K_WORK_FLUSHING_BIT w t)" "wqs (finalize_flush_locked w t) = wqs t"
    "works (finalize_cancel_locked w t) = works (clear_work_flag K_WORK_CANCELING_BIT w t)" "wqs (finalize_cancel_locked w t) = wqs t" for t
    by (simp_all add: finalize_flush_locked_def finalize_cancel_locked_def Let_def split: prod.split option.split)
  have "core_of (work_queue_done q w s) = core_of (clear_queue_flag K_WORK_QUEUE_BUSY_BIT q ?s3)"
    by (rule core_of_cong) (simp_all add: work_queue_done_def Let_def)
  also have "\<dots> = core_done w (core_of s)"
    by (rule core_eqI) (auto simp: core_done_def work_bits queue_bits f)
  finally show ?thesis .
qed

end
