(* ===== verification/Work_System.thy ===== *)
theory Work_System
  imports Work
begin

text \<open>
  The invariant of work items and work queues (theory \<open>Work\<close>) under any interleaving of calls, timeouts and turns of
  the queue threads, and the properties of submitting, flushing, cancelling and running that follow.
\<close>

section \<open>Invariant of the state machine\<close>

text \<open>\<open>pc q\<close> is the item whose handler the thread of queue \<open>q\<close> is running; \<open>F\<close> are the numbers of the synchronisation
  objects, which appear in the lists as flusher items.\<close>

definition pend_ok :: "nat set \<Rightarrow> work_core \<Rightarrow> bool" where
  "pend_ok F c \<longleftrightarrow> (\<forall>q. distinct (pend c q)) \<and> (\<forall>q w. w \<in> set (pend c q) \<and> w \<notin> F \<longrightarrow> queued c w \<and> on c w = Some q) \<and>
     (\<forall>w. w \<notin> F \<and> queued c w \<longrightarrow> on c w \<noteq> None \<and> w \<in> set (pend c (the (on c w))))"

definition run_ok :: "nat set \<Rightarrow> (nat \<Rightarrow> nat option) \<Rightarrow> work_core \<Rightarrow> bool" where
  "run_ok F pc c \<longleftrightarrow> (\<forall>q w. pc q = Some w \<longrightarrow> running c w \<and> (w \<notin> F \<longrightarrow> on c w = Some q)) \<and>
     (\<forall>w. w \<notin> F \<and> running c w \<longrightarrow> on c w \<noteq> None \<and> pc (the (on c w)) = Some w) \<and> (\<forall>w. w \<notin> F \<and> canceling c w \<longrightarrow> running c w \<and> \<not> queued c w) \<and>
     (\<forall>w. w \<notin> F \<longrightarrow> \<not> flushing c w)"

definition flusher_ok :: "(nat \<Rightarrow> nat option) \<Rightarrow> work_core \<Rightarrow> nat \<Rightarrow> bool" where
  "flusher_ok pc c f \<longleftrightarrow> \<not> queued c f \<and> \<not> canceling c f \<and>
     (\<forall>q. f \<in> set (pend c q) \<or> pc q = Some f \<longrightarrow> flushing c f) \<and>
     (\<forall>q q'. q \<noteq> q' \<longrightarrow> \<not> (f \<in> set (pend c q) \<and> f \<in> set (pend c q')) \<and> \<not> (pc q = Some f \<and> pc q' = Some f)) \<and>
     (\<forall>q q'. pc q = Some f \<longrightarrow> f \<notin> set (pend c q'))"

definition flush_ok :: "nat set \<Rightarrow> (nat \<Rightarrow> nat option) \<Rightarrow> work_core \<Rightarrow> bool" where
  "flush_ok F pc c \<longleftrightarrow> (\<forall>f \<in> F. flusher_ok pc c f)"

definition start_ok :: "(nat \<Rightarrow> nat option) \<Rightarrow> work_core \<Rightarrow> bool" where
  "start_ok pc c \<longleftrightarrow> (\<forall>q. pend c q \<noteq> [] \<or> pc q \<noteq> None \<longrightarrow> started c q)"

definition core_inv :: "nat set \<Rightarrow> (nat \<Rightarrow> nat option) \<Rightarrow> work_core \<Rightarrow> bool" where
  "core_inv F pc c \<longleftrightarrow> pend_ok F c \<and> run_ok F pc c \<and> flush_ok F pc c \<and> start_ok pc c"

lemmas core_parts = pend_ok_def run_ok_def flush_ok_def flusher_ok_def start_ok_def

lemma enqueue_inv:
  assumes "core_inv F pc c" "w \<notin> F" "\<not> queued c w" "started c q" "running c w \<longrightarrow> on c w = Some q" "\<not> canceling c w"
  shows "core_inv F pc (core_enqueue w q c)"
proof -
  have i: "pend_ok F c" "run_ok F pc c" "flush_ok F pc c" "start_ok pc c" using assms(1) by (simp_all add: core_inv_def)
  have out: "w \<notin> set (pend c q')" for q' using i(1) assms(2,3) by (auto simp: pend_ok_def)
  have "pend_ok F (core_enqueue w q c)" using i(1) assms out by (auto simp: pend_ok_def core_enqueue_def)
  moreover have "run_ok F pc (core_enqueue w q c)" using i(2) assms by (auto simp: run_ok_def core_enqueue_def)
  moreover have "flush_ok F pc (core_enqueue w q c)" using i(3) assms(2) by (auto simp: flush_ok_def flusher_ok_def core_enqueue_def)
  moreover have "start_ok pc (core_enqueue w q c)" using i(4) assms(4) by (auto simp: start_ok_def core_enqueue_def)
  ultimately show ?thesis by (simp add: core_inv_def)
qed

lemma dequeue_inv:
  assumes "core_inv F pc c" "w \<notin> F"
  shows "core_inv F pc (core_dequeue w c)"
proof (cases "queued c w")
  case True
  have i: "pend_ok F c" "run_ok F pc c" "flush_ok F pc c" "start_ok pc c" using assms(1) by (simp_all add: core_inv_def)
  obtain q where q: "on c w = Some q" "w \<in> set (pend c q)" using i(1) True assms(2) by (auto simp: pend_ok_def)
  have d: "core_dequeue w c = c\<lparr>queued := (queued c)(w := False), pend := (pend c)(q := remove1 w (pend c q))\<rparr>"
    using True q(1) by (simp add: core_dequeue_def)
  have s: "set (remove1 w (pend c q)) = set (pend c q) - {w}" using i(1) by (simp add: pend_ok_def)
  have one: "w \<notin> set (pend c q')" if "q' \<noteq> q" for q' using i(1) that assms(2) q(1) unfolding pend_ok_def by (metis option.inject)
  have "pend_ok F (core_dequeue w c)" using i(1) s q one by (auto simp: pend_ok_def d)
  moreover have "run_ok F pc (core_dequeue w c)" using i(2) by (auto simp: run_ok_def d)
  moreover have "flush_ok F pc (core_dequeue w c)" using i(3) s by (auto simp: flush_ok_def flusher_ok_def d)
  moreover have "start_ok pc (core_dequeue w c)" using i(4) by (auto simp: start_ok_def d)
  ultimately show ?thesis by (simp add: core_inv_def)
qed (simp add: core_dequeue_def assms)

lemma cancel_inv:
  assumes "core_inv F pc c" "w \<notin> F" "running c w" "\<not> queued c w"
  shows "core_inv F pc (core_cancel w c)"
  using assms by (auto simp: core_inv_def core_parts core_cancel_def)

lemma insert_behind_set [simp]: "set (insert_behind p x xs) = insert x (set xs)"
  by (induction xs) auto

lemma insert_behind_distinct [simp]: "distinct (insert_behind p x xs) \<longleftrightarrow> distinct xs \<and> x \<notin> set xs"
  by (induction xs) auto

lemma flush_inv:
  assumes "core_inv F pc c" "f \<in> F" "\<And>q'. f \<notin> set (pend c q')" "\<And>q'. pc q' \<noteq> Some f" "started c q"
  shows "core_inv F pc (core_flush w f q c)"
proof -
  have i: "pend_ok F c" "run_ok F pc c" "flush_ok F pc c" "start_ok pc c" using assms(1) by (simp_all add: core_inv_def)
  have "pend_ok F (core_flush w f q c)" using i(1) assms(2,3) by (auto simp: pend_ok_def core_flush_def)
  moreover have "run_ok F pc (core_flush w f q c)" using i(2) assms(2,4) by (auto simp: run_ok_def core_flush_def)
  moreover have "flush_ok F pc (core_flush w f q c)" using i(3) assms(2,3,4) by (auto simp: flush_ok_def flusher_ok_def core_flush_def)
  moreover have "start_ok pc (core_flush w f q c)" using i(4) assms(5) by (auto simp: start_ok_def core_flush_def)
  ultimately show ?thesis by (simp add: core_inv_def)
qed

lemma take_inv:
  assumes "core_inv F pc c" "pc q = None" "pend c q = w # ws"
  shows "core_inv F (pc(q := Some w)) (core_take q w c)"
proof -
  have i: "pend_ok F c" "run_ok F pc c" "flush_ok F pc c" "start_ok pc c" using assms(1) by (simp_all add: core_inv_def)
  have w: "w \<notin> set ws" "w \<in> set (pend c q)" "distinct ws" using i(1) assms(3) by (metis distinct.simps(2) pend_ok_def, simp, metis distinct.simps(2) pend_ok_def)
  have ws: "queued c x \<and> on c x = Some q" if "x \<in> set (w # ws)" "x \<notin> F" for x using i(1) that unfolding pend_ok_def assms(3) [symmetric] by blast
  have one: "w \<notin> set (pend c q')" if "q' \<noteq> q" "w \<notin> F" for q' using i(1) ws [of w] that unfolding pend_ok_def by fastforce
  have "pend_ok F (core_take q w c)" using i(1) assms(3) w ws one by (auto simp: pend_ok_def core_take_def)
  moreover have "run_ok F (pc(q := Some w)) (core_take q w c)" using i(2) assms(2) ws [of w] by (auto simp: run_ok_def core_take_def)
  moreover have "flusher_ok (pc(q := Some w)) (core_take q w c) f" if f: "f \<in> F" for f
  proof -
    have h: "flusher_ok pc c f" using i(3) f by (simp add: flush_ok_def)
    have fl: "flushing c f \<and> (\<forall>q'. (q' \<noteq> q \<longrightarrow> f \<notin> set (pend c q')) \<and> pc q' \<noteq> Some f)" if "f \<in> set (w # ws)"
      using h that unfolding flusher_ok_def assms(3) [symmetric] by blast
    consider "f = w" | "f \<noteq> w" "f \<in> set ws" | "f \<noteq> w" "f \<notin> set ws" by blast
    then show ?thesis
    proof cases
      case 3
      then show ?thesis using h assms(3) by (auto simp: flusher_ok_def core_take_def)
    qed (use fl w(1) assms(3) h [unfolded flusher_ok_def, THEN conjunct1] h [unfolded flusher_ok_def, THEN conjunct2, THEN conjunct1]
      in \<open>simp_all add: flusher_ok_def core_take_def\<close>)
  qed
  ultimately have "pend_ok F (core_take q w c)" "run_ok F (pc(q := Some w)) (core_take q w c)" "flush_ok F (pc(q := Some w)) (core_take q w c)"
    by (simp_all add: flush_ok_def)
  moreover have "start_ok (pc(q := Some w)) (core_take q w c)" using i(4) assms(3) by (auto simp: start_ok_def core_take_def)
  ultimately show ?thesis by (simp add: core_inv_def)
qed

lemma running_unique:
  assumes "core_inv F pc c" "pc q = Some w" "pc q' = Some w"
  shows "q' = q"
proof (cases "w \<in> F")
  case True
  then show ?thesis using assms by (auto simp: core_inv_def flush_ok_def flusher_ok_def)
next
  case False
  then have "on c w = Some q" "on c w = Some q'" using assms unfolding core_inv_def run_ok_def by blast+
  then show ?thesis by simp
qed

lemma done_inv:
  assumes "core_inv F pc c" "pc q = Some w"
  shows "core_inv F (pc(q := None)) (core_done w c)"
proof -
  have i: "pend_ok F c" "run_ok F pc c" "flush_ok F pc c" "start_ok pc c" using assms(1) by (simp_all add: core_inv_def)
  have one: "pc q' \<noteq> Some w" if "q' \<noteq> q" for q' using running_unique [OF assms] that by blast
  have fl: "w \<in> F \<Longrightarrow> w \<notin> set (pend c q')" for q' using i(3) assms(2) by (auto simp: flush_ok_def flusher_ok_def)
  have "pend_ok F (core_done w c)" using i(1) by (auto simp: pend_ok_def core_done_def)
  moreover have "run_ok F (pc(q := None)) (core_done w c)" using i(2) assms(2) one by (auto simp: run_ok_def core_done_def)
  moreover have "flusher_ok (pc(q := None)) (core_done w c) f" if f: "f \<in> F" for f
  proof (cases "f = w")
    case True
    then show ?thesis using i(3) f one fl by (simp add: flush_ok_def flusher_ok_def core_done_def)
  next
    case False
    then show ?thesis using i(3) f by (auto simp: flush_ok_def flusher_ok_def core_done_def)
  qed
  then have "flush_ok F (pc(q := None)) (core_done w c)" by (simp add: flush_ok_def)
  moreover have "start_ok (pc(q := None)) (core_done w c)" using i(4) by (auto simp: start_ok_def core_done_def)
  ultimately show ?thesis by (simp add: core_inv_def)
qed

lemma parts_frame [simp]:
  "pend_ok F (c\<lparr>started := st\<rparr>) = pend_ok F c" "run_ok F pc (c\<lparr>started := st\<rparr>) = run_ok F pc c"
  "flush_ok F pc (c\<lparr>started := st\<rparr>) = flush_ok F pc c" "flush_ok F pc (c\<lparr>on := o'\<rparr>) = flush_ok F pc c"
  "start_ok pc (c\<lparr>on := o'\<rparr>) = start_ok pc c"
  by (simp_all add: core_parts)

lemma started_inv:
  assumes "core_inv F pc c" "pc q = None" "pend c q = []"
  shows "core_inv F pc (c\<lparr>started := (started c)(q := b)\<rparr>)"
proof -
  have "start_ok pc (c\<lparr>started := (started c)(q := b)\<rparr>)" using assms by (auto simp: core_inv_def start_ok_def)
  then show ?thesis using assms(1) by (simp add: core_inv_def)
qed

lemma forget_inv:
  assumes "core_inv F pc c" "w \<notin> F" "\<not> running c w" "\<not> queued c w"
  shows "core_inv F pc (c\<lparr>on := (on c)(w := None)\<rparr>)"
proof -
  have i: "pend_ok F c" "run_ok F pc c" "flush_ok F pc c" "start_ok pc c" using assms(1) by (simp_all add: core_inv_def)
  have "w \<notin> set (pend c q)" "pc q \<noteq> Some w" for q using i(1,2) assms(2-4) unfolding pend_ok_def run_ok_def by blast+
  then have "pend_ok F (c\<lparr>on := (on c)(w := None)\<rparr>)" "run_ok F pc (c\<lparr>on := (on c)(w := None)\<rparr>)"
    using i(1,2) assms(3,4) by (auto simp: pend_ok_def run_ok_def)
  then show ?thesis using i(3,4) by (simp add: core_inv_def)
qed

section \<open>Interleavings\<close>

text \<open>One locked region, in any thread or interrupt, or one turn of a queue thread. An item is initialised only while it is idle, a queue is started only
  while it is not started, and a synchronisation object is not used again while it is in a queue or its
  flush runs, as the documentation requires. Between the steps the rest of the system may do anything to the kernel
  and to the semaphores.\<close>

inductive work_step :: "nat set \<Rightarrow> work_state \<times> (nat \<Rightarrow> nat option) \<Rightarrow> work_state \<times> (nat \<Rightarrow> nat option) \<Rightarrow> bool" for F where
  init: "w \<notin> F \<Longrightarrow> work_busy_get_locked w s = 0 \<Longrightarrow> work_step F (s, pc) (k_work_init w s, pc)"
| init_delayable: "w \<notin> F \<Longrightarrow> work_busy_get_locked w s = 0 \<Longrightarrow> work_step F (s, pc) (k_work_init_delayable w s, pc)"
| submit: "w \<notin> F \<Longrightarrow> work_step F (s, pc) (snd (k_work_submit_to_queue qo w s), pc)"
| cancel: "w \<notin> F \<Longrightarrow> \<not> work_flag K_WORK_DELAYABLE_BIT w s \<Longrightarrow> work_step F (s, pc) (snd (k_work_cancel w s), pc)"
| cancel_sync: "w \<notin> F \<Longrightarrow> \<not> work_flag K_WORK_DELAYABLE_BIT w s \<Longrightarrow> work_step F (s, pc) (snd (k_work_cancel_sync w c s), pc)"
| flush: "w \<notin> F \<Longrightarrow> f \<in> F \<Longrightarrow> (\<And>q. f \<notin> set (pending (wqs s q)) \<and> pc q \<noteq> Some f) \<Longrightarrow> work_step F (s, pc) (snd (k_work_flush w f s), pc)"
| schedule: "w \<notin> F \<Longrightarrow> work_flag K_WORK_DELAYABLE_BIT w s \<Longrightarrow> work_step F (s, pc) (snd (k_work_schedule_for_queue qo w d s), pc)"
| reschedule: "w \<notin> F \<Longrightarrow> work_flag K_WORK_DELAYABLE_BIT w s \<Longrightarrow> work_step F (s, pc) (snd (k_work_reschedule_for_queue qo w d s), pc)"
| cancel_delayable: "w \<notin> F \<Longrightarrow> work_step F (s, pc) (snd (k_work_cancel_delayable w s), pc)"
| cancel_delayable_sync: "w \<notin> F \<Longrightarrow> work_step F (s, pc) (snd (k_work_cancel_delayable_sync w c s), pc)"
| flush_delayable: "w \<notin> F \<Longrightarrow> f \<in> F \<Longrightarrow> (\<And>q. f \<notin> set (pending (wqs s q)) \<and> pc q \<noteq> Some f) \<Longrightarrow>
    work_step F (s, pc) (snd (k_work_flush_delayable w f s), pc)"
| timeout: "w \<notin> F \<Longrightarrow> work_step F (s, pc) (work_timeout w s, pc)"
| queue_init: "\<not> queue_flag K_WORK_QUEUE_STARTED_BIT q s \<Longrightarrow> work_step F (s, pc) (k_work_queue_init q s, pc)"
| queue_start: "\<not> queue_flag K_WORK_QUEUE_STARTED_BIT q s \<Longrightarrow> work_step F (s, pc) (k_work_queue_start q pri ny es s, pc)"
| drain: "work_step F (s, pc) (snd (k_work_queue_drain q plug s), pc)"
| unplug: "work_step F (s, pc) (snd (k_work_queue_unplug q s), pc)"
| stop: "work_step F (s, pc) (snd (k_work_queue_stop q n s), pc)"
| stop_resume: "work_step F (s, pc) (snd (k_work_queue_stop_resume q s), pc)"
| take: "pc q = None \<Longrightarrow> work_queue_take q s = Some (Run w, s') \<Longrightarrow> work_step F (s, pc) (s', pc(q := Some w))"
| idle: "pc q = None \<Longrightarrow> work_queue_take q s = Some (n, s') \<Longrightarrow> n = Wait \<or> n = Stop \<Longrightarrow> work_step F (s, pc) (s', pc)"
| handled: "pc q = Some w \<Longrightarrow> work_step F (s, pc) (work_queue_done q w s, pc(q := None))"
| env: "work_step F (s, pc) (s\<lparr>kern := k, sems := sm\<rparr>, pc)"

text \<open>All items and queues as they are before their first use.\<close>

definition boot_work :: "(nat \<Rightarrow> tid) \<Rightarrow> (nat \<Rightarrow> nat) \<Rightarrow> (nat \<Rightarrow> nat) \<Rightarrow> (nat \<Rightarrow> k_sem) \<Rightarrow> kernel \<Rightarrow> work_state" where
  "boot_work th nq dq sm k =
     \<lparr>works = (\<lambda>_. \<lparr>wflags = 0, wqueue = None, dwork_queue = None\<rparr>),
      wqs = (\<lambda>q. \<lparr>pending = [], qflags = 0, q_thread = th q, notifyq = nq q, drainq = dq q\<rparr>),
      pending_cancels = [], sems = sm, kern = k\<rparr>"

text \<open>Only a delayable item is delayed.\<close>

definition work_inv :: "nat set \<Rightarrow> (nat \<Rightarrow> nat option) \<Rightarrow> work_state \<Rightarrow> bool" where
  "work_inv F pc s \<longleftrightarrow> core_inv F pc (core_of s) \<and>
     (\<forall>w. w \<notin> F \<and> work_flag K_WORK_DELAYED_BIT w s \<longrightarrow> work_flag K_WORK_DELAYABLE_BIT w s)"

text \<open>The flags of delayable items that an operation keeps.\<close>

definition keeps_delay :: "nat set \<Rightarrow> work_state \<Rightarrow> work_state \<Rightarrow> bool" where
  "keeps_delay F s s' \<longleftrightarrow> (\<forall>w. w \<notin> F \<longrightarrow> (work_flag K_WORK_DELAYED_BIT w s' \<longrightarrow> work_flag K_WORK_DELAYED_BIT w s) \<and>
     work_flag K_WORK_DELAYABLE_BIT w s' = work_flag K_WORK_DELAYABLE_BIT w s)"

lemma work_invI: "work_inv F pc s \<Longrightarrow> keeps_delay F s s' \<Longrightarrow> core_inv F pc' (core_of s') \<Longrightarrow> work_inv F pc' s'"
  by (auto simp: work_inv_def keeps_delay_def)

lemma work_inv_same: "work_inv F pc s \<Longrightarrow> works s' = works s \<Longrightarrow> core_of s' = core_of s \<Longrightarrow> work_inv F pc s'"
  by (simp add: work_inv_def)

lemma submit_work_inv:
  assumes "work_inv F pc s" "w \<notin> F"
  shows "work_inv F pc (snd (snd (submit_to_queue_locked w qo s)))"
proof -
  obtain ret qo' s' where sub: "submit_to_queue_locked w qo s = (ret, qo', s')" by (cases "submit_to_queue_locked w qo s")
  have "keeps_delay F s s'" using sub
    by (auto simp: keeps_delay_def submit_to_queue_locked_def queue_submit_locked_def Let_def work_bits split: if_splits option.splits)
  moreover have "core_inv F pc (core_of s')"
    using submit_core [OF sub] enqueue_inv [of F pc "core_of s" w] assms by (auto simp: work_inv_def split: if_splits)
  ultimately show ?thesis using assms(1) sub by (auto intro: work_invI)
qed

lemma cancel_work_inv:
  assumes "work_inv F pc s" "w \<notin> F" "\<not> work_flag K_WORK_DELAYED_BIT w s"
  shows "work_inv F pc (snd (cancel_async_locked w s))"
proof -
  obtain r s' where can: "cancel_async_locked w s = (r, s')" by fastforce
  define c where "c = (if canceling (core_of s) w then core_of s else core_dequeue w (core_of s))"
  note post = cancel_async_core(1-3) [OF can, folded c_def]
  have i: "core_inv F pc (core_of s)" using assms(1) by (simp add: work_inv_def)
  have inv: "core_inv F pc c" using i dequeue_inv [OF i assms(2)] by (simp add: c_def)
  have nq: "\<not> queued c w" using i assms(2) by (auto simp: c_def core_inv_def run_ok_def core_dequeue_def)
  have "\<not> flushing c w" "canceling c w \<Longrightarrow> running c w" using inv assms(2) unfolding core_inv_def run_ok_def by blast+
  then have "r \<noteq> 0 \<Longrightarrow> running c w" using post(3) assms(3) nq by blast
  then have "core_inv F pc (core_of s')" using post(1) inv cancel_inv [OF inv assms(2) _ nq] by simp
  moreover have "keeps_delay F s s'" using can
    by (auto simp: keeps_delay_def cancel_async_locked_def queue_remove_locked_def flag_test_and_clear_def Let_def work_bits split: if_splits)
  ultimately show ?thesis using assms(1) can by (auto intro: work_invI)
qed

lemma unschedule_work_inv:
  assumes "work_inv F pc s"
  shows "work_inv F pc (snd (unschedule_locked w s))"
proof (rule work_invI [OF assms])
  show "keeps_delay F s (snd (unschedule_locked w s))"
    by (auto simp: keeps_delay_def unschedule_locked_def flag_test_and_clear_def Let_def work_bits split: prod.split)
qed (use assms in \<open>simp add: unschedule_core work_inv_def\<close>)

lemma schedule_work_inv:
  assumes "work_inv F pc s" "w \<notin> F" "work_flag K_WORK_DELAYABLE_BIT w s"
  shows "work_inv F pc (snd (schedule_for_queue_locked qo w d s))"
proof (cases "d = K_NO_WAIT")
  case True
  then show ?thesis using submit_work_inv [OF assms(1,2), of qo] by (auto simp: schedule_for_queue_locked_def split: prod.split)
next
  case False
  let ?s = "snd (schedule_for_queue_locked qo w d s)"
  have "core_of ?s = core_of s" by (rule core_eqI) (use False in \<open>simp_all add: schedule_for_queue_locked_def work_bits\<close>)
  then show ?thesis using False assms by (auto simp: work_inv_def schedule_for_queue_locked_def work_bits)
qed

lemma flush_work_inv:
  assumes "work_inv F pc s" "w \<notin> F" "f \<in> F" "\<And>q. f \<notin> set (pending (wqs s q)) \<and> pc q \<noteq> Some f"
  shows "work_inv F pc (snd (work_flush_locked w f s))"
proof -
  obtain need s' where fl: "work_flush_locked w f s = (need, s')" by fastforce
  have wf: "w \<noteq> f" using assms(2,3) by blast
  have i: "core_inv F pc (core_of s)" using assms(1) by (simp add: work_inv_def)
  have "started (core_of s) (the (on (core_of s) w))" if need
  proof -
    have "pend (core_of s) (the (on (core_of s) w)) \<noteq> [] \<or> pc (the (on (core_of s) w)) \<noteq> None"
      using flush_core(2) [OF fl wf] that i assms(2) unfolding core_inv_def pend_ok_def run_ok_def by fastforce
    then show ?thesis using i unfolding core_inv_def start_ok_def by blast
  qed
  then have "core_inv F pc (core_of s')" using flush_core [OF fl wf] flush_inv [OF i assms(3)] i assms(4) by simp
  moreover have "keeps_delay F s s'" using fl assms(3)
    by (auto simp: keeps_delay_def work_flush_locked_def queue_flusher_locked_def init_flusher_def k_work_init_def Let_def split: if_splits)
  ultimately show ?thesis using assms(1) fl by (auto intro: work_invI)
qed

lemma wait_if_inv: "work_inv F pc s \<Longrightarrow> work_inv F pc (snd (wait_if need r c s))"
  by (rule work_inv_same, assumption) (auto intro: core_of_cong)

lemma kern_inv [simp]: "work_inv F pc (s\<lparr>kern := k\<rparr>) \<longleftrightarrow> work_inv F pc s" "work_inv F pc (s\<lparr>sems := m\<rparr>) \<longleftrightarrow> work_inv F pc s"
  by (simp_all add: work_inv_def)

lemma cancel_sync_inv: "work_inv F pc s \<Longrightarrow> work_inv F pc (snd (cancel_sync_locked w c s))"
  by (rule work_inv_same, assumption) (auto simp: cancel_sync_locked_def init_work_cancel_def intro: core_of_cong)

lemma unschedule_reads:
  "wqs (snd (unschedule_locked w s)) = wqs s"
  "work_flag K_WORK_DELAYABLE_BIT v (snd (unschedule_locked w s)) = work_flag K_WORK_DELAYABLE_BIT v s"
  by (auto simp: unschedule_locked_def flag_test_and_clear_def Let_def work_bits split: prod.split)

lemma take_work_inv:
  assumes "work_inv F pc s" "pc q = None" "work_queue_take q s = Some (n, s')"
  shows "case n of Run w \<Rightarrow> work_inv F (pc(q := Some w)) s' | _ \<Rightarrow> work_inv F pc s'"
proof -
  have i: "core_inv F pc (core_of s)" using assms(1) by (simp add: work_inv_def)
  have k: "keeps_delay F s s'" using assms(3)
    by (auto simp: keeps_delay_def work_queue_take_def work_bits split: list.splits if_splits)
  show ?thesis
  proof (cases n)
    case (Run w)
    then obtain ws where "pend (core_of s) q = w # ws" "core_of s' = core_take q w (core_of s)" using take_core [OF assms(3)] by auto
    then show ?thesis using take_inv [OF i assms(2)] k assms(1) Run by (auto intro: work_invI)
  next
    case Wait
    then show ?thesis using take_core [OF assms(3)] i k assms(1) by (auto intro: work_invI)
  next
    case Stop
    have "core_of s' = (core_of s)\<lparr>started := (started (core_of s))(q := False)\<rparr>" "pend (core_of s) q = []"
      using take_core [OF assms(3)] Stop by simp_all
    moreover have "core_inv F pc ((core_of s)\<lparr>started := (started (core_of s))(q := False)\<rparr>)"
      using started_inv [OF i assms(2)] calculation(2) by blast
    ultimately show ?thesis using k assms(1) Stop by (auto intro: work_invI)
  qed
qed

lemma done_work_inv:
  assumes "work_inv F pc s" "pc q = Some w"
  shows "work_inv F (pc(q := None)) (work_queue_done q w s)"
proof (rule work_invI [OF assms(1)])
  show "keeps_delay F s (work_queue_done q w s)"
    by (auto simp: keeps_delay_def work_queue_done_def finalize_flush_locked_def finalize_cancel_locked_def Let_def work_bits
        split: prod.split option.split)
  show "core_inv F (pc(q := None)) (core_of (work_queue_done q w s))"
    using done_inv [of F pc "core_of s" q w] assms by (simp add: done_core work_inv_def)
qed

lemma init_inv:
  assumes "work_inv F pc s" "w \<notin> F" "work_busy_get_locked w s = 0" "fl = 0 \<or> fl = push_bit K_WORK_DELAYABLE_BIT 1"
  shows "work_inv F pc (upd_work w (\<lambda>x. \<lparr>wflags = fl, wqueue = None, dwork_queue = dq x\<rparr>) s)" (is "work_inv F pc ?s")
proof -
  have "\<not> flag_test b (push_bit K_WORK_DELAYABLE_BIT 1)" if "b < 5" for b
    using that unfolding flag_test_bit bit_push_bit_iff bit_1_iff by (simp add: K_WORK_DELAYABLE_BIT_def)
  then have fl: "\<not> flag_test b fl" if "b < 5" for b using that assms(4) by auto
  have idle: "\<not> running (core_of s) w" "\<not> canceling (core_of s) w" "\<not> queued (core_of s) w" "\<not> flushing (core_of s) w"
    using assms(3) by (simp_all add: busy_zero work_bits)
  have c: "core_of ?s = (core_of s)\<lparr>on := (on (core_of s))(w := None)\<rparr>"
    by (rule core_eqI) (use fl idle in \<open>auto simp: work_bits\<close>)
  have i: "core_inv F pc (core_of s)" using assms(1) by (simp add: work_inv_def)
  then have "core_inv F pc (core_of ?s)" unfolding c using forget_inv idle assms(2) by blast
  then show ?thesis using assms(1) fl by (auto simp: work_inv_def work_bits)
qed

lemma submit_keeps_out: "f \<noteq> w \<Longrightarrow> f \<notin> set (pending (wqs s q)) \<Longrightarrow> f \<notin> set (pending (wqs (snd (snd (submit_to_queue_locked w qo s))) q))"
  by (auto simp: submit_to_queue_locked_def queue_submit_locked_def Let_def split: option.split)

lemma idle_queue:
  "work_inv F pc s \<Longrightarrow> \<not> queue_flag K_WORK_QUEUE_STARTED_BIT q s \<Longrightarrow> pending (wqs s q) = [] \<and> pc q = None"
  by (auto simp: work_inv_def core_inv_def start_ok_def)

lemma flush_delayable_inv:
  assumes "work_inv F pc s" "w \<notin> F" "f \<in> F" "\<And>q. f \<notin> set (pending (wqs s q)) \<and> pc q \<noteq> Some f"
  shows "work_inv F pc (snd (k_work_flush_delayable w f s))"
proof -
  define s1 where "s1 = snd (unschedule_locked w s)"
  define s2 where "s2 = (if fst (unschedule_locked w s) then snd (snd (submit_to_queue_locked w (dwork_queue (works s1 w)) s1)) else s1)"
  have i1: "work_inv F pc s1" unfolding s1_def using assms(1) by (rule unschedule_work_inv)
  then have i2: "work_inv F pc s2" using submit_work_inv assms(2) by (auto simp: s2_def)
  have "f \<noteq> w" using assms(2,3) by blast
  moreover have "f \<notin> set (pending (wqs s1 q))" for q using assms(4) [of q] by (simp add: s1_def unschedule_reads)
  ultimately have "f \<notin> set (pending (wqs s2 q)) \<and> pc q \<noteq> Some f" for q
    using assms(4) [of q] submit_keeps_out [of f w s1 q] by (simp add: s2_def)
  then have "work_inv F pc (snd (work_flush_locked w f s2))" using flush_work_inv [OF i2 assms(2,3)] by blast
  then show ?thesis using assms(1)
    by (auto simp: k_work_flush_delayable_def s2_def s1_def Let_def intro: wait_if_inv split: prod.splits if_splits)
qed

lemma timeout_work_inv:
  assumes "work_inv F pc s" "w \<notin> F"
  shows "work_inv F pc (work_timeout w s)"
proof -
  let ?s = "upd_work w (\<lambda>x. x\<lparr>wflags := flag_clear K_WORK_DELAYED_BIT (wflags (works s w))\<rparr>) s"
  have "core_of ?s = core_of s" by (rule core_eqI) (simp_all add: work_bits)
  then have "work_inv F pc ?s" using assms(1) by (auto simp: work_inv_def work_bits)
  then show ?thesis using submit_work_inv [of F pc ?s w] assms(2) by (auto simp: work_timeout_def flag_test_and_clear_def Let_def)
qed

lemma queue_ops_inv:
  assumes "work_inv F pc s" "\<not> queue_flag K_WORK_QUEUE_STARTED_BIT q s"
  shows "work_inv F pc (k_work_queue_init q s)" "work_inv F pc (k_work_queue_start q pri ny es s)"
proof -
  have idle: "pending (wqs s q) = []" "pc q = None" using idle_queue [OF assms] by simp_all
  have "core_of (k_work_queue_init q s) = core_of s"
    by (rule core_eqI) (use idle assms(2) in \<open>simp_all add: k_work_queue_init_def\<close>)
  then show "work_inv F pc (k_work_queue_init q s)" using assms(1) by (auto simp: k_work_queue_init_def intro: work_inv_same)
  have "core_of (k_work_queue_start q pri ny es s) = (core_of s)\<lparr>started := (started (core_of s))(q := True)\<rparr>"
    by (rule core_eqI) (use idle in \<open>auto simp: k_work_queue_start_def Let_def flag_test_bit flag_set_def bit_simps queue_bits\<close>)
  moreover have "works (k_work_queue_start q pri ny es s) = works s" by (simp add: k_work_queue_start_def Let_def)
  ultimately show "work_inv F pc (k_work_queue_start q pri ny es s)"
    using assms(1) started_inv [of F pc "core_of s" q True] idle by (simp add: work_inv_def)
qed

lemma queue_flags_inv:
  assumes "work_inv F pc s"
  shows "work_inv F pc (snd (k_work_queue_drain q plug s))" "work_inv F pc (snd (k_work_queue_unplug q s))"
    "work_inv F pc (snd (k_work_queue_stop q n s))" "work_inv F pc (snd (k_work_queue_stop_resume q s))"
proof -
  have "core_of (snd (k_work_queue_drain q plug s)) = core_of s" "core_of (snd (k_work_queue_unplug q s)) = core_of s"
    "core_of (snd (k_work_queue_stop q n s)) = core_of s" "core_of (snd (k_work_queue_stop_resume q s)) = core_of s"
    by (rule core_eqI; auto simp: k_work_queue_drain_def k_work_queue_unplug_def k_work_queue_stop_def k_work_queue_stop_resume_def
        flag_test_and_clear_def Let_def queue_bits split: prod.split outcome.split)+
  moreover have "works (snd (k_work_queue_drain q plug s)) = works s" "works (snd (k_work_queue_unplug q s)) = works s"
    "works (snd (k_work_queue_stop q n s)) = works s" "works (snd (k_work_queue_stop_resume q s)) = works s"
    by (auto simp: k_work_queue_drain_def k_work_queue_unplug_def k_work_queue_stop_def k_work_queue_stop_resume_def
        flag_test_and_clear_def Let_def split: prod.split outcome.split)
  ultimately show "work_inv F pc (snd (k_work_queue_drain q plug s))" "work_inv F pc (snd (k_work_queue_unplug q s))"
    "work_inv F pc (snd (k_work_queue_stop q n s))" "work_inv F pc (snd (k_work_queue_stop_resume q s))"
    using assms by (auto intro: work_inv_same)
qed

lemma work_step_inv:
  assumes "work_step F x y" "work_inv F (snd x) (fst x)"
  shows "work_inv F (snd y) (fst y)"
  using assms
proof (cases rule: work_step.cases)
  case (init w s pc)
  have "(\<lambda>x. x\<lparr>wflags := 0, wqueue := None\<rparr>) = (\<lambda>x. \<lparr>wflags = 0, wqueue = None, dwork_queue = dwork_queue x\<rparr>)"
    by (rule ext, rule k_work.equality) simp_all
  with init show ?thesis using init_inv [of F pc s w 0 dwork_queue] assms(2) by (simp add: k_work_init_def)
next
  case (init_delayable w s pc)
  then show ?thesis using init_inv [of F pc s w _ "\<lambda>_. None"] assms(2) by (simp add: k_work_init_delayable_def)
next
  case (submit w s pc qo)
  then show ?thesis using submit_work_inv [of F pc s w qo] assms(2)
    by (auto simp: k_work_submit_to_queue_def z_work_submit_to_queue_def Let_def split: prod.split)
next
  case (cancel w s pc)
  then show ?thesis using cancel_work_inv [of F pc s w] assms(2) by (auto simp: k_work_cancel_def work_inv_def)
next
  case (cancel_sync w s pc c)
  have "work_inv F pc (snd (cancel_async_locked w s))"
    using cancel_sync cancel_work_inv [of F pc s w] assms(2) by (auto simp: work_inv_def)
  from cancel_sync_inv [OF this, of w c] show ?thesis using cancel_sync assms(2)
    by (auto simp: k_work_cancel_sync_def Let_def intro: wait_if_inv split: prod.split)
next
  case (flush w f s pc)
  then show ?thesis using flush_work_inv [of F pc s w f] assms(2)
    by (auto simp: k_work_flush_def Let_def intro: wait_if_inv split: prod.split)
next
  case (schedule w s pc qo d)
  then show ?thesis using schedule_work_inv [of F pc s w qo d] assms(2) by (auto simp: k_work_schedule_for_queue_def)
next
  case (reschedule w s pc qo d)
  then show ?thesis using schedule_work_inv [OF unschedule_work_inv, of F pc s w w qo d] assms(2)
    by (auto simp: k_work_reschedule_for_queue_def unschedule_reads)
next
  case (cancel_delayable w s pc)
  then show ?thesis using cancel_work_inv [OF unschedule_work_inv, of F pc s w w] assms(2) unschedule_core(2)
    by (auto simp: k_work_cancel_delayable_def cancel_delayable_async_locked_def)
next
  case (cancel_delayable_sync w s pc c)
  have "work_inv F pc (snd (cancel_delayable_async_locked w s))"
    using cancel_work_inv [OF unschedule_work_inv, of F pc s w w] assms(2) unschedule_core(2) cancel_delayable_sync
    by (auto simp: cancel_delayable_async_locked_def)
  from cancel_sync_inv [OF this, of w c] show ?thesis using cancel_delayable_sync assms(2)
    by (auto simp: k_work_cancel_delayable_sync_def Let_def intro: wait_if_inv split: prod.split)
next
  case (flush_delayable w f s pc)
  then show ?thesis using flush_delayable_inv [of F pc s w f] assms(2) by simp
next
  case (timeout w s pc)
  then show ?thesis using timeout_work_inv [of F pc s w] assms(2) by simp
next
  case (queue_init q s pc)
  then show ?thesis using queue_ops_inv(1) [of F pc s q] assms(2) by simp
next
  case (queue_start q s pc pri ny es)
  then show ?thesis using queue_ops_inv(2) [of F pc s q pri ny es] assms(2) by simp
next
  case (drain s pc q plug)
  then show ?thesis using queue_flags_inv(1) [of F pc s q plug] assms(2) by simp
next
  case (unplug s pc q)
  then show ?thesis using queue_flags_inv(2) [of F pc s q] assms(2) by simp
next
  case (stop s pc q n)
  then show ?thesis using queue_flags_inv(3) [of F pc s q n] assms(2) by simp
next
  case (stop_resume s pc q)
  then show ?thesis using queue_flags_inv(4) [of F pc s q] assms(2) by simp
next
  case (take pc q s w s')
  then show ?thesis using take_work_inv [of F pc s q "Run w" s'] assms(2) by simp
next
  case (idle pc q s n s')
  then show ?thesis using take_work_inv [of F pc s q n s'] assms(2) by auto
next
  case (handled pc q w s)
  then show ?thesis using done_work_inv [of F pc s q w] assms(2) by simp
next
  case (env s pc k sm)
  then show ?thesis using assms(2) by (simp add: work_inv_def)
qed

lemma boot_work_inv: "work_inv F (\<lambda>_. None) (boot_work th nq dq sm k)"
  by (simp add: work_inv_def core_inv_def core_parts boot_work_def)

lemma reachable_work_inv:
  assumes "(work_step F)\<^sup>*\<^sup>* (boot_work th nq dq sm k, \<lambda>_. None) (s, pc)"
  shows "work_inv F pc s"
proof -
  have "work_inv F (snd y) (fst y)" if "(work_step F)\<^sup>*\<^sup>* (boot_work th nq dq sm k, \<lambda>_. None) y" for y
    using that by (induction rule: rtranclp_induct) (auto intro: boot_work_inv work_step_inv)
  from this [OF assms] show ?thesis by simp
qed

lemma work_invD:
  assumes "work_inv F pc s" "w \<notin> F"
  shows "w \<in> set (pending (wqs s q)) \<longleftrightarrow> work_flag K_WORK_QUEUED_BIT w s \<and> wqueue (works s w) = Some q"
    "pc q = Some w \<longleftrightarrow> work_flag K_WORK_RUNNING_BIT w s \<and> wqueue (works s w) = Some q"
    "work_flag K_WORK_RUNNING_BIT w s \<longleftrightarrow> (\<exists>q. pc q = Some w)"
    "work_flag K_WORK_CANCELING_BIT w s \<Longrightarrow> work_flag K_WORK_RUNNING_BIT w s \<and> \<not> work_flag K_WORK_QUEUED_BIT w s"
    "\<not> work_flag K_WORK_FLUSHING_BIT w s"
    "\<not> work_flag K_WORK_DELAYABLE_BIT w s \<Longrightarrow> \<not> work_flag K_WORK_DELAYED_BIT w s"
proof -
  have i: "pend_ok F (core_of s)" "run_ok F pc (core_of s)" using assms(1) by (simp_all add: work_inv_def core_inv_def)
  show "w \<in> set (pending (wqs s q)) \<longleftrightarrow> work_flag K_WORK_QUEUED_BIT w s \<and> wqueue (works s w) = Some q"
    using i(1) assms(2) by (fastforce simp: pend_ok_def)
  show p: "pc q = Some w \<longleftrightarrow> work_flag K_WORK_RUNNING_BIT w s \<and> wqueue (works s w) = Some q" for q
    using i(2) assms(2) by (fastforce simp: run_ok_def)
  show "work_flag K_WORK_RUNNING_BIT w s \<longleftrightarrow> (\<exists>q. pc q = Some w)"
    using i(2) assms(2) by (fastforce simp: run_ok_def)
  show "work_flag K_WORK_CANCELING_BIT w s \<Longrightarrow> work_flag K_WORK_RUNNING_BIT w s \<and> \<not> work_flag K_WORK_QUEUED_BIT w s"
    "\<not> work_flag K_WORK_FLUSHING_BIT w s" using i(2) assms(2) by (simp_all add: run_ok_def)
  show "\<not> work_flag K_WORK_DELAYABLE_BIT w s \<Longrightarrow> \<not> work_flag K_WORK_DELAYED_BIT w s"
    using assms by (auto simp: work_inv_def)
qed

text \<open>The timeout handler as the clock interrupt of theory \<open>Timer\<close> sees it: it wakes the thread of one queue or none.\<close>

lemma queue_submit_kern: "\<exists>n. kern (snd (queue_submit_locked qo w s)) = work_notify (\<lambda>_. n) w (kern s)"
proof -
  have "kern (snd (queue_submit_locked qo w s)) = kern s \<or> (\<exists>n. kern (snd (queue_submit_locked qo w s)) = snd (z_sched_wake (ObjQ n) 0 0 (kern s)))"
    by (auto simp: queue_submit_locked_def notify_queue_locked_def Let_def case_prod_unfold split: option.split)
  then consider "kern (snd (queue_submit_locked qo w s)) = kern s"
    | n where "kern (snd (queue_submit_locked qo w s)) = snd (z_sched_wake (ObjQ n) 0 0 (kern s))" by blast
  then show ?thesis
  proof cases
    case 1
    then show ?thesis by (intro exI [of _ None]) (simp add: work_notify_def)
  next
    case (2 n)
    then show ?thesis by (intro exI [of _ "Some n"]) (simp add: work_notify_def)
  qed
qed

lemma work_timeout_kern: "\<exists>n. kern (work_timeout w s) = work_notify (\<lambda>_. n) w (kern s)"
proof -
  have none: "\<exists>n. kern s = work_notify (\<lambda>_. n) w (kern s)" for s by (intro exI [of _ None]) (simp add: work_notify_def)
  have "\<exists>n. kern (snd (snd (submit_to_queue_locked w qo s))) = work_notify (\<lambda>_. n) w (kern s)" for qo s
    using none [of s] queue_submit_kern [of qo w s] queue_submit_kern [of "wqueue (works s w)" w s]
    by (simp add: submit_to_queue_locked_def Let_def case_prod_unfold)
  from this [of "dwork_queue (works s w)" "upd_work w (\<lambda>x. x\<lparr>wflags := flag_clear K_WORK_DELAYED_BIT (wflags (works s w))\<rparr>) s"] none [of s]
  show ?thesis by (simp add: work_timeout_def flag_test_and_clear_def Let_def)
qed

section \<open>Example states\<close>

text \<open>Queue 0 is started, item 5 has the given flags and the queue the given list and flags. Object 9 is a synchronisation object.\<close>

definition work_example :: "u32 \<Rightarrow> nat list \<Rightarrow> u32 \<Rightarrow> work_state" where
  "work_example fl p qf = (boot_work (\<lambda>_. 3) (\<lambda>q. 7 + 2 * q) (\<lambda>q. 8 + 2 * q) (\<lambda>c. \<lparr>sem_q = 100 + c, count = 0, limit = 1\<rparr>) waiting_kernel)
     \<lparr>works := (\<lambda>_. \<lparr>wflags = 0, wqueue = None, dwork_queue = None\<rparr>)(5 := \<lparr>wflags = fl, wqueue = if fl = 0 then None else Some 0, dwork_queue = None\<rparr>),
      wqs := (\<lambda>q. \<lparr>pending = [], qflags = 0, q_thread = 3, notifyq = 7 + 2 * q, drainq = 8 + 2 * q\<rparr>)
        (0 := \<lparr>pending = p, qflags = qf, q_thread = 3, notifyq = 7, drainq = 8\<rparr>)\<rparr>"

abbreviation example_boot :: work_state where
  "example_boot \<equiv> boot_work (\<lambda>_. 3) (\<lambda>q. 7 + 2 * q) (\<lambda>q. 8 + 2 * q) (\<lambda>c. \<lparr>sem_q = 100 + c, count = 0, limit = 1\<rparr>) waiting_kernel"

lemma env_to:
  assumes "(work_step F)\<^sup>*\<^sup>* x (s, pc)" "works s' = works s" "wqs s' = wqs s" "pending_cancels s' = pending_cancels s"
  shows "(work_step F)\<^sup>*\<^sup>* x (s', pc)"
proof -
  have "s' = s\<lparr>kern := kern s', sems := sems s'\<rparr>" using assms(2-4) by (intro work_state.equality) simp_all
  then have "work_step F (s, pc) (s', pc)" by (metis work_step.env)
  with assms(1) show ?thesis by (rule rtranclp.rtrancl_into_rtrancl)
qed

lemma example_idle: "(work_step F)\<^sup>*\<^sup>* (example_boot, \<lambda>_. None) (work_example 0 [] 1, \<lambda>_. None)"
proof (rule env_to)
  show "(work_step F)\<^sup>*\<^sup>* (example_boot, \<lambda>_. None) (k_work_queue_start 0 0 False False example_boot, \<lambda>_. None)"
    by (rule r_into_rtranclp, rule work_step.queue_start) (simp add: boot_work_def)
qed (auto simp: boot_work_def work_example_def k_work_queue_start_def Let_def)

lemma example_queued: "5 \<notin> F \<Longrightarrow> (work_step F)\<^sup>*\<^sup>* (example_boot, \<lambda>_. None) (work_example 4 [5] 1, \<lambda>_. None)"
proof (rule env_to)
  assume f: "5 \<notin> F"
  show "(work_step F)\<^sup>*\<^sup>* (example_boot, \<lambda>_. None) (snd (k_work_submit_to_queue (Some 0) 5 (work_example 0 [] 1)), \<lambda>_. None)"
    using work_step.submit [OF f] example_idle by (rule rtranclp.rtrancl_into_rtrancl [rotated])
qed (simp_all add: k_work_submit_to_queue_def z_work_submit_to_queue_def submit_to_queue_locked_def queue_submit_locked_def Let_def
    work_example_def boot_work_def flag_test_def flag_set_def work_bits queue_bits split: prod.split)

lemma example_running: "5 \<notin> F \<Longrightarrow> (work_step F)\<^sup>*\<^sup>* (example_boot, \<lambda>_. None) (work_example 1 [] 3, (\<lambda>_. None)(0 := Some 5))"
proof (rule env_to)
  assume f: "5 \<notin> F"
  let ?s = "clear_work_flag K_WORK_QUEUED_BIT 5 (set_work_flag K_WORK_RUNNING_BIT 5
    (set_queue_flag K_WORK_QUEUE_BUSY_BIT 0 (upd_wq 0 (\<lambda>x. x\<lparr>pending := []\<rparr>) (work_example 4 [5] 1))))"
  have "work_queue_take 0 (work_example 4 [5] 1) = Some (Run 5, ?s)"
    by (simp add: work_queue_take_def work_example_def)
  then have "work_step F (work_example 4 [5] 1, \<lambda>_. None) (?s, (\<lambda>_. None)(0 := Some 5))" by (intro work_step.take) simp_all
  with example_queued [OF f] show "(work_step F)\<^sup>*\<^sup>* (example_boot, \<lambda>_. None) (?s, (\<lambda>_. None)(0 := Some 5))"
    by (rule rtranclp.rtrancl_into_rtrancl)
qed (simp_all add: work_example_def boot_work_def flag_clear_def flag_set_def work_bits queue_bits)

text \<open>Thread 2 runs; the thread of the queue, 3, waits for work.\<close>

definition wq_kernel :: kernel where
  "wq_kernel = boot_kernel\<lparr>threads := boot_threads(2 := thread_with 5 THREAD_QUEUED None, 3 := thread_with 3 THREAD_PENDING (Some (ObjQ 7))),
     runq := [2], ready_cache := 2, current := 2, wait_qs := (\<lambda>_. [])(ObjQ 7 := [3])\<rparr>"

lemma wq_kernel_inv: "sched_inv {} wq_kernel" "wait_qs wq_kernel (ObjQ 7) = [3]"
proof (rule sched_invI)
  show "runq_inv wq_kernel" by (auto simp: runq_inv_def wq_kernel_def boot_kernel_def boot_threads_def state_bits)
  show "ready_inv {} wq_kernel" by (auto simp: ready_inv_def wq_kernel_def boot_kernel_def boot_threads_def state_bits)
  show "waitq_inv wq_kernel" by (auto simp: waitq_inv_def wq_kernel_def boot_kernel_def boot_threads_def state_bits)
  show "timer_inv wq_kernel" by (auto simp: timer_inv_def clock_ok_def timeout_q_ok_def rem_q_def wq_kernel_def boot_kernel_def)
  show "cache_inv wq_kernel" by (auto simp: cache_inv_def next_up_cases wq_kernel_def)
qed (simp add: wq_kernel_def)

section \<open>Properties\<close>

lemma running_canceling:
  assumes "\<And>b. (b < 5 \<and> work_flag b w s) \<longleftrightarrow> b = 0 \<or> b = 1"
  shows "work_busy_get_locked w s = push_bit K_WORK_RUNNING_BIT 1 OR push_bit K_WORK_CANCELING_BIT 1"
proof (rule bit_word_eqI)
  fix n
  assume "n < LENGTH(32)"
  then have "bit (push_bit K_WORK_RUNNING_BIT 1 OR push_bit K_WORK_CANCELING_BIT 1 :: u32) n \<longleftrightarrow> n = 0 \<or> n = 1"
    unfolding bit_or_iff bit_push_bit_iff bit_1_iff work_bits by auto
  moreover have "bit (work_busy_get_locked w s) n \<longleftrightarrow> n < 5 \<and> work_flag n w s"
    by (auto simp: work_busy_get_locked_def bit_and_iff mask_bits flag_test_bit)
  ultimately show "bit (work_busy_get_locked w s) n = bit (push_bit K_WORK_RUNNING_BIT 1 OR push_bit K_WORK_CANCELING_BIT 1 :: u32) n"
    using assms [of n] by blast
qed

text \<open>C5: In every reachable state an item is run by at most one queue thread at a time and stands in the pending lists
  at most once; an item that is submitted while its handler runs waits on the queue that runs it, so a
  handler is never entered twice at the same time.\<close>

theorem work_item_exclusive:
  assumes "(work_step F)\<^sup>*\<^sup>* (boot_work th nq dq sm k, \<lambda>_. None) (s, pc)"
  shows "(pc q = Some w \<and> pc q' = Some w \<longrightarrow> q = q') \<and> distinct (pending (wqs s q)) \<and>
     (w \<in> set (pending (wqs s q)) \<and> w \<in> set (pending (wqs s q')) \<longrightarrow> q = q') \<and>
     (pc q = Some w \<and> w \<in> set (pending (wqs s q')) \<longrightarrow> q = q')"
proof -
  have i: "work_inv F pc s" using reachable_work_inv [OF assms] .
  then have c: "core_inv F pc (core_of s)" by (simp add: work_inv_def)
  have "distinct (pending (wqs s q))" using c by (simp add: core_inv_def pend_ok_def)
  moreover have "q = q'" if "pc q = Some w" "pc q' = Some w" using running_unique [OF c that(2,1)] .
  moreover have "q = q'" if "w \<in> set (pending (wqs s q))" "w \<in> set (pending (wqs s q'))"
  proof (cases "w \<in> F")
    case True
    then have "flusher_ok pc (core_of s) w" using c by (simp add: core_inv_def flush_ok_def)
    with that show ?thesis unfolding flusher_ok_def by (metis core_fields(6))
  qed (use that work_invD(1) [OF i] in auto)
  moreover have "q = q'" if "pc q = Some w" "w \<in> set (pending (wqs s q'))"
  proof (cases "w \<in> F")
    case True
    then have "flusher_ok pc (core_of s) w" using c by (simp add: core_inv_def flush_ok_def)
    with that show ?thesis unfolding flusher_ok_def by (metis core_fields(6))
  qed (use that work_invD(1,2) [OF i] in auto)
  ultimately show ?thesis by blast
qed

theorem work_item_exclusive_witness:
  "(work_step {9})\<^sup>*\<^sup>* (example_boot, \<lambda>_. None) (work_example 1 [] 3, (\<lambda>_. None)(0 := Some 5)) \<and>
   ((\<lambda>_. None)(0 := Some 5)) (1 :: nat) \<noteq> Some (5 :: nat)"
proof -
  have r: "(work_step {9})\<^sup>*\<^sup>* (example_boot, \<lambda>_. None) (work_example 1 [] 3, (\<lambda>_. None)(0 := Some 5))"
    by (rule example_running) simp
  from work_item_exclusive [OF this, of 0 5 1] show ?thesis using r by auto
qed

text \<open>C17: After \<open>k_work_cancel\<close> the item is in no pending list. The call returns 0 exactly if no queue thread runs the
  item; otherwise it returns the flags running and canceling, and every submission is refused with
  \<open>-EBUSY\<close> without any effect.\<close>

theorem k_work_cancel_stops:
  assumes "(work_step F)\<^sup>*\<^sup>* (boot_work th nq dq sm k, \<lambda>_. None) (s, pc)" "w \<notin> F" "\<not> work_flag K_WORK_DELAYABLE_BIT w s"
    "k_work_cancel w s = (r, s')"
  shows "w \<notin> set (pending (wqs s' q)) \<and> (\<forall>v. v \<noteq> w \<longrightarrow> (v \<in> set (pending (wqs s' q)) \<longleftrightarrow> v \<in> set (pending (wqs s q)))) \<and>
     (if \<forall>q. pc q \<noteq> Some w then r = 0
      else r = push_bit K_WORK_RUNNING_BIT 1 OR push_bit K_WORK_CANCELING_BIT 1 \<and> k_work_submit_to_queue qo w s' = (- EBUSY, s'))"
proof -
  have i: "work_inv F pc s" using reachable_work_inv [OF assms(1)] .
  have can: "cancel_async_locked w s = (r, s')" using assms(4) by (simp add: k_work_cancel_def)
  note d = work_invD [OF i assms(2)]
  define c where "c = (if canceling (core_of s) w then core_of s else core_dequeue w (core_of s))"
  note post = cancel_async_core(1,3) [OF can, folded c_def]
  have nd: "\<not> work_flag K_WORK_DELAYED_BIT w s" using d(6) assms(3) by blast
  have s': "work_inv F pc s'" using cancel_work_inv [OF i assms(2) nd] can by simp
  note d' = work_invD [OF s' assms(2)]
  have cw: "\<not> queued c w" "\<not> flushing c w" "running c w = work_flag K_WORK_RUNNING_BIT w s" "canceling c w \<longrightarrow> running c w"
    using d(4,5) by (auto simp: c_def core_dequeue_def)
  then have r: "r = 0 \<longleftrightarrow> (\<forall>q. pc q \<noteq> Some w)" using post(2) nd d(3) by blast
  have "queued (core_of s') w = queued c w" using post(1) by (simp add: core_cancel_def)
  then have nq: "\<not> work_flag K_WORK_QUEUED_BIT w s'" using cw(1) by simp
  have others: "v \<in> set (pending (wqs s' q)) \<longleftrightarrow> v \<in> set (pending (wqs s q))" if "v \<noteq> w" for v
  proof -
    have "set (remove1 w xs) - {w} = set xs - {w}" for xs :: "nat list" by (induction xs) auto
    then have "v \<in> set (remove1 w xs) \<longleftrightarrow> v \<in> set xs" for xs using that by blast
    then have "v \<in> set (pend c q) \<longleftrightarrow> v \<in> set (pend (core_of s) q)" by (simp add: c_def core_dequeue_def)
    moreover have "pend (core_of s') q = pend c q" using post(1) by (simp add: core_cancel_def)
    ultimately show ?thesis by simp
  qed
  have busy: "r = push_bit K_WORK_RUNNING_BIT 1 OR push_bit K_WORK_CANCELING_BIT 1 \<and> k_work_submit_to_queue qo w s' = (- EBUSY, s')" if "r \<noteq> 0"
  proof -
    have fl: "work_flag K_WORK_CANCELING_BIT w s'" using post(1) that core_fields(2) [of s' w] by (simp add: core_cancel_def)
    have "\<not> work_flag K_WORK_DELAYED_BIT w s'" using nd can
      by (auto simp: cancel_async_locked_def queue_remove_locked_def flag_test_and_clear_def Let_def work_bits split: if_splits)
    then have bits: "(b < 5 \<and> work_flag b w s') \<longleftrightarrow> b = 0 \<or> b = 1" for b
      using fl d'(4,5) by (cases "b < 5") (auto simp: work_bits numeral_eq_Suc less_Suc_eq)
    have "r = work_busy_get_locked w s'" using can that by (auto simp: cancel_async_locked_def Let_def split: if_splits)
    also have "\<dots> = push_bit K_WORK_RUNNING_BIT 1 OR push_bit K_WORK_CANCELING_BIT 1"
      by (rule running_canceling) (use bits in blast)
    finally show ?thesis using fl by (simp add: k_work_submit_to_queue_def z_work_submit_to_queue_def submit_to_queue_locked_def errno_defs)
  qed
  show ?thesis using others busy r nq d'(1) by auto
qed

theorem k_work_cancel_stops_witness:
  "(work_step {9})\<^sup>*\<^sup>* (example_boot, \<lambda>_. None) (work_example 1 [] 3, (\<lambda>_. None)(0 := Some 5)) \<and>
   fst (k_work_cancel 5 (work_example 1 [] 3)) = push_bit K_WORK_RUNNING_BIT 1 OR push_bit K_WORK_CANCELING_BIT 1 \<and>
   fst (k_work_submit_to_queue (Some 0) 5 (snd (k_work_cancel 5 (work_example 1 [] 3)))) = - EBUSY"
proof -
  have r: "(work_step {9})\<^sup>*\<^sup>* (example_boot, \<lambda>_. None) (work_example 1 [] 3, (\<lambda>_. None)(0 := Some 5))"
    by (rule example_running) simp
  have "\<not> work_flag K_WORK_DELAYABLE_BIT 5 (work_example 1 [] 3)" by (simp add: work_example_def flag_test_def work_bits)
  from k_work_cancel_stops [OF r _ this, of _ _ 0 "Some 0"] have
    "fst (k_work_cancel 5 (work_example 1 [] 3)) = push_bit K_WORK_RUNNING_BIT 1 OR push_bit K_WORK_CANCELING_BIT 1 \<and>
     fst (k_work_submit_to_queue (Some 0) 5 (snd (k_work_cancel 5 (work_example 1 [] 3)))) = - EBUSY"
    by (cases "k_work_cancel 5 (work_example 1 [] 3)") (auto split: if_splits)
  with r show ?thesis by blast
qed

lemma insert_behind_split: "w \<notin> set xs \<Longrightarrow> insert_behind w f (xs @ w # ys) = xs @ w # f # ys"
  by (induction xs) auto

text \<open>C18: \<open>k_work_flush\<close> of an idle item returns false at once. Otherwise the caller waits, and its flusher stands
  directly behind the item in the pending list, or at the front of the list of the queue that runs the item: it
  is the next to run after the item.\<close>

theorem k_work_flush_behind:
  assumes "(work_step F)\<^sup>*\<^sup>* (boot_work th nq dq sm k, \<lambda>_. None) (s, pc)" "w \<notin> F" "f \<in> F" "k_work_flush w f s = (r, s')"
  shows "(if \<forall>q. w \<notin> set (pending (wqs s q)) \<and> pc q \<noteq> Some w then r = Done False \<and> s' = s else r = Blocked) \<and>
     (pending (wqs s q) = xs @ w # ys \<longrightarrow> pending (wqs s' q) = xs @ w # f # ys) \<and>
     (pc q = Some w \<and> w \<notin> set (pending (wqs s q)) \<longrightarrow> pending (wqs s' q) = f # pending (wqs s q))"
proof -
  have i: "work_inv F pc s" using reachable_work_inv [OF assms(1)] .
  note d = work_invD [OF i assms(2)]
  obtain need s1 where fl: "work_flush_locked w f s = (need, s1)" by fastforce
  have wf: "w \<noteq> f" using assms(2,3) by blast
  have need: "need \<longleftrightarrow> work_flag K_WORK_QUEUED_BIT w s \<or> work_flag K_WORK_RUNNING_BIT w s" using flush_core(2) [OF fl wf] by simp
  have "work_flag K_WORK_QUEUED_BIT w s \<Longrightarrow> \<exists>q. w \<in> set (pending (wqs s q))"
    using i assms(2) by (auto simp: work_inv_def core_inv_def pend_ok_def)
  then have n: "need \<longleftrightarrow> \<not> (\<forall>q. w \<notin> set (pending (wqs s q)) \<and> pc q \<noteq> Some w)" using need d(1,2,3) by blast
  have s': "wait_if need need f s1 = (r, s')" using assms(4) fl by (simp add: k_work_flush_def)
  have pend: "pending (wqs s' q) = pend (core_of s1) q" using s' sync_reads(14) [of need need f s1] by simp
  have core: "need \<Longrightarrow> core_of s1 = core_flush w f (the (wqueue (works s w))) (core_of s)" using flush_core(1) [OF fl wf] by simp
  have cnt: "need \<Longrightarrow> count (sems s1 f) = 0" using fl
    by (auto simp: work_flush_locked_def queue_flusher_locked_def init_flusher_def k_work_init_def init_sync_sem_def k_sem_init_def Let_def)
  have "r = Blocked" if need using s' cnt that
    by (auto simp: wait_if_def take_forever_def k_sem_take_def K_FOREVER_def K_NO_WAIT_def)
  moreover have "r = Done False \<and> s' = s" if "\<not> need" using that s' fl by (auto simp: wait_if_def work_flush_locked_def Let_def)
  moreover have "pending (wqs s' q) = xs @ w # f # ys" if p: "pending (wqs s q) = xs @ w # ys"
  proof -
    have "distinct (pending (wqs s q))" using i by (simp add: work_inv_def core_inv_def pend_ok_def)
    then show ?thesis using p d(1) [of q] core need pend insert_behind_split [of w xs f ys] by (simp add: core_flush_def)
  qed
  moreover have "pending (wqs s' q) = f # pending (wqs s q)" if "pc q = Some w" "w \<notin> set (pending (wqs s q))"
    using that d(1,2) [of q] core need pend by (simp add: core_flush_def)
  ultimately show ?thesis using n by auto
qed

theorem k_work_flush_behind_witness:
  "(work_step {9})\<^sup>*\<^sup>* (example_boot, \<lambda>_. None) (work_example 4 [5] 1, \<lambda>_. None) \<and>
   pending (wqs (snd (k_work_flush 5 9 (work_example 4 [5] 1))) 0) = [5, 9]"
proof -
  have r: "(work_step {9})\<^sup>*\<^sup>* (example_boot, \<lambda>_. None) (work_example 4 [5] 1, \<lambda>_. None)" by (rule example_queued) simp
  have "pending (wqs (work_example 4 [5] 1) 0) = [] @ 5 # []" by (simp add: work_example_def)
  then show ?thesis using k_work_flush_behind [OF r, of 5 9 _ _ 0 "[]" "[]"] r by (cases "k_work_flush 5 9 (work_example 4 [5] 1)") auto
qed

lemma done_queue:
  "pending (wqs (work_queue_done q w s) q') = pending (wqs s q')"
  "queue_flag K_WORK_QUEUE_DRAIN_BIT q' (work_queue_done q w s) = queue_flag K_WORK_QUEUE_DRAIN_BIT q' s"
  by (auto simp: work_queue_done_def finalize_flush_locked_def finalize_cancel_locked_def Let_def queue_bits split: prod.split option.split)



lemma take_canceller_first: "w \<notin> snd ` set xs \<Longrightarrow> take_canceller w (xs @ (c, w) # ys) = (Some c, xs @ ys)"
  by (induction xs) auto



lemma submit_cancels [simp]: "pending_cancels (snd (snd (submit_to_queue_locked w qo s))) = pending_cancels s"
  by (auto simp: submit_to_queue_locked_def queue_submit_locked_def Let_def split: option.split)

lemma sync_cancels [simp]:
  "pending_cancels (snd (wait_if need r c s)) = pending_cancels s" "pending_cancels (snd (work_flush_locked w f s)) = pending_cancels s"
  "pending_cancels (snd (cancel_async_locked w s)) = pending_cancels s"
  "pending_cancels (snd (schedule_for_queue_locked qo w d s)) = pending_cancels s"
  by (auto simp: wait_if_def take_forever_def work_flush_locked_def queue_flusher_locked_def init_flusher_def k_work_init_def Let_def
      cancel_async_locked_def queue_remove_locked_def flag_test_and_clear_def schedule_for_queue_locked_def dest: arg_cong [of _ _ "\<lambda>x. pending_cancels (snd (snd x))"]
      split: prod.split)



text \<open>C22: Scheduling an idle item with a delay and cancelling it before the delay is over restores the item's flags, the
  pending lists and every deadline of the timeout queue, and the cancellation reports that nothing is left to wait for.\<close>

theorem k_work_schedule_cancel:
  assumes "timeout_q_ok (kern s)" "valid_timeout (kern s) d" "WorkTimeout w \<notin> set (timeout_list (kern s))" "d \<noteq> K_NO_WAIT"
    "work_busy_get_locked w s = 0" "k_work_schedule_for_queue qo w d s = (r, s1)" "k_work_cancel_delayable w s1 = (r', s2)"
  shows "r = 1 \<and> work_flag K_WORK_DELAYED_BIT w s1 \<and> (d \<noteq> K_FOREVER \<longrightarrow> WorkTimeout w \<in> set (timeout_list (kern s1))) \<and>
     r' = 0 \<and> wflags (works s2 w) = wflags (works s w) \<and> core_of s2 = core_of s \<and> rem_q (kern s2) = rem_q (kern s)"
proof -
  let ?k1 = "z_add_timeout (WorkTimeout w) Work_timeout d (kern s)"
  have nb: "\<forall>b < 5. \<not> work_flag b w s" using assms(5) by (simp add: busy_zero)
  then have "work_busy_get_locked w s AND NOT (push_bit K_WORK_RUNNING_BIT 1) = 0" unfolding busy_not_running_zero by blast
  then have s1: "r = 1" "s1 = (upd_work w (\<lambda>x. x\<lparr>dwork_queue := qo\<rparr>) (set_work_flag K_WORK_DELAYED_BIT w s))\<lparr>kern := ?k1\<rparr>"
    using assms(4,6) by (simp_all add: k_work_schedule_for_queue_def schedule_for_queue_locked_def Let_def)
  have fl: "flag_clear K_WORK_DELAYED_BIT (flag_set K_WORK_DELAYED_BIT (wflags (works s w))) = wflags (works s w)"
    using nb by (intro bit_word_eqI) (auto simp: flag_test_bit [symmetric] work_bits)
  define s1' where "s1' = snd (unschedule_locked w s1)"
  have s1': "kern s1' = snd (z_abort_timeout (WorkTimeout w) ?k1)" "wflags (works s1' w) = wflags (works s w)"
    using fl by (auto simp: s1'_def unschedule_locked_def s1(2) flag_test_and_clear_def Let_def work_bits split: prod.split)
  have clr: "flag_clear K_WORK_QUEUED_BIT (wflags (works s w)) = wflags (works s w)"
    using nb by (intro bit_word_eqI) (auto simp: flag_test_bit [symmetric] work_bits)
  have idle: "\<not> work_flag K_WORK_CANCELING_BIT w s1'" "\<not> work_flag K_WORK_QUEUED_BIT w s1'" using nb s1'(2) by (simp_all add: work_bits)
  have rm: "queue_remove_locked (wqueue (works s1' w)) w s1' = s1'"
    using clr idle s1'(2) by (intro work_state.equality) (auto simp: queue_remove_locked_def flag_test_and_clear_def)
  have "work_busy_get_locked w s1' = 0" using nb s1'(2) by (simp add: busy_zero)
  then have s2: "r' = 0" "s2 = s1'"
    using assms(7) idle(1) rm by (simp_all add: k_work_cancel_delayable_def cancel_delayable_async_locked_def cancel_async_locked_def s1'_def [symmetric])
  have "core_of s1 = core_of s" by (rule core_eqI) (simp_all add: s1(2) work_bits)
  then have core: "core_of s2 = core_of s" unfolding s2(2) s1'_def unschedule_core(1) .
  have "p \<in> set (rem_q (kern s)) \<Longrightarrow> fst p \<noteq> WorkTimeout w" for p using assms(3) set_rem_q [of "kern s"] by (metis image_eqI)
  then have same: "filter (\<lambda>p. fst p \<noteq> WorkTimeout w) (rem_q (kern s)) = rem_q (kern s)" by (simp add: filter_id_conv)
  have "rem_q (kern s2) = rem_q (kern s)"
  proof (cases "d = K_FOREVER")
    case True
    then show ?thesis using abort_timeout_rem_q(1) [OF assms(1), of "WorkTimeout w"] same s1'(1) s2(2) by simp
  next
    case False
    then show ?thesis
      using abort_timeout_rem_q(1) [OF add_timeout_ok [OF assms(1,3,2)]] add_timeout_rem_q [OF assms(1,3) False] same s1'(1) s2(2)
      by (simp add: filter_ins_before_out)
  qed
  moreover have "d \<noteq> K_FOREVER \<longrightarrow> WorkTimeout w \<in> set (timeout_list (kern s1))" using add_timeout_set [OF assms(1,3)] s1(2) by simp
  moreover have "work_flag K_WORK_DELAYED_BIT w s1" by (simp add: s1(2) work_bits)
  ultimately show ?thesis using s1(1) s2 s1'(2) core by simp
qed

theorem k_work_schedule_cancel_witness:
  "\<exists>s1 s2. k_work_schedule_for_queue (Some 0) 5 10 (work_example 0 [] 1) = (1, s1) \<and> timeout_list (kern s1) = [WorkTimeout 5] \<and>
     k_work_cancel_delayable 5 s1 = (0, s2) \<and> rem_q (kern s2) = []"
proof -
  let ?s = "work_example 0 [] 1"
  obtain r s1 where s1: "k_work_schedule_for_queue (Some 0) 5 10 ?s = (r, s1)" by fastforce
  obtain r' s2 where s2: "k_work_cancel_delayable 5 s1 = (r', s2)" by fastforce
  have k: "kern ?s = waiting_kernel" by (simp add: work_example_def boot_work_def)
  have inv: "timeout_q_ok (kern ?s)" "valid_timeout (kern ?s) 10" "rem_q (kern ?s) = []"
    using inv_q_ok [OF waiting_kernel_inv] inv_clock_ok [OF waiting_kernel_inv]
    by (simp_all add: k valid_timeoutI ticks_ok_def rem_q_def)
  have b: "work_busy_get_locked 5 ?s = 0" by (simp add: work_busy_get_locked_def work_example_def)
  from k_work_schedule_cancel [OF inv(1,2) _ _ b s1 s2] inv(3) have
    "r = 1" "r' = 0" "rem_q (kern s2) = []" by (simp_all add: k K_NO_WAIT_def)
  moreover have "timeout_list (kern s1) = [WorkTimeout 5]" using s1 b
    by (auto simp: k_work_schedule_for_queue_def schedule_for_queue_locked_def K_NO_WAIT_def K_FOREVER_def z_add_timeout_def sys_clock_set_timeout_def k Let_def)
  ultimately show ?thesis using s1 s2 by blast
qed

end
