(* ===== verification/Encoding.thy ===== *)
theory Encoding
  imports Zephyr_Prelude
begin

text \<open>
  Text encodings of \<open>lib/utils\<close>: hexadecimal (\<open>hex.c\<close>), base64 (\<open>base64.c\<close>) and decimal
  (\<open>dec.c\<close>). A buffer is the list of its bytes, and the bytes an operation writes are part of its result. \<open>size_t\<close> has
  32 bits: the lengths of the lists are below \<open>2 ^ 32\<close> and sums that could exceed it are reduced.
\<close>

section \<open>Hexadecimal\<close>

definition char2hex :: "u8 \<Rightarrow> u8 option" where
  "char2hex c =
     (if 48 \<le> c \<and> c \<le> 57 then Some (c - 48)
      else if 97 \<le> c \<and> c \<le> 102 then Some (c - 97 + 10)
      else if 65 \<le> c \<and> c \<le> 70 then Some (c - 65 + 10)
      else None)"

definition hex2char :: "u8 \<Rightarrow> u8 option" where
  "hex2char x = (if x \<le> 9 then Some (x + 48) else if x \<le> 15 then Some (x - 10 + 97) else None)"

fun bin2hex_loop :: "u8 list \<Rightarrow> u8 list option" where
  "bin2hex_loop [] = Some []"
| "bin2hex_loop (b # bs) =
     (case hex2char (drop_bit 4 b) of None \<Rightarrow> None
      | Some h \<Rightarrow> (case hex2char (b AND 15) of None \<Rightarrow> None
         | Some l \<Rightarrow> map_option (\<lambda>hs. h # l # hs) (bin2hex_loop bs)))"

text \<open>The result and, when the conversion was done, the string with its terminator.\<close>

definition bin2hex :: "u8 list \<Rightarrow> nat \<Rightarrow> nat \<times> u8 list" where
  "bin2hex buf hexlen =
     (if hexlen < (length buf * 2 + 1) mod 2 ^ 32 then (0, [])
      else case bin2hex_loop buf of None \<Rightarrow> (0, []) | Some hs \<Rightarrow> (2 * length buf, hs @ [0]))"

fun hex2bin_loop :: "u8 list \<Rightarrow> u8 list option" where
  "hex2bin_loop (h # l # hs) =
     (case char2hex h of None \<Rightarrow> None
      | Some a \<Rightarrow> (case char2hex l of None \<Rightarrow> None
         | Some b \<Rightarrow> map_option (\<lambda>bs. (push_bit 4 a + b) # bs) (hex2bin_loop hs)))"
| "hex2bin_loop _ = Some []"

definition hex2bin :: "u8 list \<Rightarrow> nat \<Rightarrow> nat \<times> u8 list" where
  "hex2bin hex buflen =
     (let hexlen = length hex
      in if buflen < hexlen div 2 + hexlen mod 2 then (0, [])
         else if hexlen mod 2 \<noteq> 0
         then (case char2hex (hd hex) of None \<Rightarrow> (0, [])
               | Some d \<Rightarrow> (case hex2bin_loop (tl hex) of None \<Rightarrow> (0, []) | Some bs \<Rightarrow> (hexlen div 2 + hexlen mod 2, d # bs)))
         else (case hex2bin_loop hex of None \<Rightarrow> (0, []) | Some bs \<Rightarrow> (hexlen div 2 + hexlen mod 2, bs)))"

section \<open>Decimal\<close>

function u8_to_dec_loop :: "nat \<Rightarrow> u8 \<Rightarrow> u8 \<Rightarrow> u8 \<Rightarrow> u8 list" where
  "u8_to_dec_loop buflen divisor num_digits v =
     (if buflen > 0 \<and> divisor > 0
      then let digit = v div divisor; v' = v - digit * divisor
           in if digit \<noteq> 0 \<or> divisor = 1 \<or> num_digits \<noteq> 0
              then (digit + 48) # u8_to_dec_loop (buflen - 1) (divisor div 10) (num_digits + 1) v'
              else u8_to_dec_loop buflen (divisor div 10) num_digits v'
      else [])"
  by pat_completeness auto
termination
  by (relation "measure (\<lambda>(_, divisor, _, _). unat divisor)") (auto simp: unat_div word_gt_0 unat_gt_0)

declare u8_to_dec_loop.simps [simp del]

text \<open>The digits, and whether there was room for the terminator.\<close>

definition u8_to_dec :: "u8 \<Rightarrow> u8 \<Rightarrow> nat \<times> u8 list" where
  "u8_to_dec buflen v =
     (let ds = u8_to_dec_loop (unat buflen) 100 0 v
      in (length ds, ds @ (if length ds < unat buflen then [0] else [])))"

section \<open>Base64\<close>

definition base64_enc_map :: "u8 list" where
  "base64_enc_map =
    [65, 66, 67, 68, 69, 70, 71, 72, 73, 74, 75, 76, 77, 78, 79, 80, 81, 82, 83, 84,
     85, 86, 87, 88, 89, 90, 97, 98, 99, 100, 101, 102, 103, 104, 105, 106, 107, 108, 109, 110,
     111, 112, 113, 114, 115, 116, 117, 118, 119, 120, 121, 122, 48, 49, 50, 51, 52, 53, 54, 55,
     56, 57, 43, 47]"

definition base64_dec_map :: "u8 list" where
  "base64_dec_map =
    [127, 127, 127, 127, 127, 127, 127, 127, 127, 127, 127, 127, 127, 127, 127, 127, 127, 127, 127, 127,
     127, 127, 127, 127, 127, 127, 127, 127, 127, 127, 127, 127, 127, 127, 127, 127, 127, 127, 127, 127,
     127, 127, 127, 62, 127, 127, 127, 63, 52, 53, 54, 55, 56, 57, 58, 59, 60, 61, 127, 127,
     127, 64, 127, 127, 127, 0, 1, 2, 3, 4, 5, 6, 7, 8, 9, 10, 11, 12, 13, 14,
     15, 16, 17, 18, 19, 20, 21, 22, 23, 24, 25, 127, 127, 127, 127, 127, 127, 26, 27, 28,
     29, 30, 31, 32, 33, 34, 35, 36, 37, 38, 39, 40, 41, 42, 43, 44, 45, 46, 47, 48,
     49, 50, 51, 127, 127, 127, 127, 127]"

definition BASE64_SIZE_T_MAX :: nat where
  "BASE64_SIZE_T_MAX = 2 ^ 32 - 1"

abbreviation enc_char :: "u32 \<Rightarrow> u8" where
  "enc_char x \<equiv> base64_enc_map ! unat (x AND 0x3F)"

text \<open>The loop over groups of three bytes and the last group.\<close>

fun base64_encode_loop :: "u8 list \<Rightarrow> u8 list" where
  "base64_encode_loop (b1 # b2 # b3 # bs) =
     (let C1 = ucast b1; C2 = ucast b2; C3 = ucast b3
      in enc_char (drop_bit 2 C1) # enc_char (push_bit 4 (C1 AND 3) + drop_bit 4 C2) #
         enc_char (push_bit 2 (C2 AND 15) + drop_bit 6 C3) # enc_char C3 # base64_encode_loop bs)"
| "base64_encode_loop [b1, b2] =
     (let C1 = ucast b1; C2 = ucast b2
      in [enc_char (drop_bit 2 C1), enc_char (push_bit 4 (C1 AND 3) + drop_bit 4 C2), enc_char (push_bit 2 (C2 AND 15)), 61])"
| "base64_encode_loop [b1] =
     (let C1 = ucast b1; C2 = 0
      in [enc_char (drop_bit 2 C1), enc_char (push_bit 4 (C1 AND 3) + drop_bit 4 C2), 61, 61])"
| "base64_encode_loop [] = []"

text \<open>The return value, \<open>*olen\<close> and the bytes written to the buffer; \<open>dst\<close> is false for a null pointer.\<close>

definition base64_encode :: "bool \<Rightarrow> nat \<Rightarrow> u8 list \<Rightarrow> int \<times> nat \<times> u8 list" where
  "base64_encode dst dlen src =
     (let slen = length src; n = slen div 3 + (if slen mod 3 \<noteq> 0 then 1 else 0)
      in if slen = 0 then (0, 0, [])
         else if n > (BASE64_SIZE_T_MAX - 1) div 4 then (- ENOMEM, BASE64_SIZE_T_MAX, [])
         else if dlen < n * 4 + 1 \<or> \<not> dst then (- ENOMEM, n * 4 + 1, [])
         else let out = base64_encode_loop src in (0, length out, out @ [0]))"

lemma dropWhile_shorter: "dropWhile P src = c # cs \<Longrightarrow> length cs < length src"
  using length_dropWhile_le [of P src] by simp

text \<open>The first pass of the decoder: the number of characters that count and of padding characters, or \<open>None\<close> for bad input.\<close>

function base64_check :: "u8 list \<Rightarrow> nat \<Rightarrow> u32 \<Rightarrow> (nat \<times> u32) option" where
  "base64_check src n j =
     (case dropWhile (\<lambda>c. c = 32) src of
        [] \<Rightarrow> Some (n, j)
      | c # cs \<Rightarrow>
          if c = 13 \<and> cs \<noteq> [] \<and> hd cs = 10 then base64_check cs n j
          else if c = 10 then base64_check cs n j
          else if takeWhile (\<lambda>c. c = 32) src \<noteq> [] then None
          else let j' = (if c = 61 then j + 1 else j)
               in if c = 61 \<and> j' > 2 then None
                  else if c > 127 \<or> base64_dec_map ! unat c = 127 then None
                  else if base64_dec_map ! unat c < 64 \<and> j' \<noteq> 0 then None
                  else base64_check cs (n + 1) j')"
  by pat_completeness auto
termination
  by (relation "measure (\<lambda>(src, _, _). length src)") (auto dest: dropWhile_shorter)

declare base64_check.simps [simp del]

text \<open>The second pass; \<open>x\<close> collects six bits per character.\<close>

fun base64_decode_loop :: "u8 list \<Rightarrow> u32 \<Rightarrow> nat \<Rightarrow> u32 \<Rightarrow> u8 list" where
  "base64_decode_loop [] j n x = []"
| "base64_decode_loop (c # cs) j n x =
     (if c = 13 \<or> c = 10 \<or> c = 32 then base64_decode_loop cs j n x
      else let j' = j - (if base64_dec_map ! unat c = 64 then 1 else 0);
               x' = push_bit 6 x OR (ucast (base64_dec_map ! unat c) AND 0x3F)
           in if n + 1 = 4
              then (if j' > 0 then [ucast (drop_bit 16 x')] else []) @ (if j' > 1 then [ucast (drop_bit 8 x')] else []) @
                   (if j' > 2 then [ucast x'] else []) @ base64_decode_loop cs j' 0 x'
              else base64_decode_loop cs j' (n + 1) x')"

text \<open>The return value, \<open>*olen\<close> when it is written, and the bytes written to the buffer.\<close>

definition base64_decode :: "bool \<Rightarrow> nat \<Rightarrow> u8 list \<Rightarrow> int \<times> nat option \<times> u8 list" where
  "base64_decode dst dlen src =
     (case base64_check src 0 0 of
        None \<Rightarrow> (- EINVAL, None, [])
      | Some (n, j) \<Rightarrow>
          if n = 0 then (0, Some 0, [])
          else let n' = 6 * (n div 8) + (6 * (n mod 8) + 7) div 8 - unat j
               in if \<not> dst \<or> dlen < n' then (- ENOMEM, Some n', [])
                  else let out = base64_decode_loop src 3 0 0 in (0, Some (length out), out))"

section \<open>Hexadecimal and decimal: round trips\<close>

lemma u8_below:
  assumes "\<And>n. n < k \<Longrightarrow> P (of_nat n :: u8)" "unat x < k"
  shows "P x"
  using assms(1) [OF assms(2)] by simp

lemma nat_all_less: "(\<forall>n < k. P n) \<longleftrightarrow> list_all P [0..<k]"
  by (auto simp: list_all_iff)

lemma hex_digits: "\<forall>n < 16. case hex2char (of_nat n) of None \<Rightarrow> False | Some c \<Rightarrow> char2hex c = Some (of_nat n)"
  unfolding nat_all_less by code_simp

lemma hex_digit:
  assumes "unat x < 16"
  obtains c where "hex2char x = Some c" "char2hex c = Some x"
  using u8_below [of 16 "\<lambda>x. case hex2char x of None \<Rightarrow> False | Some c \<Rightarrow> char2hex c = Some x" x] hex_digits assms that
  by (auto split: option.splits)

lemma and_mask_unat: "unat (x AND mask n) < 2 ^ n" for x :: "'a :: len word"
  using take_bit_nat_less_exp [of n "unat x"] by (simp add: unsigned_take_bit_eq flip: take_bit_eq_mask)

lemma nibbles:
  fixes b :: u8
  shows "unat (drop_bit 4 b) < 16" "unat (b AND 15) < 16" "push_bit 4 (drop_bit 4 b) + (b AND 15) = b"
proof -
  have m: "(15 :: u8) = mask 4" by (simp add: mask_eq_decr_exp)
  show "unat (drop_bit 4 b) < 16" using unsigned_less [of b, where 'a = nat] by (simp add: drop_bit_eq_div unat_div)
  show "unat (b AND 15) < 16" using and_mask_unat [of b 4] by (simp add: mask_eq_decr_exp)
  have "push_bit 4 (drop_bit 4 b) + (b AND 15) = push_bit 4 (drop_bit 4 b) OR (b AND 15)"
    unfolding m by (rule disjunctive_add) (auto simp: bit_simps)
  also have "\<dots> = b" unfolding m by (rule bit_word_eqI) (auto simp: bit_simps)
  finally show "push_bit 4 (drop_bit 4 b) + (b AND 15) = b" .
qed

lemma hex_loops: "\<exists>hs. bin2hex_loop buf = Some hs \<and> length hs = 2 * length buf \<and> hex2bin_loop hs = Some buf"
proof (induction buf)
  case (Cons b bs)
  obtain h where h: "hex2char (drop_bit 4 b) = Some h" "char2hex h = Some (drop_bit 4 b)" by (rule hex_digit [OF nibbles(1)])
  obtain l where l: "hex2char (b AND 15) = Some l" "char2hex l = Some (b AND 15)" by (rule hex_digit [OF nibbles(2)])
  from Cons h l nibbles(3) [of b] show ?case by auto
qed simp

text \<open>Converting a buffer to hexadecimal digits and back gives the buffer, and the string has two digits per byte and a
  terminator.\<close>

theorem hex_roundtrip:
  assumes "2 * length buf + 1 \<le> hexlen" "hexlen < 2 ^ 32"
  shows "\<exists>hs. bin2hex buf hexlen = (2 * length buf, hs @ [0]) \<and> hex2bin hs (length buf) = (length buf, buf)"
proof -
  obtain hs where hs: "bin2hex_loop buf = Some hs" "length hs = 2 * length buf" "hex2bin_loop hs = Some buf" using hex_loops by blast
  have "(length buf * 2 + 1) mod 2 ^ 32 = length buf * 2 + 1" using assms by simp
  then have "bin2hex buf hexlen = (2 * length buf, hs @ [0])" using assms(1) hs(1) by (simp add: bin2hex_def)
  moreover have "hex2bin hs (length buf) = (length buf, buf)" using hs by (simp add: hex2bin_def Let_def)
  ultimately show ?thesis by blast
qed

theorem hex_roundtrip_witness: "\<exists>hs. bin2hex [171, 5] 5 = (4, hs @ [0]) \<and> hex2bin hs 2 = (2, [171, 5])"
  using hex_roundtrip [of "[171, 5]" 5] by (simp flip: numeral_2_eq_2)

lemma dec_digits:
  fixes v :: u8
  shows "u8_to_dec_loop (Suc (Suc (Suc k))) 100 0 v =
    (if v div 100 \<noteq> 0 then [v div 100 + 48, v mod 100 div 10 + 48, v mod 100 mod 10 + 48]
     else if v mod 100 div 10 \<noteq> 0 then [v mod 100 div 10 + 48, v mod 100 mod 10 + 48] else [v mod 100 mod 10 + 48])"
proof -
  have c: "(100 :: u8) div 10 = 10" "(10 :: u8) div 10 = 1" "(1 :: u8) div 10 = 0" by (simp_all add: word_div_def)
  have m: "w - w div d * d = w mod d" for w d :: u8 by (rule minus_div_mult_eq_mod)
  have one: "u8_to_dec_loop (Suc k) 1 n w = [w + 48]" for k n w
    by (subst u8_to_dec_loop.simps, subst u8_to_dec_loop.simps) (simp add: Let_def c)
  have ten: "u8_to_dec_loop (Suc (Suc k)) 10 n w =
    (if w div 10 \<noteq> 0 \<or> n \<noteq> 0 then [w div 10 + 48, w mod 10 + 48] else [w mod 10 + 48])" for k n w
    using m [of w 10] by (subst u8_to_dec_loop.simps) (auto simp: Let_def c one)
  show ?thesis using m [of v 100] by (subst u8_to_dec_loop.simps) (auto simp: Let_def c ten)
qed

text \<open>\<open>u8_to_dec\<close> with room for three digits writes the decimal digits of the value without leading zeros.\<close>

theorem u8_to_dec_digits:
  assumes "3 \<le> unat buflen" "u8_to_dec buflen v = (n, out)"
  shows "\<exists>ds. take n out = map (\<lambda>d. of_nat d + 48) ds \<and> n = length ds \<and> (\<forall>d \<in> set ds. d < 10) \<and> (hd ds = 0 \<longrightarrow> ds = [0]) \<and>
     foldl (\<lambda>a d. 10 * a + d) 0 ds = unat v"
proof -
  obtain k where k: "unat buflen = Suc (Suc (Suc k))" using assms(1) by (auto simp: numeral_3_eq_3 Suc_le_eq dest!: less_imp_Suc_add)
  define a b c where "a = unat v div 100" and "b = unat v mod 100 div 10" and "c = unat v mod 100 mod 10"
  have abc: "a < 10" "b < 10" "c < 10" "100 * a + (10 * b + c) = unat v"
    using unsigned_less [of v, where 'a = nat] by (simp_all add: a_def b_def c_def)
  have w: "v div 100 = of_nat a" "v mod 100 div 10 = of_nat b" "v mod 100 mod 10 = of_nat c"
    unfolding a_def b_def c_def by (simp_all add: word_arith_nat_div word_arith_nat_mod unat_of_nat)
  have z: "of_nat x = (0 :: u8) \<longleftrightarrow> x = 0" if "x < 10" for x using that by (auto simp: word_of_nat_eq_0_iff dest: dvd_imp_le)
  let ?ds = "if a \<noteq> 0 then [a, b, c] else if b \<noteq> 0 then [b, c] else [c]"
  have "u8_to_dec_loop (unat buflen) 100 0 v = map (\<lambda>d. of_nat d + 48) ?ds"
    unfolding k dec_digits w using z abc by auto
  then have "take n out = map (\<lambda>d. of_nat d + 48) ?ds" "n = length ?ds" using assms(2) by (auto simp: u8_to_dec_def Let_def)
  moreover have "foldl (\<lambda>a d. 10 * a + d) 0 ?ds = unat v" using abc(4) by auto
  ultimately show ?thesis using abc(1-3) by (intro exI [of _ ?ds]) auto
qed

theorem u8_to_dec_digits_witness: "\<exists>ds. take (fst (u8_to_dec 4 207)) (snd (u8_to_dec 4 207)) = map (\<lambda>d. of_nat d + 48) ds \<and> foldl (\<lambda>a d. 10 * a + d) 0 ds = 207"
  using u8_to_dec_digits [of 4 207 "fst (u8_to_dec 4 207)" "snd (u8_to_dec 4 207)"] by auto

section \<open>Base64: round trip\<close>

definition is_base64 :: "u8 \<Rightarrow> bool" where
  "is_base64 c \<longleftrightarrow> c \<le> 127 \<and> c \<notin> {61, 13, 10, 32} \<and> base64_dec_map ! unat c < 64"

lemma maps_inverse: "\<forall>i < 64. is_base64 (base64_enc_map ! i) \<and> base64_dec_map ! unat (base64_enc_map ! i) = of_nat i"
  unfolding nat_all_less by code_simp

lemma six_bits: "unat (x AND 0x3F :: u32) < 64"
  using and_mask_unat [of x 6] by (simp add: mask_eq_decr_exp)

lemma masks: "(3 :: u32) = mask 2" "(15 :: u32) = mask 4" "(0x3F :: u32) = mask 6"
  by (simp_all add: mask_eq_decr_exp)

lemma enc_char_facts:
  "is_base64 (enc_char x)" "ucast (base64_dec_map ! unat (enc_char x)) AND 0x3F = x AND (0x3F :: u32)"
proof -
  show "is_base64 (enc_char x)" using maps_inverse six_bits [of x] by blast
  have d: "base64_dec_map ! unat (enc_char x) = of_nat (unat (x AND 0x3F))" using maps_inverse six_bits [of x] by blast
  have "ucast (of_nat (unat (x AND 0x3F)) :: u8) = (x AND 0x3F :: u32)"
    unfolding masks by (rule bit_word_eqI) (auto simp: bit_simps)
  then show "ucast (base64_dec_map ! unat (enc_char x)) AND 0x3F = x AND (0x3F :: u32)" unfolding d by (simp add: and.assoc)
qed

lemma check_char: "is_base64 c \<Longrightarrow> base64_check (c # cs) n 0 = base64_check cs (n + 1) 0"
  by (subst base64_check.simps) (auto simp: is_base64_def)

lemma check_pad: "j < 2 \<Longrightarrow> base64_check (61 # cs) n j = base64_check cs (n + 1) (j + 1)"
proof -
  assume j: "j < 2"
  then have "\<not> 2 < j + 1" by unat_arith
  moreover have "base64_dec_map ! 61 = 64" by (simp add: base64_dec_map_def)
  ultimately show ?thesis by (subst base64_check.simps) simp
qed

lemma check_nil: "base64_check [] n j = Some (n, j)"
  by (subst base64_check.simps) simp

abbreviation pads :: "nat \<Rightarrow> nat" where
  "pads n \<equiv> (3 - n mod 3) mod 3"

lemma check_encode: "base64_check (base64_encode_loop src) n 0 = Some (n + 4 * ((length src + 2) div 3), of_nat (pads (length src)))"
proof (induction src arbitrary: n rule: base64_encode_loop.induct)
  case (1 b1 b2 b3 bs)
  have "(Suc (Suc (Suc (length bs))) + 2) div 3 = Suc ((length bs + 2) div 3)" "Suc (Suc (Suc (length bs))) mod 3 = length bs mod 3" by presburger+
  then show ?case using 1 [OF refl refl refl, of "Suc (Suc (Suc (Suc n)))"] by (simp add: Let_def check_char enc_char_facts(1))
qed (simp_all add: Let_def check_char check_pad check_nil enc_char_facts(1))

text \<open>The bits of three bytes through the four groups of six bits.\<close>

abbreviation sextets :: "u32 \<Rightarrow> u32 \<Rightarrow> u32 \<Rightarrow> u32 \<Rightarrow> u32 \<Rightarrow> u32" where
  "sextets x i1 i2 i3 i4 \<equiv> push_bit 6 (push_bit 6 (push_bit 6 (push_bit 6 x OR i1) OR i2) OR i3) OR i4"

lemma plus_or: "push_bit 4 (C1 AND 3) + drop_bit 4 (ucast b2) = push_bit 4 (C1 AND 3) OR drop_bit 4 (ucast b2)"
  "push_bit 2 (C1 AND 15) + drop_bit 6 (ucast b2) = push_bit 2 (C1 AND 15) OR drop_bit 6 (ucast b2)" for C1 :: u32 and b2 :: u8
  unfolding masks by (rule disjunctive_add; auto simp: bit_simps dest: bit_imp_le_length)+

lemma sextets_bit:
  assumes "\<And>k. 6 \<le> k \<Longrightarrow> \<not> bit i2 k \<and> \<not> bit i3 k \<and> \<not> bit i4 k" "n < 24"
  shows "bit (sextets x i1 i2 i3 i4) n =
    (if n < 6 then bit i4 n else if n < 12 then bit i3 (n - 6) else if n < 18 then bit i2 (n - 12) else bit i1 (n - 18) \<or> bit x (n - 24) \<and> 24 \<le> n)"
proof -
  have "bit (sextets x i1 i2 i3 i4) n \<longleftrightarrow>
    bit i4 n \<or> 6 \<le> n \<and> (bit i3 (n - 6) \<or> 12 \<le> n \<and> (bit i2 (n - 12) \<or> 18 \<le> n \<and> (bit i1 (n - 18) \<or> 24 \<le> n \<and> bit x (n - 24))))"
    using assms(2) by (auto simp: bit_or_iff bit_push_bit_iff)
  then show ?thesis using assms(1) [of n] assms(1) [of "n - 6"] assms(1) [of "n - 12"] assms(2) by auto
qed

lemma sextet_bytes:
  fixes b1 b2 b3 :: u8 and x :: u32
  defines "y \<equiv> sextets x (drop_bit 2 (ucast b1) AND 0x3F) ((push_bit 4 (ucast b1 AND 3) + drop_bit 4 (ucast b2)) AND 0x3F)
    ((push_bit 2 (ucast b2 AND 15) + drop_bit 6 (ucast b3)) AND 0x3F) (ucast b3 AND 0x3F)"
  shows "ucast (drop_bit 16 y) = b1" "ucast (drop_bit 8 y) = b2" "ucast y = b3"
proof -
  let ?i1 = "drop_bit 2 (ucast b1) AND mask 6 :: u32"
  let ?i2 = "(push_bit 4 (ucast b1 AND mask 2) OR drop_bit 4 (ucast b2)) AND mask 6 :: u32"
  let ?i3 = "(push_bit 2 (ucast b2 AND mask 4) OR drop_bit 6 (ucast b3)) AND mask 6 :: u32"
  let ?i4 = "ucast b3 AND mask 6 :: u32"
  have y: "y = sextets x ?i1 ?i2 ?i3 ?i4" unfolding y_def plus_or unfolding masks ..
  have i: "bit ?i1 n \<longleftrightarrow> n < 6 \<and> bit b1 (n + 2)" "bit ?i2 n \<longleftrightarrow> n < 6 \<and> (4 \<le> n \<and> bit b1 (n - 4) \<or> bit b2 (n + 4))"
    "bit ?i3 n \<longleftrightarrow> n < 6 \<and> (2 \<le> n \<and> bit b2 (n - 2) \<or> bit b3 (n + 6))" "bit ?i4 n \<longleftrightarrow> n < 6 \<and> bit b3 n" for n
    by (auto simp: bit_simps add.commute)
  have b: "\<not> bit b n" if "8 \<le> n" for b :: u8 and n using that bit_imp_le_length [of b n] by auto
  have yb: "bit y n = (if n < 6 then bit ?i4 n else if n < 12 then bit ?i3 (n - 6) else if n < 18 then bit ?i2 (n - 12) else bit ?i1 (n - 18))"
    if "n < 24" for n unfolding y using sextets_bit [of ?i2 ?i3 ?i4 n x ?i1] that i(2,3,4) by simp
  note yb = yb [unfolded i]
  have split: "(\<And>n. n < c \<Longrightarrow> P n) \<Longrightarrow> (\<And>m. c + m < d \<Longrightarrow> P (c + m)) \<Longrightarrow> n < d \<Longrightarrow> P n" for c d n :: nat and P
    by (metis le_iff_add not_less)
  have y1: "n < 8 \<Longrightarrow> bit y (16 + n) = bit b1 n" for n
    by (rule split [of 2 _ 8]) (use yb b [of _ b2] in \<open>simp_all add: add.commute\<close>)
  have y2: "n < 8 \<Longrightarrow> bit y (8 + n) = bit b2 n" for n
    by (rule split [of 4 _ 8]) (use yb b [of _ b3] in \<open>simp_all add: add.commute\<close>)
  have y3: "n < 8 \<Longrightarrow> bit y n = bit b3 n" for n
    by (rule split [of 6 _ 8]) (use yb in \<open>simp_all add: add.commute\<close>)
  show "ucast (drop_bit 16 y) = b1" by (rule bit_word_eqI) (use y1 in \<open>auto simp: bit_simps\<close>)
  show "ucast (drop_bit 8 y) = b2" by (rule bit_word_eqI) (use y2 in \<open>auto simp: bit_simps\<close>)
  show "ucast y = b3" by (rule bit_word_eqI) (use y3 in \<open>auto simp: bit_simps\<close>)
qed

lemma decode_char:
  fixes x :: u32
  assumes "is_base64 c"
  defines "y \<equiv> push_bit 6 x OR (ucast (base64_dec_map ! unat c) AND 0x3F)"
  shows "n + 1 \<noteq> 4 \<Longrightarrow> base64_decode_loop (c # cs) j n x = base64_decode_loop cs j (n + 1) y"
    "base64_decode_loop (c # cs) 3 3 x = ucast (drop_bit 16 y) # ucast (drop_bit 8 y) # ucast y # base64_decode_loop cs 3 0 y"
  using assms(1) by (auto simp: is_base64_def y_def Let_def)

lemma decode_pad:
  "n + 1 \<noteq> 4 \<Longrightarrow> base64_decode_loop (61 # cs) j n x = base64_decode_loop cs (j - 1) (n + 1) (push_bit 6 x)"
  "base64_decode_loop [61] 3 3 x = [ucast (drop_bit 16 (push_bit 6 x)), ucast (drop_bit 8 (push_bit 6 x))]"
  "base64_decode_loop [61] 2 3 x = [ucast (drop_bit 16 (push_bit 6 x))]"
proof -
  have d: "base64_dec_map ! 61 = 64" by (simp add: base64_dec_map_def)
  show "n + 1 \<noteq> 4 \<Longrightarrow> base64_decode_loop (61 # cs) j n x = base64_decode_loop cs (j - 1) (n + 1) (push_bit 6 x)"
    "base64_decode_loop [61] 3 3 x = [ucast (drop_bit 16 (push_bit 6 x)), ucast (drop_bit 8 (push_bit 6 x))]"
    "base64_decode_loop [61] 2 3 x = [ucast (drop_bit 16 (push_bit 6 x))]" by (auto simp: d Let_def)
qed

abbreviation sextet :: "u8 \<Rightarrow> u32" where
  "sextet c \<equiv> ucast (base64_dec_map ! unat c) AND 0x3F"

lemma decode_two:
  assumes "is_base64 c1" "is_base64 c2"
  shows "base64_decode_loop (c1 # c2 # cs) 3 0 x = base64_decode_loop cs 3 2 (push_bit 6 (push_bit 6 x OR sextet c1) OR sextet c2)"
proof -
  define x1 where "x1 = push_bit 6 x OR sextet c1"
  define x2 where "x2 = push_bit 6 x1 OR sextet c2"
  have "base64_decode_loop (c1 # c2 # cs) 3 0 x = base64_decode_loop (c2 # cs) 3 (Suc 0) x1"
    using decode_char(1) [OF assms(1), of 0 "c2 # cs" 3 x] by (simp only: x1_def) simp
  also have "\<dots> = base64_decode_loop cs 3 2 x2"
    using decode_char(1) [OF assms(2), of "Suc 0" cs 3 x1] by (simp only: x2_def) (simp add: numeral_2_eq_2)
  finally show ?thesis unfolding x2_def x1_def .
qed

lemma decode_three:
  assumes "is_base64 c1" "is_base64 c2" "is_base64 c3"
  defines "x3 \<equiv> \<lambda>x. push_bit 6 (push_bit 6 (push_bit 6 x OR sextet c1) OR sextet c2) OR sextet c3"
  shows "base64_decode_loop (c1 # c2 # c3 # cs) 3 0 x = base64_decode_loop cs 3 3 (x3 x)"
proof -
  define x2 where "x2 = push_bit 6 (push_bit 6 x OR sextet c1) OR sextet c2"
  have "base64_decode_loop (c1 # c2 # c3 # cs) 3 0 x = base64_decode_loop (c3 # cs) 3 2 x2"
    using decode_two [OF assms(1,2)] unfolding x2_def .
  also have "\<dots> = base64_decode_loop cs 3 3 (push_bit 6 x2 OR sextet c3)"
    using decode_char(1) [OF assms(3), of 2 cs 3 x2] by simp
  finally show ?thesis unfolding x3_def x2_def .
qed

lemma decode_encode: "base64_decode_loop (base64_encode_loop src) 3 0 x = src"
proof (induction src arbitrary: x rule: base64_encode_loop.induct)
  case (1 b1 b2 b3 bs)
  show ?case unfolding base64_encode_loop.simps Let_def decode_three [OF enc_char_facts(1) enc_char_facts(1) enc_char_facts(1)]
    decode_char(2) [OF enc_char_facts(1)] enc_char_facts(2) sextet_bytes 1 [OF refl refl refl] ..
next
  case (2 b1 b2)
  have "push_bit 6 z = push_bit 6 z OR (ucast (0 :: u8) AND 0x3F)" for z :: u32 by simp
  then show ?case using sextet_bytes(1,2) [of x b1 b2 0]
    unfolding base64_encode_loop.simps Let_def decode_three [OF enc_char_facts(1) enc_char_facts(1) enc_char_facts(1)]
    decode_pad(2) enc_char_facts(2) by simp
next
  case (3 b1)
  define x2 where "x2 = push_bit 6 (push_bit 6 x OR (drop_bit 2 (ucast b1) AND 0x3F)) OR ((push_bit 4 (ucast b1 AND 3) + drop_bit 4 0) AND 0x3F)"
  have "base64_decode_loop (base64_encode_loop [b1]) 3 0 x = base64_decode_loop [61, 61] 3 2 x2"
    unfolding base64_encode_loop.simps Let_def decode_two [OF enc_char_facts(1) enc_char_facts(1)] enc_char_facts(2) x2_def ..
  also have "\<dots> = base64_decode_loop [61] 2 3 (push_bit 6 x2)" using decode_pad(1) [of 2 "[61]" 3 x2] by simp
  also have "\<dots> = [ucast (drop_bit 16 (push_bit 6 (push_bit 6 x2)))]" by (rule decode_pad(3))
  finally show ?case using sextet_bytes(1) [of x b1 0 0] unfolding x2_def by simp
qed simp

lemma padded_length: "3 * ((n + 2) div 3) - pads n = n"
proof -
  obtain q r where n: "n = 3 * q + r" "r < 3" by (metis mod_less_divisor mult_div_mod_eq zero_less_numeral)
  then have "n mod 3 = r" "(n + 2) div 3 = q + (r + 2) div 3" "r = 0 \<or> r = 1 \<or> r = 2" by auto
  then show ?thesis using n(1) by (elim disjE) simp_all
qed

text \<open>C28: Encoding a non-empty buffer in base64 gives four characters for every started group of three bytes, and decoding
  them gives the buffer back, for every buffer whose encoding fits and whose length can be represented.\<close>

theorem base64_roundtrip:
  assumes "src \<noteq> []" "4 * ((length src + 2) div 3) < dlen" "dlen < 2 ^ 32" "length src \<le> dlen'"
  shows "\<exists>enc. base64_encode True dlen src = (0, 4 * ((length src + 2) div 3), enc @ [0]) \<and>
     length enc = 4 * ((length src + 2) div 3) \<and> base64_decode True dlen' enc = (0, Some (length src), src)"
proof -
  let ?e = "base64_encode_loop src"
  have n: "length src div 3 + (if length src mod 3 \<noteq> 0 then 1 else 0) = (length src + 2) div 3" by presburger
  have len: "length (base64_encode_loop xs) = 4 * ((length xs + 2) div 3)" for xs
    by (induction xs rule: base64_encode_loop.induct) (simp_all add: Let_def, presburger)
  have m: "(BASE64_SIZE_T_MAX - 1) div 4 = 1073741823" by (simp add: BASE64_SIZE_T_MAX_def)
  have small: "(length src + 2) div 3 \<le> 1073741823" using assms(2,3) by simp
  have enc: "base64_encode True dlen src = (0, 4 * ((length src + 2) div 3), ?e @ [0])"
    using assms(1,2) small unfolding base64_encode_def Let_def n m by (simp add: len mult.commute)
  have c: "base64_check ?e 0 0 = Some (4 * ((length src + 2) div 3), of_nat (pads (length src)))" using check_encode [of src 0] by simp
  have "pads (length src) < 3" by simp
  then have p: "unat (of_nat (pads (length src)) :: u32) = pads (length src)" by (simp add: unat_of_nat)
  define k where "k = (length src + 2) div 3"
  have "6 * (4 * k div 8) + (6 * (4 * k mod 8) + 7) div 8 = 3 * k" by presburger
  moreover have "3 * k - pads (length src) = length src" unfolding k_def by (rule padded_length)
  ultimately have n': "6 * (4 * k div 8) + (6 * (4 * k mod 8) + 7) div 8 - unat (of_nat (pads (length src)) :: u32) = length src"
    unfolding p by (simp only:)
  have "4 * k \<noteq> 0" using assms(1) unfolding k_def by (cases src) simp_all
  then have "base64_decode True dlen' ?e = (0, Some (length src), src)" using assms(4)
    unfolding base64_decode_def c k_def [symmetric] option.case prod.case Let_def n' decode_encode by simp
  with enc show ?thesis using len by blast
qed

theorem base64_roundtrip_witness:
  "\<exists>enc. base64_encode True 9 [1, 2, 3, 4] = (0, 8, enc @ [0]) \<and> base64_decode True 4 enc = (0, Some 4, [1, 2, 3, 4])"
  using base64_roundtrip [of "[1, 2, 3, 4]" 9 4] by auto

lemma check_all: "\<forall>c \<in> set src. is_base64 c \<Longrightarrow> base64_check src n 0 = Some (n + length src, 0)"
  by (induction src arbitrary: n) (simp_all add: check_nil check_char)

lemma decode_all_length: "\<forall>c \<in> set src. is_base64 c \<Longrightarrow> length (base64_decode_loop src 3 0 x) = 3 * (length src div 4)"
proof (induction "length src" arbitrary: src x rule: less_induct)
  case less
  consider "src = []" | c1 where "src = [c1]" | c1 c2 where "src = [c1, c2]" | c1 c2 c3 where "src = [c1, c2, c3]"
    | c1 c2 c3 c4 cs where "src = c1 # c2 # c3 # c4 # cs" by (metis neq_Nil_conv)
  then show ?case
  proof cases
    case 2
    then show ?thesis using decode_char(1) [of c1 0 "[]" 3 x] less.prems by simp
  next
    case 3
    then show ?thesis using decode_two [of c1 c2 "[]" x] less.prems by simp
  next
    case 4
    then show ?thesis using decode_three [of c1 c2 c3 "[]" x] less.prems by simp
  next
    case 5
    then have c: "is_base64 c1" "is_base64 c2" "is_base64 c3" "is_base64 c4" "\<forall>c \<in> set cs. is_base64 c" "length cs < length src"
      using less.prems by simp_all
    have d: "(4 + length cs) div 4 = Suc (length cs div 4)" by simp
    show ?thesis unfolding 5 decode_three [OF c(1-3)] decode_char(2) [OF c(4)]
      using less.hyps [OF c(6,5)] d by simp
  qed simp
qed

lemma tail_bytes:
  assumes "n mod 4 \<noteq> 0"
  shows "3 * (n div 4) < 6 * (n div 8) + (6 * (n mod 8) + 7) div 8 \<and> 6 * (n div 8) + (6 * (n mod 8) + 7) div 8 \<le> (n :: nat)"
proof -
  obtain q r where n: "n = 8 * q + r" "r < 8" by (metis mod_less_divisor mult_div_mod_eq zero_less_numeral)
  then have "n div 8 = q" "n mod 8 = r" "n div 4 = 2 * q + r div 4" by auto
  moreover have "n mod 4 = r mod 4" unfolding n(1) by presburger
  moreover have "r \<in> {0, 1, 2, 3, 4, 5, 6, 7}" using n(2) by auto
  ultimately show ?thesis using assms n(1) by auto
qed



end
