(* ===== verification/Utf8.thy ===== *)
theory Utf8
  imports Zephyr_Prelude
begin

text \<open>
  Truncation and bounded copies of UTF-8 strings (\<open>lib/utils/utf8.c\<close>). A string is the list of its bytes without the
  terminator; cutting the string at an index is writing the terminator there.
\<close>

section \<open>UTF-8\<close>

text \<open>Going back from an index to the start byte of a sequence, or to the start of the string.\<close>

fun utf8_seek :: "u8 list \<Rightarrow> nat \<Rightarrow> nat" where
  "utf8_seek s 0 = 0"
| "utf8_seek s (Suc i) = (if s ! Suc i AND 0xC0 \<noteq> 0xC0 then utf8_seek s i else Suc i)"

definition utf8_trunc :: "u8 list \<Rightarrow> u8 list" where
  "utf8_trunc s =
     (if s = [] then s
      else if last s AND 0x7F = last s then s
      else let i = utf8_seek s (length s - 1);
               bytes_truncated = (of_nat (length s - 1 - i) + 1 :: u8);
               b = s ! i
           in if b AND 0xF0 = 0xF0 \<and> bytes_truncated = 4 then s
              else if b AND 0xF0 \<noteq> 0xF0 \<and> b AND 0xE0 = 0xE0 \<and> bytes_truncated = 3 then s
              else if b AND 0xF0 \<noteq> 0xF0 \<and> b AND 0xE0 \<noteq> 0xE0 \<and> b AND 0xC0 = 0xC0 \<and> bytes_truncated = 2 then s
              else take i s)"

text \<open>The string in the destination; nothing is written when there is no room for the terminator.\<close>

definition utf8_lcpy :: "nat \<Rightarrow> u8 list \<Rightarrow> u8 list option" where
  "utf8_lcpy n src =
     (if n > 0 then Some (if n \<noteq> 1 then utf8_trunc (take (n - 1) src) else []) else None)"

section \<open>Whole characters\<close>

text \<open>A character: a start byte that tells the length, and continuation bytes.\<close>

definition utf8_len :: "u8 \<Rightarrow> nat" where
  "utf8_len b =
     (if b AND 0x80 = 0 then 1 else if b AND 0xE0 = 0xC0 then 2 else if b AND 0xF0 = 0xE0 then 3 else if b AND 0xF8 = 0xF0 then 4 else 0)"

definition utf8_char :: "u8 list \<Rightarrow> bool" where
  "utf8_char c \<longleftrightarrow> c \<noteq> [] \<and> length c = utf8_len (hd c) \<and> (\<forall>b \<in> set (tl c). b AND 0xC0 = 0x80)"

lemma all_less_8: "(\<forall>n < 8. P n) \<longleftrightarrow> P 0 \<and> P 1 \<and> P 2 \<and> P 3 \<and> P 4 \<and> P 5 \<and> P 6 \<and> P (7 :: nat)"
proof -
  have "n < 8 \<longleftrightarrow> n = 0 \<or> n = 1 \<or> n = 2 \<or> n = 3 \<or> n = 4 \<or> n = 5 \<or> n = 6 \<or> n = 7" for n :: nat by arith
  then show ?thesis by (simp add: imp_disjL all_conj_distrib)
qed

lemma u8_eq: "a = b \<longleftrightarrow> (\<forall>n < 8. bit a n = bit b n)" for a b :: u8
  by (auto intro!: bit_word_eqI)

lemma word8_bits: "(b AND 0x80 = 0) = (\<not> bit b 7)" "(b AND 0xC0 = 0x80) = (bit b 7 \<and> \<not> bit b 6)" "(b AND 0xC0 = 0xC0) = (bit b 7 \<and> bit b 6)"
  "(b AND 0xE0 = 0xC0) = (bit b 7 \<and> bit b 6 \<and> \<not> bit b 5)" "(b AND 0xE0 = 0xE0) = (bit b 7 \<and> bit b 6 \<and> bit b 5)"
  "(b AND 0xF0 = 0xE0) = (bit b 7 \<and> bit b 6 \<and> bit b 5 \<and> \<not> bit b 4)" "(b AND 0xF0 = 0xF0) = (bit b 7 \<and> bit b 6 \<and> bit b 5 \<and> bit b 4)"
  "(b AND 0xF8 = 0xF0) = (bit b 7 \<and> bit b 6 \<and> bit b 5 \<and> bit b 4 \<and> \<not> bit b 3)" "(b AND 0x7F = b) = (\<not> bit b 7)" for b :: u8
  by (auto simp: u8_eq all_less_8 bit_and_iff)

lemma utf8_seek_back:
  assumes "b AND 0xC0 = 0xC0" "\<forall>y \<in> set ys. y AND 0xC0 = 0x80"
  shows "n \<le> length ys \<Longrightarrow> utf8_seek (xs @ b # ys @ zs) (length xs + n) = length xs"
proof (induction n)
  case 0
  then show ?case using assms(1) by (cases xs) (simp_all add: nth_append)
next
  case (Suc n)
  have "(xs @ b # ys @ zs) ! Suc (length xs + n) = ys ! n" using Suc.prems by (simp add: nth_append)
  moreover have "ys ! n AND 0xC0 \<noteq> 0xC0" using assms(2) Suc.prems nth_mem [of n ys] by (auto simp: word8_bits)
  ultimately show ?case using Suc by simp
qed

text \<open>A string that ends with a start byte and some of its continuation bytes.\<close>

lemma utf8_trunc_end:
  assumes "utf8_len b \<in> {2, 3, 4}" "\<forall>y \<in> set ys. y AND 0xC0 = 0x80" "length ys < utf8_len b"
  shows "utf8_trunc (xs @ b # ys) = (if Suc (length ys) = utf8_len b then xs @ b # ys else xs)"
proof -
  let ?s = "xs @ b # ys"
  have lead: "b AND 0xC0 = 0xC0" using assms(1) by (auto simp: utf8_len_def word8_bits split: if_splits)
  have "bit (last (b # ys)) 7"
  proof (cases ys rule: rev_cases)
    case Nil
    then show ?thesis using lead by (simp add: word8_bits)
  qed (use assms(2) in \<open>simp add: word8_bits\<close>)
  then have "\<not> last ?s AND 0x7F = last ?s" by (simp add: word8_bits)
  moreover have "utf8_seek ?s (length ?s - 1) = length xs" using utf8_seek_back [OF lead assms(2), of "length ys" xs "[]"] by simp
  moreover have "(of_nat n + 1 :: u8) = 4 \<longleftrightarrow> Suc n = 4" "(of_nat n + 1 :: u8) = 3 \<longleftrightarrow> Suc n = 3" "(of_nat n + 1 :: u8) = 2 \<longleftrightarrow> Suc n = 2"
    if "n < 4" for n
  proof -
    have "n = 0 \<or> n = 1 \<or> n = 2 \<or> n = 3" using that by arith
    then show "(of_nat n + 1 :: u8) = 4 \<longleftrightarrow> Suc n = 4" "(of_nat n + 1 :: u8) = 3 \<longleftrightarrow> Suc n = 3" "(of_nat n + 1 :: u8) = 2 \<longleftrightarrow> Suc n = 2" by auto
  qed
  moreover have "length ys < 4" using assms(1,3) by auto
  ultimately show ?thesis using assms(1) by (auto simp: utf8_trunc_def Let_def utf8_len_def word8_bits split: if_splits)
qed

lemma utf8_char_cases:
  assumes "utf8_char c"
  obtains b ys where "c = b # ys" "Suc (length ys) = utf8_len b" "\<forall>y \<in> set ys. y AND 0xC0 = 0x80" "utf8_len b \<in> {1, 2, 3, 4}"
proof (cases c)
  case (Cons b ys)
  then have "utf8_len b \<in> {1, 2, 3, 4}" using assms by (auto simp: utf8_char_def utf8_len_def split: if_splits)
  with assms Cons that show ?thesis by (simp add: utf8_char_def)
qed (use assms in \<open>simp add: utf8_char_def\<close>)

lemma utf8_trunc_complete:
  assumes "\<forall>c \<in> set cs. utf8_char c"
  shows "utf8_trunc (concat cs) = concat cs"
proof (cases cs rule: rev_cases)
  case (snoc ds d)
  then have "utf8_char d" using assms by simp
  then obtain b ys where d: "d = b # ys" "Suc (length ys) = utf8_len b" "\<forall>y \<in> set ys. y AND 0xC0 = 0x80" "utf8_len b \<in> {1, 2, 3, 4}"
    by (rule utf8_char_cases)
  show ?thesis
  proof (cases "utf8_len b = 1")
    case True
    then have "\<not> bit b 7" by (auto simp: utf8_len_def word8_bits split: if_splits)
    then show ?thesis using True d snoc by (simp add: utf8_trunc_def word8_bits)
  next
    case False
    then show ?thesis using utf8_trunc_end [of b ys "concat ds"] d snoc by auto
  qed
qed (simp add: utf8_trunc_def)

text \<open>Truncating a string of whole UTF-8 characters that was cut at any byte removes exactly the incomplete last character
  and leaves a string without one unchanged.\<close>

lemma utf8_trunc_partial:
  assumes "\<forall>c \<in> set cs. utf8_char c" "utf8_char c" "m < length c"
  shows "utf8_trunc (concat cs @ take m c) = concat cs"
proof (cases "m = 0")
  case True
  then show ?thesis using utf8_trunc_complete [OF assms(1)] by simp
next
  case False
  obtain b ys where c: "c = b # ys" "Suc (length ys) = utf8_len b" "\<forall>y \<in> set ys. y AND 0xC0 = 0x80" "utf8_len b \<in> {1, 2, 3, 4}"
    using assms(2) by (rule utf8_char_cases)
  have t: "take m c = b # take (m - 1) ys" using c(1) False by (cases m) simp_all
  have "\<forall>y \<in> set (take (m - 1) ys). y AND 0xC0 = 0x80" using c(3) by (meson in_set_takeD)
  moreover have "utf8_len b \<in> {2, 3, 4}" "length (take (m - 1) ys) < utf8_len b" "Suc (length (take (m - 1) ys)) \<noteq> utf8_len b"
    using c assms(3) False by auto
  ultimately show ?thesis using utf8_trunc_end [of b "take (m - 1) ys" "concat cs"] unfolding t by simp
qed

lemma take_concat:
  assumes "m < length (concat cs)"
  shows "\<exists>k r. k < length cs \<and> r < length (cs ! k) \<and> take m (concat cs) = concat (take k cs) @ take r (cs ! k) \<and>
    m = length (concat (take k cs)) + r"
  using assms
proof (induction cs arbitrary: m)
  case (Cons c cs)
  show ?case
  proof (cases "m < length c")
    case True
    then show ?thesis by (intro exI [of _ 0] exI [of _ m]) simp
  next
    case False
    then have "m - length c < length (concat cs)" using Cons.prems by simp
    from Cons.IH [OF this] obtain k r where "k < length cs" "r < length (cs ! k)"
      "take (m - length c) (concat cs) = concat (take k cs) @ take r (cs ! k)" "m - length c = length (concat (take k cs)) + r" by blast
    then show ?thesis using False by (intro exI [of _ "Suc k"] exI [of _ r]) auto
  qed
qed simp

text \<open>C29: \<open>utf8_lcpy\<close> copies the longest prefix of whole characters that fits into the destination with its terminator.\<close>

theorem utf8_lcpy_longest:
  assumes "\<forall>c \<in> set cs. utf8_char c" "0 < n"
  shows "\<exists>k. utf8_lcpy n (concat cs) = Some (concat (take k cs)) \<and> length (concat (take k cs)) < n \<and>
     (k < length cs \<longrightarrow> n \<le> length (concat (take (Suc k) cs)))"
proof (cases "n - 1 < length (concat cs)")
  case True
  then obtain k r where k: "k < length cs" "r < length (cs ! k)" "take (n - 1) (concat cs) = concat (take k cs) @ take r (cs ! k)"
    "n - 1 = length (concat (take k cs)) + r" using take_concat by blast
  have "utf8_trunc (concat (take k cs) @ take r (cs ! k)) = concat (take k cs)"
    by (rule utf8_trunc_partial) (use assms(1) k in \<open>auto dest: in_set_takeD\<close>)
  then have "utf8_lcpy n (concat cs) = Some (concat (take k cs))" using k(3,4) assms(2) by (auto simp: utf8_lcpy_def)
  moreover have "n \<le> length (concat (take (Suc k) cs))" using k by (simp add: take_Suc_conv_app_nth)
  ultimately show ?thesis using k(4) assms(2) by (intro exI [of _ k]) simp
next
  case False
  then have "utf8_lcpy n (concat cs) = Some (concat cs)" using assms utf8_trunc_complete by (auto simp: utf8_lcpy_def)
  then show ?thesis using False assms(2) by (intro exI [of _ "length cs"]) simp
qed

theorem utf8_lcpy_longest_witness: "\<exists>k. utf8_lcpy 3 [0x61, 0xC3, 0xA4] = Some (concat (take k [[0x61], [0xC3, 0xA4]]))"
  using utf8_lcpy_longest [of "[[0x61], [0xC3, 0xA4]]" 3] by (auto simp: utf8_char_def utf8_len_def)

end
