(* ===== verification/Smf.thy ===== *)
theory Smf
  imports Zephyr_Prelude
begin

text \<open>
  The state machine framework (\<open>lib/smf/smf.c\<close>) with ancestor support and initial transitions. A machine is a table of
  states, each with optional entry, run and exit actions, a parent and an initial child. An action is a function on the
  context; it may call the functions of the framework. States are numbered, and a null pointer is \<open>None\<close>. The walks along
  parent and initial links are partial, since the links could form a cycle.
\<close>

section \<open>States and context\<close>

text \<open>\<open>obj\<close> is the user's object, of which the context is the first member.\<close>

record 'u smf_ctx =
  cur :: nat
  previous :: "nat option"
  executing :: nat
  terminate_val :: int
  new_state :: bool
  terminate :: bool
  is_exit :: bool
  handled :: bool
  obj :: 'u

record 'u smf_state =
  entry :: "('u smf_ctx \<Rightarrow> 'u smf_ctx) option"
  run :: "('u smf_ctx \<Rightarrow> 'u smf_ctx) option"
  exit :: "('u smf_ctx \<Rightarrow> 'u smf_ctx) option"
  parent :: "nat option"
  initial :: "nat option"

type_synonym 'u smf_table = "nat \<Rightarrow> 'u smf_state"

text \<open>Calling an action if there is one.\<close>

definition call_action :: "('u smf_ctx \<Rightarrow> 'u smf_ctx) option \<Rightarrow> 'u smf_ctx \<Rightarrow> 'u smf_ctx" where
  "call_action f ctx = (case f of None \<Rightarrow> ctx | Some a \<Rightarrow> a ctx)"

section \<open>Walks in the hierarchy\<close>

partial_function (option) share_paren :: "'u smf_table \<Rightarrow> nat option \<Rightarrow> nat \<Rightarrow> bool option" where
  "share_paren tb state target =
     (case state of None \<Rightarrow> Some False
      | Some s \<Rightarrow> if target = s then Some True else share_paren tb (parent (tb s)) target)"

partial_function (option) get_child_of :: "'u smf_table \<Rightarrow> nat \<Rightarrow> nat option \<Rightarrow> nat option option" where
  "get_child_of tb tmp par =
     (if parent (tb tmp) = par then Some (Some tmp)
      else case parent (tb tmp) of None \<Rightarrow> Some None | Some p \<Rightarrow> get_child_of tb p par)"

definition get_last_of :: "'u smf_table \<Rightarrow> nat \<Rightarrow> nat option option" where
  "get_last_of tb s = get_child_of tb s None"

partial_function (option) lca_loop :: "'u smf_table \<Rightarrow> nat option \<Rightarrow> nat \<Rightarrow> nat option option" where
  "lca_loop tb ancestor dest =
     (case ancestor of None \<Rightarrow> Some None
      | Some a \<Rightarrow> if a = dest then Some (parent (tb a))
                  else Option.bind (share_paren tb (Some dest) a)
                         (\<lambda>sh. if sh then Some (Some a) else lca_loop tb (parent (tb a)) dest))"

definition get_lca_of :: "'u smf_table \<Rightarrow> nat \<Rightarrow> nat \<Rightarrow> nat option option" where
  "get_lca_of tb source dest = lca_loop tb (parent (tb source)) dest"

section \<open>Entry, run and exit\<close>

text \<open>The loops return whether the machine was terminated, and the context.\<close>

partial_function (option) entry_loop ::
  "'u smf_table \<Rightarrow> nat \<Rightarrow> nat option \<Rightarrow> 'u smf_ctx \<Rightarrow> (bool \<times> 'u smf_ctx) option" where
  "entry_loop tb new to_execute ctx =
     (case to_execute of
        None \<Rightarrow> Some (False, ctx)
      | Some s \<Rightarrow>
          if s = new then Some (False, ctx)
          else let c1 = call_action (entry (tb s)) (ctx\<lparr>executing := s\<rparr>)
               in if entry (tb s) \<noteq> None \<and> terminate c1 then Some (True, c1)
                  else Option.bind (get_child_of tb new (Some s)) (\<lambda>nxt. entry_loop tb new nxt c1))"

definition smf_execute_all_entry_actions ::
  "'u smf_table \<Rightarrow> nat \<Rightarrow> nat option \<Rightarrow> 'u smf_ctx \<Rightarrow> (bool \<times> 'u smf_ctx) option" where
  "smf_execute_all_entry_actions tb new topmost ctx =
     (if Some new = topmost then Some (False, ctx)
      else Option.bind (get_child_of tb new topmost) (\<lambda>first.
           Option.bind (entry_loop tb new first ctx) (\<lambda>(stop, c1).
             if stop then Some (True, c1)
             else let c2 = call_action (entry (tb new)) (c1\<lparr>executing := new\<rparr>)
                  in Some (entry (tb new) \<noteq> None \<and> terminate c2, c2))))"

partial_function (option) run_loop :: "'u smf_table \<Rightarrow> nat option \<Rightarrow> 'u smf_ctx \<Rightarrow> (bool \<times> 'u smf_ctx) option" where
  "run_loop tb tmp_state ctx =
     (case tmp_state of
        None \<Rightarrow> Some (False, ctx)
      | Some s \<Rightarrow>
          let c1 = call_action (run (tb s)) (ctx\<lparr>executing := s\<rparr>)
          in if run (tb s) \<noteq> None \<and> terminate c1 then Some (True, c1)
             else if run (tb s) \<noteq> None \<and> (new_state c1 \<or> handled c1) then Some (False, c1)
             else run_loop tb (parent (tb s)) c1)"

definition smf_execute_ancestor_run_actions :: "'u smf_table \<Rightarrow> 'u smf_ctx \<Rightarrow> (bool \<times> 'u smf_ctx) option" where
  "smf_execute_ancestor_run_actions tb ctx =
     (if terminate ctx then Some (True, ctx)
      else if new_state ctx \<or> handled ctx then Some (False, ctx)
      else run_loop tb (parent (tb (cur ctx))) ctx)"

partial_function (option) exit_loop :: "'u smf_table \<Rightarrow> nat option \<Rightarrow> nat option \<Rightarrow> 'u smf_ctx \<Rightarrow> (bool \<times> 'u smf_ctx) option" where
  "exit_loop tb to_execute topmost ctx =
     (case to_execute of
        None \<Rightarrow> Some (False, ctx)
      | Some s \<Rightarrow>
          if to_execute = topmost then Some (False, ctx)
          else let c1 = call_action (exit (tb s)) ctx
               in if exit (tb s) \<noteq> None \<and> terminate c1 then Some (True, c1)
                  else exit_loop tb (parent (tb s)) topmost c1)"

definition smf_execute_all_exit_actions :: "'u smf_table \<Rightarrow> nat option \<Rightarrow> 'u smf_ctx \<Rightarrow> (bool \<times> 'u smf_ctx) option" where
  "smf_execute_all_exit_actions tb topmost ctx = exit_loop tb (Some (cur ctx)) topmost ctx"

section \<open>Operations\<close>

definition smf_clear_internal_state :: "'u smf_ctx \<Rightarrow> 'u smf_ctx" where
  "smf_clear_internal_state ctx = ctx\<lparr>is_exit := False, terminate := False, handled := False, new_state := False\<rparr>"

partial_function (option) descend :: "'u smf_table \<Rightarrow> nat \<Rightarrow> nat option" where
  "descend tb s = (case initial (tb s) of None \<Rightarrow> Some s | Some i \<Rightarrow> descend tb i)"

definition smf_set_initial :: "'u smf_table \<Rightarrow> nat \<Rightarrow> 'u smf_ctx \<Rightarrow> 'u smf_ctx option" where
  "smf_set_initial tb init_state ctx =
     Option.bind (descend tb init_state) (\<lambda>d.
     let c1 = (smf_clear_internal_state ctx)\<lparr>cur := d, previous := None, terminate_val := 0, executing := d\<rparr>
     in Option.bind (get_last_of tb d) (\<lambda>topmost.
        let t = the topmost; c2 = call_action (entry (tb t)) c1
        in if entry (tb t) \<noteq> None \<and> terminate c2 then Some c2
           else map_option snd (smf_execute_all_entry_actions tb d (Some t) c2)))"

definition smf_set_state :: "'u smf_table \<Rightarrow> nat option \<Rightarrow> 'u smf_ctx \<Rightarrow> 'u smf_ctx option" where
  "smf_set_state tb target ctx =
     (case target of
        None \<Rightarrow> Some ctx
      | Some new \<Rightarrow>
        if is_exit ctx then Some ctx
        else
          Option.bind (share_paren tb (Some (executing ctx)) new) (\<lambda>up.
          Option.bind (share_paren tb target (executing ctx)) (\<lambda>down.
          Option.bind (if up then Some (Some new) else if down then Some (Some (executing ctx)) else get_lca_of tb (executing ctx) new) (\<lambda>topmost.
          Option.bind (smf_execute_all_exit_actions tb topmost (ctx\<lparr>is_exit := True, new_state := True\<rparr>)) (\<lambda>(stop, c1).
          if stop then Some c1
          else let self1 = (executing c1 = new \<and> exit (tb new) \<noteq> None); c2 = (if self1 then call_action (exit (tb new)) c1 else c1)
               in if self1 \<and> terminate c2 then Some c2
                  else let c3 = c2\<lparr>is_exit := False\<rparr>; self2 = (executing c3 = new \<and> entry (tb new) \<noteq> None);
                           c4 = (if self2 then call_action (entry (tb new)) c3 else c3)
                       in if self2 \<and> terminate c4 then Some c4
                          else Option.bind (descend tb new) (\<lambda>d.
                                 map_option snd (smf_execute_all_entry_actions tb d topmost (c4\<lparr>previous := Some (cur c4), cur := d\<rparr>))))))))"

definition smf_set_terminate :: "int \<Rightarrow> 'u smf_ctx \<Rightarrow> 'u smf_ctx" where
  "smf_set_terminate val ctx = ctx\<lparr>terminate := True, terminate_val := val\<rparr>"

definition smf_set_handled :: "'u smf_ctx \<Rightarrow> 'u smf_ctx" where
  "smf_set_handled ctx = ctx\<lparr>handled := True\<rparr>"

definition smf_run_state :: "'u smf_table \<Rightarrow> 'u smf_ctx \<Rightarrow> (int \<times> 'u smf_ctx) option" where
  "smf_run_state tb ctx =
     (if terminate ctx then Some (terminate_val ctx, ctx)
      else let c1 = smf_clear_internal_state ctx;
               c2 = call_action (run (tb (cur c1))) (c1\<lparr>executing := cur c1\<rparr>)
           in map_option (\<lambda>(stop, c3). (if stop then terminate_val c3 else 0, c3)) (smf_execute_ancestor_run_actions tb c2))"

declare share_paren.simps [code] get_child_of.simps [code] lca_loop.simps [code] entry_loop.simps [code] run_loop.simps [code]
  exit_loop.simps [code] descend.simps [code]

section \<open>Paths to the root\<close>

fun path :: "'u smf_table \<Rightarrow> nat option \<Rightarrow> nat list \<Rightarrow> bool" where
  "path tb so [] \<longleftrightarrow> so = None"
| "path tb so (x # xs) \<longleftrightarrow> so = Some x \<and> path tb (parent (tb x)) xs"

lemma path_unique: "path tb so xs \<Longrightarrow> path tb so ys \<Longrightarrow> xs = ys"
proof (induction xs arbitrary: so ys)
  case Nil
  then show ?case by (cases ys) auto
next
  case (Cons x xs)
  then show ?case by (cases ys) auto
qed

lemma path_append: "path tb so (us @ x # vs) \<Longrightarrow> path tb (Some x) (x # vs)"
  by (induction us arbitrary: so) auto

lemma path_distinct: "path tb so xs \<Longrightarrow> distinct xs"
proof (induction xs arbitrary: so)
  case (Cons x xs)
  have "x \<notin> set xs"
  proof
    assume "x \<in> set xs"
    then obtain us vs where xs: "xs = us @ x # vs" by (meson split_list)
    have "path tb (Some x) (x # xs)" "path tb (Some x) (x # vs)" using Cons.prems path_append [of tb so "x # us" x vs] xs by auto
    from path_unique [OF this] xs show False by simp
  qed
  with Cons show ?case by auto
qed simp

lemma path_next: "path tb so (us @ x # y # vs) \<Longrightarrow> parent (tb x) = Some y"
  by (induction us arbitrary: so) auto

lemma path_last: "path tb so (us @ [x]) \<Longrightarrow> parent (tb x) = None"
  by (induction us arbitrary: so) auto

lemma share_paren_path: "path tb so xs \<Longrightarrow> share_paren tb so t = Some (t \<in> set xs)"
proof (induction xs arbitrary: so)
  case Nil
  then show ?case by (subst share_paren.simps) simp
next
  case (Cons x xs)
  then show ?case by (subst share_paren.simps) auto
qed

lemma get_child_of_path:
  assumes "path tb (Some s) (us @ c # vs)"
  shows "get_child_of tb s (parent (tb c)) = Some (Some c)"
  using assms
proof (induction us arbitrary: s)
  case Nil
  then show ?case by (subst get_child_of.simps) simp
next
  case (Cons u us)
  then have s: "s = u" "path tb (parent (tb u)) (us @ c # vs)" by auto
  then obtain y ys where y: "us @ c # vs = y # ys" "parent (tb u) = Some y" by (cases us) auto
  have d: "distinct (u # us @ c # vs)" using path_distinct [OF Cons.prems] by simp
  have "parent (tb c) \<noteq> Some y"
  proof (cases vs)
    case Nil
    then show ?thesis using path_last [of tb _ "u # us" c] Cons.prems by simp
  next
    case (Cons v vs')
    then have "parent (tb c) = Some v" using path_next [of tb _ "u # us" c v vs'] \<open>path tb (Some s) ((u # us) @ c # vs)\<close> by simp
    moreover have "v \<noteq> y" using d y(1) Cons by (cases us) auto
    ultimately show ?thesis by simp
  qed
  moreover have "get_child_of tb y (parent (tb c)) = Some (Some c)" using Cons.IH [of y] s(2) y(2) by simp
  ultimately show ?case using y(2) s(1) by (subst get_child_of.simps) auto
qed

lemma lca_loop_path:
  assumes "path tb (Some d) ds"
  shows "path tb so as \<Longrightarrow> d \<notin> set as \<Longrightarrow> lca_loop tb so d = Some (find (\<lambda>a. a \<in> set ds) as)"
proof (induction as arbitrary: so)
  case Nil
  then show ?case by (subst lca_loop.simps) simp
next
  case (Cons a as)
  then show ?case using share_paren_path [OF assms, of a] by (subst lca_loop.simps) auto
qed

section \<open>The sequence of actions\<close>

text \<open>Actions that record that they were called: the record is the sequence of the calls.\<close>

datatype smf_event = Entered nat | Ran nat | Exited nat

definition log_event :: "smf_event \<Rightarrow> smf_event list smf_ctx \<Rightarrow> smf_event list smf_ctx" where
  "log_event e ctx = ctx\<lparr>obj := obj ctx @ [e]\<rparr>"

definition logging :: "smf_event list smf_table \<Rightarrow> bool" where
  "logging tb \<longleftrightarrow> (\<forall>s. entry (tb s) \<in> {None, Some (log_event (Entered s))} \<and> exit (tb s) \<in> {None, Some (log_event (Exited s))})"

definition entries :: "smf_event list smf_table \<Rightarrow> nat list \<Rightarrow> smf_event list" where
  "entries tb xs = map Entered (filter (\<lambda>s. entry (tb s) \<noteq> None) xs)"

definition exits :: "smf_event list smf_table \<Rightarrow> nat list \<Rightarrow> smf_event list" where
  "exits tb xs = map Exited (filter (\<lambda>s. exit (tb s) \<noteq> None) xs)"

lemma entries_append [simp]: "entries tb (xs @ ys) = entries tb xs @ entries tb ys" "entries tb [] = []"
  "exits tb (xs @ ys) = exits tb xs @ exits tb ys" "exits tb [] = []"
  by (simp_all add: entries_def exits_def)

lemma call_log:
  assumes "logging tb"
  shows "call_action (entry (tb s)) ctx = ctx\<lparr>obj := obj ctx @ entries tb [s]\<rparr>" "call_action (exit (tb s)) ctx = ctx\<lparr>obj := obj ctx @ exits tb [s]\<rparr>"
proof -
  have "entry (tb s) \<in> {None, Some (log_event (Entered s))}" "exit (tb s) \<in> {None, Some (log_event (Exited s))}" using assms by (simp_all add: logging_def)
  then show "call_action (entry (tb s)) ctx = ctx\<lparr>obj := obj ctx @ entries tb [s]\<rparr>" "call_action (exit (tb s)) ctx = ctx\<lparr>obj := obj ctx @ exits tb [s]\<rparr>"
    by (auto simp: call_action_def entries_def exits_def log_event_def)
qed

lemma exit_loop_log:
  assumes "logging tb"
  shows "path tb so xs \<Longrightarrow> \<not> terminate ctx \<Longrightarrow>
    exit_loop tb so tm ctx = Some (False, ctx\<lparr>obj := obj ctx @ exits tb (takeWhile (\<lambda>s. Some s \<noteq> tm) xs)\<rparr>)"
proof (induction xs arbitrary: so ctx)
  case Nil
  then show ?case by (subst exit_loop.simps) simp
next
  case (Cons x xs)
  have e: "exits tb (x # ys) = exits tb [x] @ exits tb ys" for ys by (simp add: exits_def)
  show ?case using Cons.prems Cons.IH [of "parent (tb x)" "call_action (exit (tb x)) ctx"]
    by (subst exit_loop.simps) (auto simp: Let_def call_log(2) [OF assms] e [of "takeWhile _ _"])
qed

lemma entry_loop_log:
  assumes "logging tb"
  shows "path tb (Some d) (us @ x # vs) \<Longrightarrow> \<not> terminate ctx \<Longrightarrow>
    \<exists>e. entry_loop tb d (Some x) ctx = Some (False, ctx\<lparr>executing := e, obj := obj ctx @ entries tb (rev (tl (us @ [x])))\<rparr>)"
proof (induction us arbitrary: x vs ctx rule: rev_induct)
  case Nil
  then have "x = d" by simp
  then show ?case by (subst entry_loop.simps) (auto intro!: exI [of _ "executing ctx"])
next
  case (snoc u us)
  have "distinct ((us @ [u]) @ x # vs)" using path_distinct [OF snoc.prems(1)] .
  moreover have "d = hd (us @ [u])" using snoc.prems(1) by (cases us) auto
  ultimately have "x \<noteq> d" by (cases us) auto
  let ?c = "call_action (entry (tb x)) (ctx\<lparr>executing := x\<rparr>)"
  have p: "path tb (Some d) (us @ u # x # vs)" using snoc.prems(1) by simp
  have "get_child_of tb d (Some x) = Some (Some u)" using get_child_of_path [OF p] path_next [OF p] by simp
  moreover obtain e where "entry_loop tb d (Some u) ?c = Some (False, ?c\<lparr>executing := e, obj := obj ?c @ entries tb (rev (tl (us @ [u])))\<rparr>)"
    using snoc.IH [OF p, of ?c] snoc.prems(2) by (auto simp: call_log(1) [OF assms])
  moreover have "entries tb (rev (tl ((us @ [u]) @ [x]))) = entries tb [x] @ entries tb (rev (tl (us @ [u])))" by (cases us) (simp_all flip: entries_append)
  ultimately show ?case using \<open>x \<noteq> d\<close> snoc.prems(2) by (subst entry_loop.simps) (auto simp: Let_def call_log(1) [OF assms] intro!: exI [of _ e])
qed

lemma all_entry_log:
  assumes "logging tb" "path tb (Some d) ds" "\<not> terminate ctx" "\<And>t. tm = Some t \<Longrightarrow> t \<in> set ds"
  defines "bs \<equiv> takeWhile (\<lambda>s. Some s \<noteq> tm) ds"
  shows "smf_execute_all_entry_actions tb d tm ctx =
    Some (False, ctx\<lparr>executing := if Some d = tm then executing ctx else d, obj := obj ctx @ entries tb (rev bs)\<rparr>)"
proof -
  obtain zs where ds: "ds = d # zs" using assms(2) by (cases ds) auto
  show ?thesis
  proof (cases "Some d = tm")
    case True
    then show ?thesis by (simp add: smf_execute_all_entry_actions_def bs_def ds)
  next
    case False
    then obtain us x where bs: "bs = us @ [x]" using ds by (cases bs rule: rev_cases) (auto simp: bs_def)
    obtain ts where ts: "ds = us @ x # ts" "ts = dropWhile (\<lambda>s. Some s \<noteq> tm) ds" using bs takeWhile_dropWhile_id [of _ ds] by (metis bs_def append.assoc append_Cons append_Nil)
    have p: "path tb (Some d) (us @ x # ts)" using assms(2) ts(1) by simp
    have "parent (tb x) = tm"
    proof (cases ts)
      case Nil
      then have "\<forall>s \<in> set ds. Some s \<noteq> tm" using ts(2) by (simp add: dropWhile_eq_Nil_conv)
      then have "tm = None" using assms(4) by (cases tm) auto
      then show ?thesis using p Nil path_last by auto
    next
      case (Cons t ts')
      then have "dropWhile (\<lambda>s. Some s \<noteq> tm) ds = t # ts'" using ts(2) by simp
      then have "Some t = tm" using hd_dropWhile [of "\<lambda>s. Some s \<noteq> tm" ds] by simp
      then show ?thesis using p Cons path_next by auto
    qed
    then have child: "get_child_of tb d tm = Some (Some x)" using get_child_of_path [OF p] by simp
    obtain e where l: "entry_loop tb d (Some x) ctx = Some (False, ctx\<lparr>executing := e, obj := obj ctx @ entries tb (rev (tl (us @ [x])))\<rparr>)"
      using entry_loop_log [OF assms(1) p assms(3)] by blast
    have "rev bs = rev (tl bs) @ [d]" using False ds by (simp add: bs_def)
    then have "entries tb (rev bs) = entries tb (rev (tl (us @ [x]))) @ entries tb [d]" using bs by (simp flip: entries_append)
    then show ?thesis using False assms(3)
      by (simp add: smf_execute_all_entry_actions_def child l Let_def call_log(1) [OF assms(1)])
  qed
qed

lemma find_first: "\<forall>u \<in> set us. \<not> P u \<Longrightarrow> P x \<Longrightarrow> find P (us @ x # vs) = Some x"
  by (induction us) auto

text \<open>The topmost state of a transition is the first state on the way from the executing state to the root that contains the
  new state.\<close>

lemma topmost_of:
  assumes "path tb (Some e) es" "path tb (Some new) ns"
  shows "(if new \<in> set es then Some (Some new) else if e \<in> set ns then Some (Some e) else get_lca_of tb e new) =
    Some (find (\<lambda>s. s \<in> set ns) es)"
proof -
  obtain zs where es: "es = e # zs" "path tb (parent (tb e)) zs" using assms(1) by (cases es) auto
  have "find (\<lambda>s. s \<in> set ns) es = Some new" if n: "new \<in> set es"
  proof -
    obtain us vs where uv: "es = us @ new # vs" using n by (meson split_list)
    then have "ns = new # vs" using path_unique [OF assms(2)] path_append assms(1) by blast
    then show ?thesis using uv path_distinct [OF assms(1)] by (intro find_first [of us _ new vs, folded uv]) auto
  qed
  moreover have "get_lca_of tb e new = Some (find (\<lambda>s. s \<in> set ns) zs)" if "new \<notin> set es"
    using lca_loop_path [OF assms(2) es(2)] that es(1) by (simp add: get_lca_of_def)
  ultimately show ?thesis using es(1) by auto
qed


text \<open>An example: states 1 and 2 in state 0, state 3 in 1, state 4 in 2; state 5 is on its own.\<close>

definition demo_parent :: "nat \<Rightarrow> nat option" where
  "demo_parent s = (if s = 1 \<or> s = 2 then Some 0 else if s = 3 then Some 1 else if s = 4 then Some 2 else None)"

definition demo_table :: "smf_event list smf_table" where
  "demo_table s = \<lparr>entry = Some (log_event (Entered s)), run = None, exit = Some (log_event (Exited s)), parent = demo_parent s, initial = None\<rparr>"

definition demo_ctx :: "nat \<Rightarrow> smf_event list smf_ctx" where
  "demo_ctx s = \<lparr>cur = s, previous = None, executing = s, terminate_val = 0, new_state = False, terminate = False, is_exit = False, handled = False, obj = []\<rparr>"

lemma demo_facts:
  "logging demo_table" "path demo_table (Some 3) [3, 1, 0]" "path demo_table (Some 4) [4, 2, 0]" "descend demo_table s = Some s"
  by (auto simp: logging_def demo_table_def demo_parent_def) (subst descend.simps, simp add: demo_table_def)


text \<open>C0: Starting the machine enters the states on the way from the root to the start state (or the one its initial transitions
  lead to), outermost first, each once.\<close>

theorem smf_set_initial_actions:
  assumes "logging tb" "descend tb start = Some d" "path tb (Some d) ds"
  shows "\<exists>ctx'. smf_set_initial tb start ctx = Some ctx' \<and> cur ctx' = d \<and> previous ctx' = None \<and> obj ctx' = obj ctx @ entries tb (rev ds)"
proof -
  have "ds \<noteq> []" using assms(3) by auto
  then obtain us x where ds: "ds = us @ [x]" by (cases ds rule: rev_cases) auto
  have "get_last_of tb d = Some (Some x)"
    using get_child_of_path [of tb d us x "[]"] path_last [of tb _ us x] assms(3) ds by (simp add: get_last_of_def)
  moreover have "takeWhile (\<lambda>s. Some s \<noteq> Some x) ds = us"
    using path_distinct [OF assms(3)] unfolding ds by (subst takeWhile_append2) auto
  ultimately show ?thesis
    using all_entry_log [OF assms(1,3), where tm = "Some x"] ds
    by (simp add: smf_set_initial_def assms(2) Let_def call_log(1) [OF assms(1)] smf_clear_internal_state_def flip: entries_append)
qed

theorem smf_set_initial_actions_witness:
  "map_option obj (smf_set_initial demo_table 3 (demo_ctx 5)) = Some [Entered 0, Entered 1, Entered 3]"
  using smf_set_initial_actions [OF demo_facts(1) demo_facts(4) [of 3] demo_facts(2), of "demo_ctx 5"]
  by (auto simp: entries_def demo_table_def demo_ctx_def)

definition run_logging :: "nat set \<Rightarrow> smf_event list smf_table \<Rightarrow> bool" where
  "run_logging H tb \<longleftrightarrow> (\<forall>s. run (tb s) \<in> {None, Some (\<lambda>c. if s \<in> H then smf_set_handled (log_event (Ran s) c) else log_event (Ran s) c)})"

definition ran :: "nat set \<Rightarrow> smf_event list smf_table \<Rightarrow> nat list \<Rightarrow> smf_event list" where
  "ran H tb xs = (let rs = filter (\<lambda>s. run (tb s) \<noteq> None) xs in map Ran (takeWhile (\<lambda>s. s \<notin> H) rs @ take 1 (dropWhile (\<lambda>s. s \<notin> H) rs)))"

lemma run_loop_log:
  assumes "run_logging H tb"
  shows "path tb so xs \<Longrightarrow> \<not> terminate ctx \<Longrightarrow> \<not> new_state ctx \<Longrightarrow> \<not> handled ctx \<Longrightarrow>
    \<exists>c. run_loop tb so ctx = Some (False, c) \<and> obj c = obj ctx @ ran H tb xs"
proof (induction xs arbitrary: so ctx)
  case Nil
  then show ?case by (subst run_loop.simps) (simp add: ran_def)
next
  case (Cons x xs)
  have r: "run (tb x) \<in> {None, Some (\<lambda>c. if x \<in> H then smf_set_handled (log_event (Ran x) c) else log_event (Ran x) c)}" using assms by (simp add: run_logging_def)
  let ?c = "call_action (run (tb x)) (ctx\<lparr>executing := x\<rparr>)"
  show ?case using r Cons.prems Cons.IH [of "parent (tb x)" ?c]
    by (subst run_loop.simps) (auto simp: Let_def call_action_def log_event_def smf_set_handled_def ran_def)
qed

text \<open>The run action of the current state is the first step of the walk to the root, if it does not move the machine silently.\<close>

lemma smf_run_state_loop:
  assumes "\<not> terminate ctx" "cur (call_action (run (tb (cur ctx))) ((smf_clear_internal_state ctx)\<lparr>executing := cur ctx\<rparr>)) = cur ctx"
  shows "smf_run_state tb ctx =
    map_option (\<lambda>(stop, c). (if stop then terminate_val c else 0, c)) (run_loop tb (Some (cur ctx)) (smf_clear_internal_state ctx))"
proof -
  define c where "c = smf_clear_internal_state ctx"
  define c2 where "c2 = call_action (run (tb (cur ctx))) (c\<lparr>executing := cur ctx\<rparr>)"
  have c: "cur c = cur ctx" "\<not> terminate c" "\<not> new_state c" "\<not> handled c" by (simp_all add: c_def smf_clear_internal_state_def)
  have n: "\<not> terminate c2" "\<not> new_state c2" "\<not> handled c2" if "run (tb (cur ctx)) = None" using that c by (simp_all add: c2_def call_action_def)
  have "cur c2 = cur ctx" using assms(2) by (simp add: c2_def c_def)
  then have "run_loop tb (Some (cur ctx)) c = smf_execute_ancestor_run_actions tb c2"
    using n unfolding smf_execute_ancestor_run_actions_def run_loop.simps [of tb "Some _"] Let_def option.case c2_def [symmetric]
    by (cases "run (tb (cur ctx)) = None") auto
  moreover have "smf_run_state tb ctx = map_option (\<lambda>(stop, c). (if stop then terminate_val c else 0, c)) (smf_execute_ancestor_run_actions tb c2)"
    using assms(1) unfolding smf_run_state_def Let_def c_def [symmetric] c(1) c2_def [symmetric] by simp
  ultimately show ?thesis unfolding c_def by simp
qed

text \<open>C0: One iteration runs the run actions from the current state outwards, in order, up to and including the first one that
  reports the event as handled, for run actions that do not change the state.\<close>

theorem smf_run_state_actions:
  assumes "run_logging H tb" "path tb (Some (cur ctx)) cs" "\<not> terminate ctx"
  shows "\<exists>c. smf_run_state tb ctx = Some (0, c) \<and> obj c = obj ctx @ ran H tb cs"
proof -
  let ?c = "smf_clear_internal_state ctx"
  have r: "run (tb (cur ctx)) \<in> {None, Some (\<lambda>c. if cur ctx \<in> H then smf_set_handled (log_event (Ran (cur ctx)) c) else log_event (Ran (cur ctx)) c)}"
    using assms(1) by (simp add: run_logging_def)
  have "cur (call_action (run (tb (cur ctx))) (?c\<lparr>executing := cur ctx\<rparr>)) = cur ctx"
    using r by (elim insertE) (simp_all add: call_action_def log_event_def smf_set_handled_def smf_clear_internal_state_def)
  note l = smf_run_state_loop [where tb = tb and ctx = ctx, OF assms(3) this]
  have "obj ?c = obj ctx" "\<not> terminate ?c" "\<not> new_state ?c" "\<not> handled ?c" by (simp_all add: smf_clear_internal_state_def)
  then show ?thesis using run_loop_log [OF assms(1,2), of ?c] by (auto simp: l)
qed

text \<open>The example with run actions, of which that of state 1 handles the event.\<close>

definition demo_run :: "smf_event list smf_table" where
  "demo_run s = (demo_table s)\<lparr>run := Some (\<lambda>c. if s \<in> {1} then smf_set_handled (log_event (Ran s) c) else log_event (Ran s) c)\<rparr>"

theorem smf_run_state_actions_witness:
  "map_option (\<lambda>(r, c). (r, obj c)) (smf_run_state demo_run (demo_ctx 3)) = Some (0, [Ran 3, Ran 1])"
proof -
  have f: "run_logging {1} demo_run" "path demo_run (Some (cur (demo_ctx 3))) [3, 1, 0]" "\<not> terminate (demo_ctx 3)"
    by (auto simp: run_logging_def demo_run_def demo_table_def demo_parent_def demo_ctx_def)
  have "ran {1} demo_run [3, 1, 0] = [Ran 3, Ran 1]" by (simp add: ran_def demo_run_def)
  then show ?thesis using smf_run_state_actions [OF f] by (auto simp: demo_ctx_def)
qed

section \<open>Refused and nested transitions\<close>

text \<open>The two refused transitions: to no state, and from an exit action.\<close>

lemma smf_set_state_refused: "smf_set_state tb None ctx = Some ctx" "is_exit ctx \<Longrightarrow> smf_set_state tb target ctx = Some ctx"
  by (simp_all add: smf_set_state_def split: option.split)

text \<open>Once terminated, the machine runs no action and reports the value it was terminated with.\<close>

lemma smf_run_state_terminated: "smf_run_state tb (smf_set_terminate val ctx) = Some (val, smf_set_terminate val ctx)"
  by (simp add: smf_run_state_def smf_set_terminate_def)

text \<open>The example in which entering state 2 makes a transition to state 5.\<close>

definition demo_nested :: "smf_event list smf_table" where
  "demo_nested s = (demo_table s)
     \<lparr>entry := Some (\<lambda>c. if s = 2 then the (smf_set_state demo_table (Some 5) (log_event (Entered 2) c)) else log_event (Entered s) c)\<rparr>"


end
