(* ===== verification/Spec2Isabelle.thy ===== *)
theory Spec2Isabelle
  imports Zephyr_Prelude Dlist Ring_Buffer Ring_Buffer_Items Timeout_Queue Priq Sem Mutex Msgq Kstack Mem_Slab Events Kqueue Sched_System Work_System Encoding Utf8 Smf
begin

text \<open>
  A verification library for the kernel core of the Zephyr RTOS: the scheduler, the timeout queue, the
  kernel objects threads wait on, and the data structures below them.

  \<^bold>\<open>The program's parts.\<close> Threads are chosen by the scheduler (\<open>kernel/sched.c\<close>) from a ready queue
  (\<open>kernel/include/priority_q.h\<close>), which is a doubly linked list (\<open>include/zephyr/sys/dlist.h\<close>). A thread
  that blocks leaves the ready queue, joins the wait queue of an object and may start a timeout; the
  timeout queue (\<open>kernel/timeout.c\<close>) is advanced by the clock interrupt and wakes threads, ends time
  slices (\<open>kernel/timeslicing.c\<close>) and runs kernel timers (\<open>kernel/timer.c\<close>). Semaphores, mutexes,
  condition variables, message queues, stacks, memory slabs and event objects wake threads by taking the first one off
  their wait queue and passing it a result. Work queues (\<open>kernel/work.c\<close>) run items in a thread of their own and use
  semaphores, wait queues and timeouts. The ring buffer (\<open>lib/utils/ring_buffer.c\<close>) is independent
  of the scheduler.

  \<^bold>\<open>Theories.\<close>
  \<^item> \<open>Zephyr_Prelude\<close>: machine types, error numbers, collections of rewrite rules, ordered insertion.
  \<^item> \<open>Math_Extras\<close>: \<open>sys/math_extras_impl.h\<close>, overflow-checked arithmetic and bit counts.
  \<^item> \<open>Dlist\<close>: \<open>sys/dlist.h\<close> on a heap of next and prev pointers, refined to lists.
  \<^item> \<open>Slist\<close>: the lists generated by \<open>sys/list_gen.h\<close> on words of memory, for plain nodes (\<open>sys/slist.h\<close>) and nodes
    with flags in the link (\<open>sys/sflist.h\<close>), two instances of one contract.
  \<^item> \<open>Ring_Buffer\<close>, \<open>Ring_Buffer_Items\<close>: \<open>lib/utils/ring_buffer.c\<close>, byte and item mode with the
    32-bit free-running indices; both are first-in first-out channels.
  \<^item> \<open>Timeout_Queue\<close>: \<open>kernel/timeout.c\<close>, the delta list seen as a list of deadlines; a locale states what
    a callback may do so that announcing ticks ends and runs what is due in order.
  \<^item> \<open>Priq\<close>: the list ready queue on pointers and the multi-queue with its bitmap, both instances of one
    ready-queue contract.
  \<^item> \<open>Kernel\<close>, \<open>Sched\<close>: thread flags (\<open>kthread.h\<close>), the kernel state, and the operations of \<open>sched.c\<close>,
    \<open>ksched.h\<close>, \<open>kswap.h\<close>, \<open>timeslicing.c\<close> and \<open>thread.c\<close>, one definition per function.
  \<^item> \<open>Sched_Inv\<close>, \<open>Sched_Ops\<close>, \<open>Sched_Halt\<close>, \<open>Sched_Api\<close>: the scheduler invariant \<open>sched_inv\<close> (the ready queue
    holds exactly the runnable threads in priority order, wait queues and \<open>pended_on\<close> agree, timeouts
    belong to blocked threads, the cache is the thread the scheduler would choose), that every operation
    keeps it, and \<open>runs_best\<close>: at a scheduling point the best ready thread runs.
  \<^item> \<open>Sched_System\<close>: the kernel as a transition system of calls, interrupts and clock ticks from boot; the
    invariant holds in every reachable state, the looping calls return, and the best ready thread runs. Its last
    part has the cases in which the code does not reschedule.
  \<^item> \<open>Boot\<close>: concrete states for the witnesses.
  \<^item> \<open>Timer\<close>: \<open>kernel/timer.c\<close> and the clock interrupt with its real callbacks.
  \<^item> \<open>Waiting\<close>, \<open>Kernel_Memory\<close>: how kernel objects wake threads and copy memory.
  \<^item> \<open>Sem\<close>, \<open>Mutex\<close> (with condition variables), \<open>Msgq\<close>, \<open>Kstack\<close>, \<open>Mem_Slab\<close>, \<open>Events\<close>, \<open>Kqueue\<close>: the kernel objects. Each has an
    invariant, lemmas for every branch of every operation, and a relation of runs in which calls of the
    operations alternate with arbitrary changes by the rest of the system; the main theorem of each is
    about all its runs.
  \<^item> \<open>Work\<close>, \<open>Work_System\<close>: \<open>kernel/work.c\<close> on the kernel state, its refinement to a small state machine of items and lists, the
    invariant of that machine under every interleaving of calls, timeouts and queue threads, and what submitting,
    cancelling, flushing and running promise.
  \<^item> \<open>Encoding\<close>: \<open>lib/utils/hex.c\<close>, \<open>dec.c\<close> and \<open>base64.c\<close>, with the round trips and the sizes they ask for.
  \<^item> \<open>Utf8\<close>: \<open>lib/utils/utf8.c\<close>; a bounded copy is the longest prefix of whole characters that fits.
  \<^item> \<open>Smf\<close>: \<open>lib/smf/smf.c\<close>; which actions a start, a transition and a run of a hierarchical machine call, in which order.

  \<^bold>\<open>State and operations.\<close> The kernel state is one record; an operation is a function from the state to
  its result and the new state. One CPU is modelled and the kernel runs with interrupts masked, so an
  operation is one step. An operation that blocks returns \<open>Blocked\<close> after the context switch, and the code
  behind the switch is a definition of its own with suffix \<open>_resume\<close>. Loops that may not end are partial
  functions into \<open>option\<close>, and that they end is proved. Bounds are used only for the loops over the 32 bits of a
  word, which count down from 32 as in the code, and for the turns of a work queue thread: one more than the number of
  pending items is enough, which is proved.

  \<^bold>\<open>Configuration.\<close> Multithreading on one CPU; the list ready queue and wait queues (\<open>SCHED_DUMB\<close>,
  \<open>WAITQ_DUMB\<close>); 64-bit timeouts; global time slices; no meta-IRQ priorities; no userspace, polling, object
  cores or assertions; run-time argument checks enabled; 32-bit pointers and \<open>size_t\<close>, little endian.

  \<^bold>\<open>Not modelled.\<close> SMP and inter-processor interrupts; userspace, memory domains and paging; context-switch
  assembly and architecture ports (a switch is the change of \<open>current\<close>); device drivers and the clock
  hardware (its elapsed ticks are an input); allocators (their answer is a parameter); tracing and logging,
  which have no effect here; polling, pipes and mailboxes; subsystems above the kernel
  (networking, Bluetooth, file systems, shell).
\<close>

end
